(* ===== verification/Prelude.thy ===== *)
theory Prelude
  imports Main "HOL-Library.Word"
begin

unbundle bit_operations_syntax

text \<open>
  The prelude of the Terrakernel development: the machine integer types the kernel's C++
  uses, the byte-addressed memory every component reads and writes, regions of addresses,
  little-endian loads and stores of 1 to 8 bytes, and the lemmas on words and counting
  loops that the component theories share.

  Memory is one flat store of bytes indexed by the pointer value the code dereferences.
  Address arithmetic is that of \<open>uintptr_t\<close>: it wraps at \<open>2 ^ 64\<close>, so a region
  \<open>[a, a + n)\<close> is written \<open>x - a < n\<close>, which is right also when the region
  passes the top of the address space.
\<close>

section \<open>Machine integers and memory\<close>

type_synonym u8 = "8 word"
type_synonym u16 = "16 word"
type_synonym u32 = "32 word"
type_synonym u64 = "64 word"

type_synonym memory = "u64 \<Rightarrow> u8"

text \<open>Facts about loads after stores, about regions, and about counting loops.\<close>

named_theorems mem_simps
named_theorems region_simps

section \<open>Words\<close>

lemma unat_lt64: "unat (a :: u64) < 18446744073709551616"
  using unsigned_less [of a, where 'a = nat] by simp

lemma unat_max64: "unat (- 1 :: u64) = 18446744073709551615"
  by (simp add: unsigned_minus_1_eq_mask mask_eq_exp_minus_1)

lemma unat_add_nowrap:
  fixes a b :: u64
  assumes "unat a + unat b < 2 ^ 64"
  shows "unat (a + b) = unat a + unat b"
  using assms by (simp add: unat_word_ariths)

lemma unat_of_nat64: "n < 2 ^ 64 \<Longrightarrow> unat (of_nat n :: u64) = n"
  by (simp add: unat_of_nat)

lemma of_nat_unat64: "of_nat (unat (w :: u64)) = w"
  by simp

lemma unat_add_of_nat:
  fixes a :: u64
  assumes "unat a + n < 2 ^ 64"
  shows "unat (a + of_nat n) = unat a + n"
  using assms by (simp add: unat_word_ariths unat_of_nat)

lemma word_Suc_le:
  fixes i n :: "'a::len word"
  assumes "i < n"
  shows "unat (i + 1) = unat i + 1" and "i + 1 \<le> n"
proof -
  have "i \<noteq> - 1" using assms word_n1_ge [of n] by auto
  then have "1 + i \<noteq> 0" by (simp add: add_eq_0_iff eq_commute [of i])
  then show u: "unat (i + 1) = unat i + 1" by (simp add: unatSuc add.commute)
  show "i + 1 \<le> n"
    using assms by (simp add: word_le_nat_alt word_less_nat_alt u)
qed

lemma word_diff_measure:
  fixes i n :: "'a::len word"
  assumes "i < n"
  shows "unat (n - (i + 1)) < unat (n - i)"
proof -
  have "i \<le> n" and "i + 1 \<le> n" and "unat i < unat n"
    using assms by (simp_all add: word_Suc_le word_less_nat_alt less_imp_le)
  then show ?thesis by (simp add: unat_sub word_Suc_le [OF assms])
qed

lemma row_column_unique:
  fixes a b c d P :: nat
  assumes "a * P + b = c * P + d" "b < P" "d < P"
  shows "a = c" "b = d"
proof -
  have "(a * P + b) div P = a" "(c * P + d) div P = c" using assms(2,3) by simp_all
  with assms(1) show "a = c" by simp
  with assms(1) show "b = d" by simp
qed

section \<open>Regions of addresses\<close>

definition in_region :: "u64 \<Rightarrow> u64 \<Rightarrow> u64 \<Rightarrow> bool" where
  "in_region a n x \<longleftrightarrow> x - a < n"

text \<open>Two regions that share no byte.\<close>

definition sep :: "u64 \<Rightarrow> u64 \<Rightarrow> u64 \<Rightarrow> u64 \<Rightarrow> bool" where
  "sep a n b k \<longleftrightarrow> n = 0 \<or> k = 0 \<or> n \<le> b - a \<and> k \<le> a - b"

lemma in_region_offset [simp]: "in_region a n (a + i) \<longleftrightarrow> i < n"
  by (simp add: in_region_def)

lemma in_region_empty [simp]: "\<not> in_region a 0 x"
  by (simp add: in_region_def)

lemma in_regionE:
  assumes "in_region a n x"
  obtains i where "i < n" and "x = a + i"
  using assms by (metis add.commute diff_add_cancel in_region_def)

lemma sep_sym: "sep a n b k \<longleftrightarrow> sep b k a n"
  by (auto simp: sep_def)

lemma sepD:
  assumes "sep a n b k" and "in_region a n x"
  shows "\<not> in_region b k x"
proof
  assume "in_region b k x"
  with assms have "n \<noteq> 0" "k \<noteq> 0" and x: "x - a < n" "x - b < k"
    by (auto simp: in_region_def)
  with assms(1) have "n \<le> b - a" "k \<le> a - b" by (auto simp: sep_def)
  with x have "unat (x - a) < unat (b - a)" and "unat (x - b) < unat (a - b)"
    by (auto simp: word_less_nat_alt word_le_nat_alt)
  then show False
    using unat_lt64 [of x] unat_lt64 [of a] unat_lt64 [of b]
    unfolding unat_sub_if' by (auto split: if_splits)
qed

lemma sep_nat:
  assumes "unat a + unat n \<le> unat b" and "unat b + unat k \<le> 2 ^ 64"
  shows "sep a n b k"
proof (cases "n = 0 \<or> k = 0")
  case False
  then have "0 < unat n" "0 < unat k" by (simp_all add: unat_gt_0)
  with assms have "unat n \<le> unat (b - a)" and "unat k \<le> unat (a - b)"
    by (auto simp: unat_sub_if')
  then show ?thesis
    by (simp add: sep_def word_le_nat_alt)
qed (auto simp: sep_def)

section \<open>Little-endian loads and stores\<close>

text \<open>The \<open>n\<close> low bytes of a value, lowest address first.\<close>

fun read_le :: "nat \<Rightarrow> memory \<Rightarrow> u64 \<Rightarrow> u64" where
  "read_le 0 m a = 0"
| "read_le (Suc n) m a = ucast (m a) OR push_bit 8 (read_le n m (a + 1))"

fun write_le :: "nat \<Rightarrow> memory \<Rightarrow> u64 \<Rightarrow> u64 \<Rightarrow> memory" where
  "write_le 0 m a v = m"
| "write_le (Suc n) m a v = write_le n (m(a := ucast v)) (a + 1) (drop_bit 8 v)"

definition read16 :: "memory \<Rightarrow> u64 \<Rightarrow> u16" where "read16 m a = ucast (read_le 2 m a)"
definition read32 :: "memory \<Rightarrow> u64 \<Rightarrow> u32" where "read32 m a = ucast (read_le 4 m a)"
definition read64 :: "memory \<Rightarrow> u64 \<Rightarrow> u64" where "read64 m a = read_le 8 m a"
definition write64 :: "memory \<Rightarrow> u64 \<Rightarrow> u64 \<Rightarrow> memory" where
  "write64 m a v = write_le 8 m a v"

definition write32 :: "memory \<Rightarrow> u64 \<Rightarrow> u32 \<Rightarrow> memory" where
  "write32 m a v = write_le 4 m a (ucast v)"

lemma read_le_numeral:
  "read_le (numeral n) m a = ucast (m a) OR push_bit 8 (read_le (pred_numeral n) m (a + 1))"
  by (simp add: numeral_eq_Suc)

lemma write_le_outside:
  assumes "n < 2 ^ 64" and "\<not> in_region a (of_nat n) x"
  shows "write_le n m a v x = m x"
  using assms
proof (induction n arbitrary: m a v)
  case 0
  then show ?case by simp
next
  case (Suc n)
  have n: "unat (of_nat n :: u64) = n" "unat (of_nat (Suc n) :: u64) = Suc n"
    using Suc.prems(1) by (simp_all only: unat_of_nat64)
  have "\<not> unat (x - a) < Suc n"
    using Suc.prems(2) n by (simp add: in_region_def word_less_nat_alt del: of_nat_Suc)
  then have "x - a \<noteq> 0" and le: "Suc n \<le> unat (x - a)" by auto
  have "unat (x - (a + 1)) = unat (x - a) - 1"
    using unat_minus_one [OF \<open>x - a \<noteq> 0\<close>] by (simp add: algebra_simps)
  with le n have "\<not> in_region (a + 1) (of_nat n) x"
    by (auto simp: in_region_def word_less_nat_alt)
  with Suc show ?case using \<open>x - a \<noteq> 0\<close> by (simp add: Suc.IH)
qed

lemma write_le_at:
  assumes "i < n" and "n < 2 ^ 64"
  shows "write_le n m a v (a + of_nat i) = ucast (drop_bit (8 * i) v)"
  using assms
proof (induction n arbitrary: m a v i)
  case 0
  then show ?case by simp
next
  case (Suc n)
  show ?case
  proof (cases i)
    case 0
    have "\<not> in_region (a + 1) (of_nat n) a"
      using Suc.prems by (simp add: in_region_def word_less_nat_alt unat_of_nat64 unat_max64)
    with 0 Suc.prems show ?thesis by (simp add: write_le_outside)
  next
    case (Suc j)
    have "write_le n (m(a := ucast v)) (a + 1) (drop_bit 8 v) (a + 1 + of_nat j) =
        ucast (drop_bit (8 * j) (drop_bit 8 v))"
      using Suc Suc.prems by (intro Suc.IH) auto
    with Suc show ?thesis by (simp add: ac_simps)
  qed
qed

lemma read_le_cong:
  assumes "\<And>i. i < n \<Longrightarrow> m (a + of_nat i) = m' (a + of_nat i)"
  shows "read_le n m a = read_le n m' a"
  using assms
proof (induction n arbitrary: a)
  case (Suc n)
  have "m (a + 1 + of_nat i) = m' (a + 1 + of_nat i)" if "i < n" for i
    using Suc.prems [of "Suc i"] that by (simp add: algebra_simps)
  with Suc.IH [of "a + 1"] Suc.prems [of 0] show ?case by simp
qed simp

lemma bit_read_le:
  "bit (read_le n m a) k \<longleftrightarrow>
     k < 64 \<and> k div 8 < n \<and> bit (m (a + of_nat (k div 8))) (k mod 8)"
proof (induction n arbitrary: a k)
  case (Suc n)
  show ?case
  proof (cases "k < 8")
    case True
    then show ?thesis by (simp add: bit_simps)
  next
    case False
    then obtain j where k: "k = j + 8" by (metis add.commute le_iff_add not_less)
    then have d: "k div 8 = Suc (j div 8)" "k mod 8 = j mod 8" by simp_all
    have "\<not> bit (m a) k" using False by (auto dest: bit_imp_le_length)
    then show ?thesis
      unfolding d using k Suc.IH [of "a + 1" j] by (auto simp: bit_simps algebra_simps)
  qed
qed simp

lemma read_write_le:
  assumes "n \<le> 8"
  shows "read_le n (write_le n m a v) a = take_bit (8 * n) v"
proof (rule bit_word_eqI)
  fix k assume "k < LENGTH(64)"
  then have k: "k < 64" by simp
  have "write_le n m a v (a + of_nat (k div 8)) = ucast (drop_bit (8 * (k div 8)) v)"
    if "k div 8 < n" using that assms by (intro write_le_at) auto
  then show "bit (read_le n (write_le n m a v) a) k \<longleftrightarrow> bit (take_bit (8 * n) v) k"
    using k by (auto simp: bit_read_le bit_simps)
qed

lemma read_le_write_le_sep:
  assumes "sep a (of_nat k) b (of_nat n)" and "n < 2 ^ 64" and "k < 2 ^ 64"
  shows "read_le n (write_le k m a v) b = read_le n m b"
proof (rule read_le_cong)
  fix i assume "i < n"
  then have "in_region b (of_nat n) (b + of_nat i)"
    using assms(2) by (simp add: word_less_nat_alt unat_of_nat64)
  with assms(1) have "\<not> in_region a (of_nat k) (b + of_nat i)"
    using sepD sep_sym by blast
  then show "write_le k m a v (b + of_nat i) = m (b + of_nat i)"
    using assms(3) by (rule write_le_outside [rotated])
qed

lemma read64_write64_same [mem_simps]: "read64 (write64 m a v) a = v"
  by (simp add: read64_def write64_def read_write_le del: read_le.simps write_le.simps)
    (simp add: take_bit_word_eq_self)

lemma read64_write64_sep [mem_simps]:
  "sep a 8 b 8 \<Longrightarrow> read64 (write64 m a v) b = read64 m b"
  unfolding read64_def write64_def
  using read_le_write_le_sep [of a 8 b 8 m v] by simp

lemma write64_outside [mem_simps]: "\<not> in_region a 8 x \<Longrightarrow> write64 m a v x = m x"
  unfolding write64_def using write_le_outside [of 8 a x m v] by simp

lemma read32_write32 [mem_simps]: "read32 (write32 m a v) a = v"
proof -
  have "read32 (write32 m a v) a = ucast (take_bit 32 (ucast v :: u64))"
    using read_write_le [of 4 m a "ucast v"] by (simp add: read32_def write32_def del: read_le.simps write_le.simps)
  also have "\<dots> = v" by (rule bit_word_eqI) (simp add: bit_simps)
  finally show ?thesis .
qed

lemma read32_write32_sep [mem_simps]: "sep a 4 b 4 \<Longrightarrow> read32 (write32 m a v) b = read32 m b"
  unfolding read32_def write32_def using read_le_write_le_sep [of a 4 b 4 m "ucast v"] by simp

lemma write32_outside [mem_simps]: "\<not> in_region a 4 x \<Longrightarrow> write32 m a v x = m x"
  unfolding write32_def using write_le_outside [of 4 a x m "ucast v"] by simp

end
