(* ===== verification/Ports.thy ===== *)
theory Ports
  imports Prelude
begin

unbundle bit_operations_syntax

text \<open>
  Port input and output, \<open>kernel/src/arch/x86_64/io/io.cpp\<close>. What a device does on an
  access is not code of the kernel: it is the argument \<open>hw\<close>, one function for each
  width and direction on a state of the devices of arbitrary type. A read may change that
  state, as reading the data port of the keyboard controller does. The record \<open>cpu\<close> starts
  the state of the drivers: it holds the state of the devices, and every driver extends it.
\<close>

record 'd device =
  rd8 :: "u16 \<Rightarrow> 'd \<Rightarrow> u8 \<times> 'd"
  wr8 :: "u16 \<Rightarrow> u8 \<Rightarrow> 'd \<Rightarrow> 'd"
  rd16 :: "u16 \<Rightarrow> 'd \<Rightarrow> u16 \<times> 'd"
  wr16 :: "u16 \<Rightarrow> u16 \<Rightarrow> 'd \<Rightarrow> 'd"
  rd32 :: "u16 \<Rightarrow> 'd \<Rightarrow> u32 \<times> 'd"
  wr32 :: "u16 \<Rightarrow> u32 \<Rightarrow> 'd \<Rightarrow> 'd"

record 'd cpu =
  dev :: 'd

definition outb :: "'d device \<Rightarrow> u16 \<Rightarrow> u8 \<Rightarrow> ('d, 'a) cpu_scheme \<Rightarrow> ('d, 'a) cpu_scheme" where
  "outb hw port value c = c\<lparr>dev := wr8 hw port value (dev c)\<rparr>"

definition inb :: "'d device \<Rightarrow> u16 \<Rightarrow> ('d, 'a) cpu_scheme \<Rightarrow> u8 \<times> ('d, 'a) cpu_scheme" where
  "inb hw port c = (case rd8 hw port (dev c) of (ret, d) \<Rightarrow> (ret, c\<lparr>dev := d\<rparr>))"

definition outw :: "'d device \<Rightarrow> u16 \<Rightarrow> u16 \<Rightarrow> ('d, 'a) cpu_scheme \<Rightarrow> ('d, 'a) cpu_scheme" where
  "outw hw port value c = c\<lparr>dev := wr16 hw port value (dev c)\<rparr>"

definition inw :: "'d device \<Rightarrow> u16 \<Rightarrow> ('d, 'a) cpu_scheme \<Rightarrow> u16 \<times> ('d, 'a) cpu_scheme" where
  "inw hw port c = (case rd16 hw port (dev c) of (ret, d) \<Rightarrow> (ret, c\<lparr>dev := d\<rparr>))"

definition outl :: "'d device \<Rightarrow> u16 \<Rightarrow> u32 \<Rightarrow> ('d, 'a) cpu_scheme \<Rightarrow> ('d, 'a) cpu_scheme" where
  "outl hw port value c = c\<lparr>dev := wr32 hw port value (dev c)\<rparr>"

definition inl :: "'d device \<Rightarrow> u16 \<Rightarrow> ('d, 'a) cpu_scheme \<Rightarrow> u32 \<times> ('d, 'a) cpu_scheme" where
  "inl hw port c = (case rd32 hw port (dev c) of (ret, d) \<Rightarrow> (ret, c\<lparr>dev := d\<rparr>))"

definition io_wait :: "'d device \<Rightarrow> ('d, 'a) cpu_scheme \<Rightarrow> ('d, 'a) cpu_scheme" where
  "io_wait hw c = outb hw 0x80 0 c"

text \<open>
  A device with one latch per port and width, for the concrete inputs: a read returns what was
  written last.
\<close>

record latches =
  lat8 :: "u16 \<Rightarrow> u8"
  lat16 :: "u16 \<Rightarrow> u16"
  lat32 :: "u16 \<Rightarrow> u32"

definition latch_hw :: "latches device" where
  "latch_hw = \<lparr>rd8 = \<lambda>p d. (lat8 d p, d), wr8 = \<lambda>p v d. d\<lparr>lat8 := (lat8 d)(p := v)\<rparr>,
     rd16 = \<lambda>p d. (lat16 d p, d), wr16 = \<lambda>p v d. d\<lparr>lat16 := (lat16 d)(p := v)\<rparr>,
     rd32 = \<lambda>p d. (lat32 d p, d), wr32 = \<lambda>p v d. d\<lparr>lat32 := (lat32 d)(p := v)\<rparr>\<rparr>"

definition latch_zero :: latches where
  "latch_zero = \<lparr>lat8 = \<lambda>_. 0, lat16 = \<lambda>_. 0, lat32 = \<lambda>_. 0\<rparr>"

text \<open>The rest of a driver's state is not touched by an access.\<close>

named_theorems port_simps

lemma more_outb [port_simps]: "cpu.more (outb hw p v c) = cpu.more c"
  by (simp add: outb_def)

lemma more_inb [port_simps]: "cpu.more (snd (inb hw p c)) = cpu.more c"
  by (simp add: inb_def split: prod.splits)

lemma dev_outb [port_simps]: "dev (outb hw p v c) = wr8 hw p v (dev c)"
  by (simp add: outb_def)

lemma dev_inb [port_simps]: "dev (snd (inb hw p c)) = snd (rd8 hw p (dev c))"
  by (simp add: inb_def split: prod.splits)

lemma fst_inb [port_simps]: "fst (inb hw p c) = fst (rd8 hw p (dev c))"
  by (simp add: inb_def split: prod.splits)

lemma more_outl [port_simps]: "cpu.more (outl hw p v c) = cpu.more c"
  by (simp add: outl_def)

lemma more_inl [port_simps]: "cpu.more (snd (inl hw p c)) = cpu.more c"
  by (simp add: inl_def split: prod.splits)

end
