(* ===== verification/Mem_Ops.thy ===== *)
theory Mem_Ops
  imports Prelude "HOL-Library.List_Lexorder"
begin

text \<open>
  The freestanding memory routines of \<open>kernel/src/mem/other.cpp\<close>: \<open>memset\<close>,
  \<open>memcpy\<close>, \<open>memmove\<close> and \<open>memcmp\<close>. Each loop of the source is a
  function on the whole memory whose counter is the source's \<open>size_t\<close>; each routine
  returns the pointer (or the comparison) the source returns together with the new memory.
  The lemmas give the closed form of every loop; the overlap conditions under which a
  copy direction is right are stated on the distance \<open>d - s\<close> of the two regions.
\<close>

section \<open>The routines\<close>

function memset_loop :: "memory \<Rightarrow> u64 \<Rightarrow> u8 \<Rightarrow> u64 \<Rightarrow> u64 \<Rightarrow> memory" where
  "memset_loop m d v i count =
     (if i < count then memset_loop (m(d + i := v)) d v (i + 1) count else m)"
  by pat_completeness auto
termination
  by (relation "measure (\<lambda>(m, d, v, i, count). unat (count - i))")
    (auto simp: word_diff_measure)

definition memset :: "memory \<Rightarrow> u64 \<Rightarrow> u32 \<Rightarrow> u64 \<Rightarrow> u64 \<times> memory" where
  "memset m dest value count = (dest, memset_loop m dest (ucast value) 0 count)"

function memcpy_loop :: "memory \<Rightarrow> u64 \<Rightarrow> u64 \<Rightarrow> u64 \<Rightarrow> u64 \<Rightarrow> memory" where
  "memcpy_loop m d s i count =
     (if i < count then memcpy_loop (m(d + i := m (s + i))) d s (i + 1) count else m)"
  by pat_completeness auto
termination
  by (relation "measure (\<lambda>(m, d, s, i, count). unat (count - i))")
    (auto simp: word_diff_measure)

definition memcpy :: "memory \<Rightarrow> u64 \<Rightarrow> u64 \<Rightarrow> u64 \<Rightarrow> u64 \<times> memory" where
  "memcpy m dest src count = (dest, memcpy_loop m dest src 0 count)"

text \<open>The descending loop of \<open>memmove\<close>: \<open>i\<close> runs from \<open>count\<close> to 1.\<close>

function memmove_down :: "memory \<Rightarrow> u64 \<Rightarrow> u64 \<Rightarrow> u64 \<Rightarrow> memory" where
  "memmove_down m d s i =
     (if 0 < i then memmove_down (m(d + (i - 1) := m (s + (i - 1)))) d s (i - 1) else m)"
  by pat_completeness auto
termination
  by (relation "measure (\<lambda>(m, d, s, i). unat i)") (auto simp: unat_minus_one unat_gt_0)

definition memmove :: "memory \<Rightarrow> u64 \<Rightarrow> u64 \<Rightarrow> u64 \<Rightarrow> u64 \<times> memory" where
  "memmove m dest src count =
     (if dest = src \<or> count = 0 then (dest, m)
      else if dest < src then (dest, memcpy_loop m dest src 0 count)
      else (dest, memmove_down m dest src count))"

function memcmp_loop :: "memory \<Rightarrow> u64 \<Rightarrow> u64 \<Rightarrow> u64 \<Rightarrow> u64 \<Rightarrow> int" where
  "memcmp_loop m a b i count =
     (if i < count
      then if m (a + i) \<noteq> m (b + i) then if m (a + i) < m (b + i) then - 1 else 1
           else memcmp_loop m a b (i + 1) count
      else 0)"
  by pat_completeness auto
termination
  by (relation "measure (\<lambda>(m, a, b, i, count). unat (count - i))")
    (auto simp: word_diff_measure)

definition memcmp :: "memory \<Rightarrow> u64 \<Rightarrow> u64 \<Rightarrow> u64 \<Rightarrow> int" where
  "memcmp m ptr1 ptr2 count = memcmp_loop m ptr1 ptr2 0 count"

declare memset_loop.simps [simp del] memcpy_loop.simps [simp del]
  memmove_down.simps [simp del] memcmp_loop.simps [simp del]

section \<open>Closed forms\<close>

text \<open>What a correct fill and a correct copy leave in memory.\<close>

definition filled :: "memory \<Rightarrow> u64 \<Rightarrow> u8 \<Rightarrow> u64 \<Rightarrow> memory" where
  "filled m d v n = (\<lambda>x. if in_region d n x then v else m x)"

definition copied :: "memory \<Rightarrow> u64 \<Rightarrow> u64 \<Rightarrow> u64 \<Rightarrow> memory" where
  "copied m d s n = (\<lambda>x. if in_region d n x then m (s + (x - d)) else m x)"

lemma le_offset_step:
  fixes i n x d :: u64
  assumes "i < n"
  shows "(i \<le> x - d) = (x = d + i \<or> i + 1 \<le> x - d)"
proof -
  have "(i \<le> x - d) = (x - d = i \<or> i + 1 \<le> x - d)"
    using word_Suc_le [of i "x - d"] word_Suc_le(1) [OF assms]
    by (auto simp: word_le_nat_alt word_less_nat_alt word_unat_eq_iff)
  then show ?thesis by (auto simp: algebra_simps)
qed

lemma memset_loop_fill:
  "memset_loop m d v i n = (\<lambda>x. if i \<le> x - d \<and> x - d < n then v else m x)"
proof (induction m d v i n rule: memset_loop.induct)
  case (1 m d v i n)
  show ?case
  proof (cases "i < n")
    case False
    then show ?thesis
      by (auto simp: memset_loop.simps [of m d v i n] fun_eq_iff dest: le_less_trans)
  next
    case True
    let ?m = "m(d + i := v)"
    have "memset_loop m d v i n = memset_loop ?m d v (i + 1) n"
      using True by (simp add: memset_loop.simps [of m d v i n])
    also have "\<dots> = (\<lambda>x. if i + 1 \<le> x - d \<and> x - d < n then v else ?m x)"
      using True by (rule "1.IH")
    also have "\<dots> = (\<lambda>x. if i \<le> x - d \<and> x - d < n then v else m x)"
      using True by (auto simp: le_offset_step [OF True] fun_eq_iff)
    finally show ?thesis .
  qed
qed

lemma memset_fill: "memset m d v n = (d, filled m d (ucast v) n)"
  by (simp add: memset_def memset_loop_fill filled_def in_region_def fun_eq_iff)

text \<open>
  The ascending copy. Byte \<open>j\<close> of the source is still unread after \<open>i \<le> j\<close>
  steps, provided the destination does not start inside the source.
\<close>

lemma ascending_unread:
  fixes d s i j n :: u64
  assumes "n \<le> d - s" and "i \<le> j" and "j < n"
  shows "\<not> s + j - d < i"
proof -
  have e: "s + j - d = j - (d - s)" by simp
  have "unat j < unat (d - s)" and "unat i \<le> unat j"
    using assms by (auto simp: word_le_nat_alt word_less_nat_alt)
  then have "unat i \<le> unat (j - (d - s))"
    unfolding unat_sub_if' [of j "d - s"] using unat_lt64 [of "d - s"] by auto
  then show ?thesis unfolding e by (simp add: word_less_nat_alt)
qed

lemma memcpy_loop_copy:
  assumes "n \<le> d - s" and "i \<le> n"
  shows "memcpy_loop m d s i n =
     (\<lambda>x. if i \<le> x - d \<and> x - d < n then m (s + (x - d)) else m x)"
  using assms
proof (induction m d s i n rule: memcpy_loop.induct)
  case (1 m d s i n)
  show ?case
  proof (cases "i < n")
    case False
    then show ?thesis
      by (auto simp: memcpy_loop.simps [of m d s i n] fun_eq_iff dest: le_less_trans)
  next
    case True
    let ?m = "m(d + i := m (s + i))"
    have kept: "?m (s + j) = m (s + j)" if "i + 1 \<le> j" "j < n" for j
    proof -
      have "\<not> s + j - d < i + 1"
        using ascending_unread [OF "1.prems"(1) that] by simp
      moreover have "i < i + 1"
        using word_Suc_le(1) [OF True] by (simp add: word_less_nat_alt)
      ultimately have "s + j \<noteq> d + i" by auto
      then show ?thesis by simp
    qed
    have lt: "\<not> i + 1 \<le> i"
      using word_Suc_le(1) [OF True] by (simp add: word_le_nat_alt)
    have "memcpy_loop m d s i n = memcpy_loop ?m d s (i + 1) n"
      using True by (simp add: memcpy_loop.simps [of m d s i n])
    also have "\<dots> =
        (\<lambda>x. if i + 1 \<le> x - d \<and> x - d < n then ?m (s + (x - d)) else ?m x)"
      using True "1.prems" by (intro "1.IH") (auto simp: word_Suc_le)
    also have "\<dots> = (\<lambda>x. if i \<le> x - d \<and> x - d < n then m (s + (x - d)) else m x)"
    proof
      fix x
      show "(if i + 1 \<le> x - d \<and> x - d < n then ?m (s + (x - d)) else ?m x) =
          (if i \<le> x - d \<and> x - d < n then m (s + (x - d)) else m x)"
        using kept [of "x - d"] lt True
        by (cases "x = d + i") (simp_all add: le_offset_step [OF True])
    qed
    finally show ?thesis .
  qed
qed

lemma memcpy_copy: "n \<le> d - s \<Longrightarrow> memcpy m d s n = (d, copied m d s n)"
  by (simp add: memcpy_def memcpy_loop_copy copied_def in_region_def fun_eq_iff)

text \<open>The descending copy, by the mirrored argument.\<close>

lemma descending_unread:
  fixes d s i j :: u64
  assumes "0 < i" and "i \<le> s - d" and "j < i"
  shows "s + j \<noteq> d + (i - 1)"
proof
  assume e: "s + j = d + (i - 1)"
  then have "s - d = i - 1 - j" by (simp add: algebra_simps)
  moreover have u: "unat (i - 1) = unat i - 1" using assms by (simp add: unat_minus_one)
  ultimately have "unat (s - d) = unat i - 1 - unat j"
    using assms(3) by (simp add: unat_sub_if' u word_less_nat_alt)
  then show False using assms by (simp add: word_le_nat_alt word_less_nat_alt)
qed

lemma memmove_down_copy:
  assumes "i \<le> s - d"
  shows "memmove_down m d s i = copied m d s i"
  using assms
proof (induction m d s i rule: memmove_down.induct)
  case (1 m d s i)
  show ?case
  proof (cases "0 < i")
    case False
    then have "i = 0" by (simp add: word_neq_0_conv [symmetric])
    then show ?thesis by (simp add: memmove_down.simps [of m d s 0] copied_def)
  next
    case True
    let ?m = "m(d + (i - 1) := m (s + (i - 1)))"
    have u: "unat (i - 1) = unat i - 1" "0 < unat i"
      using True by (simp_all add: unat_minus_one unat_gt_0)
    have "x < i \<longleftrightarrow> x = i - 1 \<or> x < i - 1" for x
      using u by (auto simp: word_less_nat_alt word_unat_eq_iff)
    moreover have "x - d = i - 1 \<longleftrightarrow> x = d + (i - 1)" for x by (auto simp: algebra_simps)
    ultimately have lt: "x - d < i \<longleftrightarrow> x = d + (i - 1) \<or> x - d < i - 1" for x by simp
    have "memmove_down m d s i = memmove_down ?m d s (i - 1)"
      using True by (simp add: memmove_down.simps [of m d s i])
    also have "\<dots> = copied ?m d s (i - 1)"
    proof (rule "1.IH" [OF True])
      show "i - 1 \<le> s - d" using "1.prems" u by (simp add: word_le_nat_alt)
    qed
    also have "\<dots> = copied m d s i"
    proof
      fix x
      show "copied ?m d s (i - 1) x = copied m d s i x"
        using descending_unread [OF True "1.prems", of "x - d"] lt [of x]
        by (cases "x = d + (i - 1)") (auto simp: copied_def in_region_def)
    qed
    finally show ?thesis .
  qed
qed

lemma memmove_copy:
  assumes "unat d + unat n \<le> 2 ^ 64" and "unat s + unat n \<le> 2 ^ 64"
  shows "memmove m d s n = (d, copied m d s n)"
proof -
  consider "d = s \<or> n = 0" | "d < s" "n \<noteq> 0" | "s < d" "n \<noteq> 0"
    by (metis linorder_less_linear)
  then show ?thesis
  proof cases
    case 1
    then show ?thesis by (auto simp: memmove_def copied_def fun_eq_iff)
  next
    case 2
    then have "n \<le> d - s"
      using assms by (simp add: word_le_nat_alt word_less_nat_alt unat_sub_if')
    with 2 show ?thesis using memcpy_copy [of n d s m] by (auto simp: memmove_def memcpy_def)
  next
    case 3
    then have "n \<le> s - d"
      using assms by (simp add: word_le_nat_alt word_less_nat_alt unat_sub_if')
    with 3 show ?thesis by (auto simp: memmove_def memmove_down_copy)
  qed
qed

text \<open>Comparison finds the first differing byte.\<close>

lemma memcmp_loop_zero:
  "memcmp_loop m a b i n = 0 \<longleftrightarrow> (\<forall>j. i \<le> j \<and> j < n \<longrightarrow> m (a + j) = m (b + j))"
proof (induction m a b i n rule: memcmp_loop.induct)
  case (1 m a b i n)
  show ?case
  proof (cases "i < n")
    case True
    have "i \<le> j \<longleftrightarrow> j = i \<or> i + 1 \<le> j" for j
      using le_offset_step [OF True, of j 0] by simp
    with True "1.IH" show ?thesis by (auto simp: memcmp_loop.simps [of m a b i n])
  qed (auto simp: memcmp_loop.simps [of m a b i n])
qed

lemma memcmp_loop_first_diff:
  assumes "i \<le> k" and "k < n" and "\<And>j. i \<le> j \<Longrightarrow> j < k \<Longrightarrow> m (a + j) = m (b + j)"
    and "m (a + k) \<noteq> m (b + k)"
  shows "memcmp_loop m a b i n = (if m (a + k) < m (b + k) then - 1 else 1)"
  using assms
proof (induction m a b i n rule: memcmp_loop.induct)
  case (1 m a b i n)
  then have "i < n" by simp
  show ?case
  proof (cases "i = k")
    case True
    with 1 show ?thesis by (simp add: memcmp_loop.simps [of m a b k n])
  next
    case False
    with 1 have "i < k" by simp
    then have "i + 1 \<le> k" "i \<le> i + 1"
      using word_Suc_le [of i k] by (auto simp: word_le_nat_alt)
    moreover have "m (a + i) = m (b + i)" using "1.prems"(3) \<open>i < k\<close> by simp
    ultimately have "memcmp_loop m a b (i + 1) n = (if m (a + k) < m (b + k) then - 1 else 1)"
      using "1.prems" \<open>i < n\<close> by (intro "1.IH") auto
    with \<open>i < n\<close> \<open>m (a + i) = m (b + i)\<close> show ?thesis
      by (simp add: memcmp_loop.simps [of m a b i n])
  qed
qed

section \<open>Properties\<close>

text \<open>
  C28. \<open>memmove\<close> copies correctly whatever the overlap of its two ranges: afterwards
  the destination holds the bytes the source held before the call, and no other byte changed.
\<close>

theorem memmove_correct:
  assumes "unat d + unat n \<le> 2 ^ 64" and "unat s + unat n \<le> 2 ^ 64"
  shows "memmove m d s n = (d, \<lambda>x. if x - d < n then m (s + (x - d)) else m x)"
  using memmove_copy [OF assms] by (simp add: copied_def in_region_def)

theorem memmove_correct_witness:
  "snd (memmove (\<lambda>x. ucast x) 12 10 4) 13 = 11 \<and> snd (memmove (\<lambda>x. ucast x) 12 10 4) 16 = 16"
  using memmove_correct [of 12 4 10] by simp

text \<open>The bytes of a range, and \<open>memcmp\<close> as the comparison of two such lists.\<close>

definition mem_bytes :: "memory \<Rightarrow> u64 \<Rightarrow> nat \<Rightarrow> u8 list" where
  "mem_bytes m a n = map (\<lambda>i. m (a + of_nat i)) [0..<n]"

lemma mem_bytes_length [simp]: "length (mem_bytes m a n) = n"
  by (simp add: mem_bytes_def)

lemma mem_bytes_nth [simp]: "i < n \<Longrightarrow> mem_bytes m a n ! i = m (a + of_nat i)"
  by (simp add: mem_bytes_def)

lemma mem_bytes_take: "i \<le> n \<Longrightarrow> take i (mem_bytes m a n) = mem_bytes m a i"
  by (simp add: mem_bytes_def take_map)

lemma mem_bytes_eq_iff:
  "mem_bytes m a (unat n) = mem_bytes m b (unat n) \<longleftrightarrow> (\<forall>j<n. m (a + j) = m (b + j))"
proof -
  have "(\<forall>i<unat n. m (a + of_nat i) = m (b + of_nat i)) \<longleftrightarrow> (\<forall>j<n. m (a + j) = m (b + j))"
  proof (intro iffI allI impI)
    fix j assume "\<forall>i<unat n. m (a + of_nat i) = m (b + of_nat i)" "j < n"
    then show "m (a + j) = m (b + j)" by (metis word_less_nat_alt of_nat_unat64)
  next
    fix i assume h: "\<forall>j<n. m (a + j) = m (b + j)" "i < unat n"
    then have "unat (of_nat i :: u64) = i" using unat_lt64 [of n] by (intro unat_of_nat64) simp
    with h show "m (a + of_nat i) = m (b + of_nat i)" by (simp add: word_less_nat_alt)
  qed
  then show ?thesis by (simp add: list_eq_iff_nth_eq)
qed

lemma first_difference:
  assumes "xs \<noteq> ys" and "length xs = length ys"
  obtains k where "k < length xs" "take k xs = take k ys" "xs ! k \<noteq> ys ! k"
proof -
  obtain pre x xs' y ys' where "x \<noteq> y" "xs = pre @ [x] @ xs'" "ys = pre @ [y] @ ys'"
    using same_length_different [OF assms] by blast
  then show thesis using that [of "length pre"] by simp
qed

text \<open>
  \<open>memcmp\<close> is the lexicographic comparison of the two ranges as lists of
  unsigned bytes: zero exactly when they are equal, else the sign of the first difference.
\<close>

lemma memcmp_lexicographic:
  "memcmp m a b n =
     (if mem_bytes m a (unat n) = mem_bytes m b (unat n) then 0
      else if mem_bytes m a (unat n) < mem_bytes m b (unat n) then - 1 else 1)"
proof (cases "mem_bytes m a (unat n) = mem_bytes m b (unat n)")
  case True
  then show ?thesis by (simp add: memcmp_def memcmp_loop_zero mem_bytes_eq_iff)
next
  case False
  let ?A = "mem_bytes m a (unat n)" and ?B = "mem_bytes m b (unat n)"
  obtain k where k: "k < unat n" "take k ?A = take k ?B" "?A ! k \<noteq> ?B ! k"
    using first_difference [OF False] by auto
  have u: "unat (of_nat k :: u64) = k" using k(1) unat_lt64 [of n] by (intro unat_of_nat64) simp
  have "mem_bytes m a (unat (of_nat k :: u64)) = mem_bytes m b (unat (of_nat k :: u64))"
    using k by (simp add: u mem_bytes_take)
  then have "memcmp m a b n = (if ?A ! k < ?B ! k then - 1 else 1)"
    using k u unfolding memcmp_def mem_bytes_eq_iff
    by (subst memcmp_loop_first_diff [of 0 "of_nat k"]) (auto simp: word_less_nat_alt)
  moreover have "?A < ?B \<longleftrightarrow> ?A ! k < ?B ! k"
  proof -
    have "?A < ?B" if "?A ! k < ?B ! k"
      using that k by (auto simp: list_less_def lexord_take_index_conv)
    moreover have "?B < ?A" if "?B ! k < ?A ! k"
      using that k by (auto simp: list_less_def lexord_take_index_conv)
    ultimately show ?thesis using k(3) by (metis linorder_less_linear order_less_asym)
  qed
  ultimately show ?thesis using False by simp
qed

end
