(* ===== verification/Direct_Map.thy ===== *)
theory Direct_Map
  imports Prelude
begin

text \<open>
  The two address conversions of \<open>kernel/src/mem/vmm.cpp\<close>. Limine maps physical
  memory at \<open>0xFFFF800000000000\<close>; \<open>pa_to_va\<close> and \<open>va_to_pa\<close> add and
  subtract that offset unless the argument already is on the other side of it. They are
  in a theory of their own because the physical allocator calls \<open>pa_to_va\<close> and the
  virtual memory manager calls the physical allocator.
\<close>

definition HHDM :: u64 where "HHDM = 0xFFFF800000000000"

definition pa_to_va :: "u64 \<Rightarrow> u64" where
  "pa_to_va pa = (if 0xFFFF800000000000 \<le> pa then pa else pa + 0xFFFF800000000000)"

definition va_to_pa :: "u64 \<Rightarrow> u64" where
  "va_to_pa va = (if va < 0xFFFF800000000000 then va else va - 0xFFFF800000000000)"

lemma unat_HHDM: "unat HHDM = 0xFFFF800000000000"
  by (simp add: HHDM_def)

text \<open>A physical address below 128 TiB is one the direct map can reach without wrapping.\<close>

lemma pa_to_va_low:
  assumes "unat pa < 0x800000000000"
  shows "pa_to_va pa = pa + HHDM" and "unat (pa_to_va pa) = unat pa + 0xFFFF800000000000"
proof -
  have "\<not> 0xFFFF800000000000 \<le> pa"
    using assms by (simp add: word_le_nat_alt)
  then show e: "pa_to_va pa = pa + HHDM" by (simp add: pa_to_va_def HHDM_def)
  show "unat (pa_to_va pa) = unat pa + 0xFFFF800000000000"
    unfolding e using assms by (subst unat_add_nowrap) (simp_all add: unat_HHDM)
qed

lemma va_to_pa_to_va:
  assumes "unat pa < 0x800000000000"
  shows "va_to_pa (pa_to_va pa) = pa"
proof -
  have "\<not> pa_to_va pa < 0xFFFF800000000000"
    using pa_to_va_low(2) [OF assms] by (simp add: word_less_nat_alt)
  then show ?thesis
    by (simp add: va_to_pa_def pa_to_va_low(1) [OF assms] HHDM_def)
qed

lemma pa_to_va_to_pa:
  assumes "HHDM \<le> va"
  shows "pa_to_va (va_to_pa va) = va"
proof -
  have v: "unat (va - HHDM) = unat va - 0xFFFF800000000000"
    using assms by (simp add: unat_sub unat_HHDM)
  then have "unat (va - HHDM) < 0x800000000000"
    using unat_lt64 [of va] by simp
  moreover have "\<not> va < 0xFFFF800000000000"
    using assms by (simp add: HHDM_def not_less)
  ultimately show ?thesis
    by (simp add: va_to_pa_def pa_to_va_low HHDM_def)
qed

lemma pa_to_va_ge: "unat pa < 0x800000000000 \<Longrightarrow> HHDM \<le> pa_to_va pa"
  using pa_to_va_low(2) [of pa] by (simp add: word_le_nat_alt unat_HHDM)

end
