(* ===== verification/Pmm.thy ===== *)
theory Pmm
  imports Mem_Ops Direct_Map
begin

text \<open>
  The physical memory manager of \<open>kernel/src/mem/pmm.cpp\<close>: up to eight segments taken
  from the boot loader's memory map, one bitmap over all their pages (bit \<open>i\<close> set:
  page \<open>i\<close> in use), first-fit allocation of runs of pages, and the statistics.
  The globals of the file are the fields of the record \<open>pmm\<close>; the record is
  extensible, so that the virtual memory manager and the heap add theirs to it.
\<close>

section \<open>State\<close>

definition PAGE_SIZE :: u64 where "PAGE_SIZE = 4096"
definition MAX_SEGMENTS :: nat where "MAX_SEGMENTS = 8"
definition MIN_ALLOC_ADDR :: u64 where "MIN_ALLOC_ADDR = 0x100000"

record segment =
  seg_base :: u64
  seg_length :: u64
  seg_is_bitmap :: bool
  seg_remaining :: u64

record memmap_entry =
  e_base :: u64
  e_length :: u64
  e_type :: u64

record pmm =
  mem :: memory
  segments :: "segment list"
  bitmap :: u64
  bitmap_size :: u64
  total_pages :: u64
  total_addrspace :: u64
  total_mem :: u64
  used_mem :: u64
  free_mem :: u64
  allocation_count :: u64
  failed_allocation_count :: u64
  free_count :: u64
  failed_free_count :: u64

section \<open>Operations\<close>

definition bitmap_set :: "u64 \<Rightarrow> 'a pmm_scheme \<Rightarrow> 'a pmm_scheme" where
  "bitmap_set index s =
     (let a = bitmap s + index div 8
      in s\<lparr>mem := (mem s)(a := mem s a OR push_bit (unat (index mod 8)) 1)\<rparr>)"

definition bitmap_clear :: "u64 \<Rightarrow> 'a pmm_scheme \<Rightarrow> 'a pmm_scheme" where
  "bitmap_clear index s =
     (let a = bitmap s + index div 8
      in s\<lparr>mem := (mem s)(a := mem s a AND NOT (push_bit (unat (index mod 8)) 1))\<rparr>)"

definition bitmap_test :: "'a pmm_scheme \<Rightarrow> u64 \<Rightarrow> bool" where
  "bitmap_test s index \<longleftrightarrow>
     mem s (bitmap s + index div 8) AND push_bit (unat (index mod 8)) 1 \<noteq> 0"

text \<open>The three loops of \<open>membulkset\<close>: bytes up to an 8-byte boundary, whole words, the rest.\<close>

function bulk_head :: "memory \<Rightarrow> u64 \<Rightarrow> u64 \<Rightarrow> u64 \<Rightarrow> memory \<times> u64 \<times> u64" where
  "bulk_head m p value bytes =
     (if p AND 7 \<noteq> 0 \<and> bytes \<noteq> 0
      then bulk_head (m(p := ucast value)) (p + 1) value (bytes - 1)
      else (m, p, bytes))"
  by pat_completeness auto
termination
  by (relation "measure (\<lambda>(m, p, value, bytes). unat bytes)")
    (auto simp: unat_minus_one unat_gt_0)

function bulk_words :: "memory \<Rightarrow> u64 \<Rightarrow> u64 \<Rightarrow> u64 \<Rightarrow> memory \<times> u64 \<times> u64" where
  "bulk_words m p value bytes =
     (if 8 \<le> bytes then bulk_words (write64 m p value) (p + 8) value (bytes - 8)
      else (m, p, bytes))"
  by pat_completeness auto
termination
  by (relation "measure (\<lambda>(m, p, value, bytes). unat bytes)")
    (auto simp: unat_sub word_le_nat_alt)

function bulk_tail :: "memory \<Rightarrow> u64 \<Rightarrow> u64 \<Rightarrow> u64 \<Rightarrow> memory" where
  "bulk_tail m p value bytes =
     (if bytes \<noteq> 0 then bulk_tail (m(p := ucast value)) (p + 1) value (bytes - 1) else m)"
  by pat_completeness auto
termination
  by (relation "measure (\<lambda>(m, p, value, bytes). unat bytes)")
    (auto simp: unat_minus_one unat_gt_0)

declare bulk_head.simps [simp del] bulk_words.simps [simp del] bulk_tail.simps [simp del]

definition membulkset :: "memory \<Rightarrow> u64 \<Rightarrow> u64 \<Rightarrow> u64 \<Rightarrow> memory" where
  "membulkset m ptr value bytes =
     (case bulk_head m ptr value bytes of (m1, p1, b1) \<Rightarrow>
      case bulk_words m1 p1 value b1 of (m2, p2, b2) \<Rightarrow>
        bulk_tail m2 p2 value b2)"

text \<open>The search of \<open>prepare_bitmap\<close> for the smallest segment that is large enough.\<close>

definition better_segment :: "segment list \<Rightarrow> u64 \<Rightarrow> nat \<Rightarrow> nat option \<Rightarrow> nat option" where
  "better_segment segs bsize i best =
     (if \<not> seg_is_bitmap (segs ! i) \<and> bsize \<le> seg_length (segs ! i)
      then case best of
             None \<Rightarrow> Some i
           | Some b \<Rightarrow> if seg_length (segs ! i) < seg_length (segs ! b) then Some i else best
      else best)"

definition prepare_bitmap :: "u64 \<Rightarrow> 'a pmm_scheme \<Rightarrow> 'a pmm_scheme" where
  "prepare_bitmap bytes s =
     (let s1 = s\<lparr>bitmap_size := bytes div 8\<rparr>
      in case fold (better_segment (segments s1) (bitmap_size s1)) [0..<MAX_SEGMENTS] None of
           None \<Rightarrow> s1
         | Some b \<Rightarrow>
             let seg = segments s1 ! b;
                 s2 = s1\<lparr>segments := (segments s1)[b := seg\<lparr>seg_is_bitmap := True\<rparr>],
                         bitmap := seg_base seg\<rparr>
             in s2\<lparr>mem := membulkset (mem s2) (bitmap s2) 0 (bitmap_size s2)\<rparr>)"

definition stat_free :: "'a pmm_scheme \<Rightarrow> u64" where "stat_free s = free_mem s"
definition stat_used :: "'a pmm_scheme \<Rightarrow> u64" where "stat_used s = used_mem s"
definition stat_total_mem :: "'a pmm_scheme \<Rightarrow> u64" where "stat_total_mem s = total_mem s"

definition stat_get_status :: "'a pmm_scheme \<Rightarrow> u8 \<Rightarrow> u64" where
  "stat_get_status s type =
     (if type = 0 then total_mem s
      else if type = 1 then used_mem s
      else if type = 2 then free_mem s
      else if type = 3 then allocation_count s
      else if type = 4 then failed_allocation_count s
      else if type = 5 then free_count s
      else if type = 6 then failed_free_count s
      else 0xBADBADBADBADBAD0)"

text \<open>
  One iteration of the memory-map loop of \<open>initialise\<close>. The type code of a usable
  entry, \<open>LIMINE_MEMMAP_USABLE\<close>, is declared in the boot protocol's header, which is
  not part of the repository: it is the parameter \<open>usable\<close>.
\<close>

definition clip_base :: "memmap_entry \<Rightarrow> u64" where
  "clip_base e = (if e_base e < MIN_ALLOC_ADDR then MIN_ALLOC_ADDR else e_base e)"

definition clip_length :: "memmap_entry \<Rightarrow> u64" where
  "clip_length e =
     (if e_base e < MIN_ALLOC_ADDR
      then if MIN_ALLOC_ADDR - e_base e < e_length e
           then e_length e - (MIN_ALLOC_ADDR - e_base e) else 0
      else e_length e)"

definition add_entry :: "u64 \<Rightarrow> memmap_entry \<Rightarrow> nat \<times> 'a pmm_scheme \<Rightarrow> nat \<times> 'a pmm_scheme" where
  "add_entry usable e = (\<lambda>(created, s).
     let s1 = s\<lparr>total_addrspace := total_addrspace s + e_length e\<rparr>
     in if e_type e \<noteq> usable \<or> MAX_SEGMENTS \<le> created then (created, s1)
        else if clip_length e = 0 then (created, s1)
        else (Suc created,
              s1\<lparr>segments := (segments s1)[created :=
                   \<lparr>seg_base = clip_base e, seg_length = clip_length e,
                     seg_is_bitmap = False, seg_remaining = clip_length e\<rparr>],
                 total_mem := total_mem s1 + clip_length e\<rparr>))"

definition pmm_initialise :: "u64 \<Rightarrow> memmap_entry list option \<Rightarrow> 'a pmm_scheme \<Rightarrow> 'a pmm_scheme" where
  "pmm_initialise usable response s =
     (case response of
        None \<Rightarrow> s
      | Some entries \<Rightarrow>
          if length entries < 1 then s
          else
            let s0 = s\<lparr>total_mem := 0, used_mem := 0, free_mem := 0,
                       allocation_count := 0, failed_allocation_count := 0,
                       free_count := 0, failed_free_count := 0, total_addrspace := 0\<rparr>;
                s1 = snd (fold (add_entry usable) entries (0, s0));
                s2 = prepare_bitmap (total_mem s1) s1
            in s2\<lparr>total_pages := total_mem s2 div PAGE_SIZE, free_mem := total_mem s2\<rparr>)"

text \<open>The page loop of \<open>palloc\<close> and \<open>reserve_heap\<close>: the start of the first free run.\<close>

function scan_run :: "'a pmm_scheme \<Rightarrow> u64 \<Rightarrow> u64 \<Rightarrow> u64 \<Rightarrow> u64 \<Rightarrow> u64 \<Rightarrow> u64 \<Rightarrow> u64 option" where
  "scan_run s page_offset needed j seg_pages found start =
     (if j < seg_pages
      then if \<not> bitmap_test s (page_offset + j)
           then let start' = (if found = 0 then j else start); found' = found + 1
                in if found' = needed then Some start'
                   else scan_run s page_offset needed (j + 1) seg_pages found' start'
           else scan_run s page_offset needed (j + 1) seg_pages 0 start
      else None)"
  by pat_completeness auto
termination
  by (relation "measure (\<lambda>(s, po, n, j, sp, f, st). unat (sp - j))")
    (auto simp: word_diff_measure)

function set_run :: "u64 \<Rightarrow> u64 \<Rightarrow> u64 \<Rightarrow> 'a pmm_scheme \<Rightarrow> 'a pmm_scheme" where
  "set_run start_global k needed s =
     (if k < needed then set_run start_global (k + 1) needed (bitmap_set (start_global + k) s)
      else s)"
  by pat_completeness auto
termination
  by (relation "measure (\<lambda>(g, k, n, s). unat (n - k))") (auto simp: word_diff_measure)

declare scan_run.simps [simp del] set_run.simps [simp del]

text \<open>What both allocators do once the run is found.\<close>

definition commit_run :: "nat \<Rightarrow> u64 \<Rightarrow> u64 \<Rightarrow> 'a pmm_scheme \<Rightarrow> 'a pmm_scheme" where
  "commit_run segid start_global needed s =
     (let s1 = set_run start_global 0 needed s; seg = segments s1 ! segid
      in s1\<lparr>used_mem := used_mem s1 + needed * PAGE_SIZE,
            free_mem := free_mem s1 - needed * PAGE_SIZE,
            segments := (segments s1)[segid :=
              seg\<lparr>seg_remaining := seg_remaining seg - needed * PAGE_SIZE\<rparr>],
            allocation_count := allocation_count s1 + 1\<rparr>)"

function palloc_from :: "u64 \<Rightarrow> nat \<Rightarrow> u64 \<Rightarrow> 'a pmm_scheme \<Rightarrow> u64 \<times> 'a pmm_scheme" where
  "palloc_from needed segid page_offset s =
     (if segid < MAX_SEGMENTS
      then let seg = segments s ! segid
           in if seg_length seg = 0 \<or> seg_is_bitmap seg
              then palloc_from needed (Suc segid) page_offset s
              else if seg_base seg + seg_length seg \<le> MIN_ALLOC_ADDR
              then palloc_from needed (Suc segid) (page_offset + seg_length seg div PAGE_SIZE) s
              else
                let seg_start_offset =
                      (if seg_base seg < MIN_ALLOC_ADDR
                       then (MIN_ALLOC_ADDR - seg_base seg) div PAGE_SIZE else 0);
                    seg_pages = seg_length seg div PAGE_SIZE
                in case scan_run s page_offset needed seg_start_offset seg_pages 0 0 of
                     Some start \<Rightarrow>
                       (seg_base seg + start * PAGE_SIZE,
                        commit_run segid (page_offset + start) needed s)
                   | None \<Rightarrow> palloc_from needed (Suc segid) (page_offset + seg_pages) s
      else (0, s\<lparr>failed_allocation_count := failed_allocation_count s + 1\<rparr>))"
  by pat_completeness auto
termination
  by (relation "measure (\<lambda>(n, segid, po, s). MAX_SEGMENTS - segid)") auto

definition palloc :: "u64 \<Rightarrow> 'a pmm_scheme \<Rightarrow> u64 \<times> 'a pmm_scheme" where
  "palloc npages s = (if bitmap s = 0 \<or> npages = 0 then (0, s) else palloc_from npages 0 0 s)"

function reserve_from :: "u64 \<Rightarrow> nat \<Rightarrow> u64 \<Rightarrow> 'a pmm_scheme \<Rightarrow> u64 \<times> 'a pmm_scheme" where
  "reserve_from needed segid page_offset s =
     (if segid < MAX_SEGMENTS
      then let seg = segments s ! segid
           in if seg_length seg = 0 \<or> seg_is_bitmap seg
              then reserve_from needed (Suc segid) page_offset s
              else
                let seg_pages = seg_length seg div PAGE_SIZE
                in case scan_run s page_offset needed 0 seg_pages 0 0 of
                     Some start \<Rightarrow>
                       (seg_base seg + start * PAGE_SIZE,
                        commit_run segid (page_offset + start) needed s)
                   | None \<Rightarrow> reserve_from needed (Suc segid) (page_offset + seg_pages) s
      else (0, s\<lparr>failed_allocation_count := failed_allocation_count s + 1\<rparr>))"
  by pat_completeness auto
termination
  by (relation "measure (\<lambda>(n, segid, po, s). MAX_SEGMENTS - segid)") auto

definition reserve_heap :: "u64 \<Rightarrow> 'a pmm_scheme \<Rightarrow> u64 \<times> 'a pmm_scheme" where
  "reserve_heap npages s =
     (if bitmap s = 0 \<or> npages = 0 then (0, s) else reserve_from npages 0 0 s)"

declare palloc_from.simps [simp del] reserve_from.simps [simp del]

text \<open>\<open>free\<close>: the segment of the address, then the run's bits are cleared one by one.\<close>

function find_segment :: "'a pmm_scheme \<Rightarrow> u64 \<Rightarrow> nat \<Rightarrow> u64 \<Rightarrow> (nat \<times> u64) option" where
  "find_segment s addr i page_offset =
     (if i < MAX_SEGMENTS
      then let seg = segments s ! i
           in if seg_length seg = 0 \<or> seg_is_bitmap seg
              then find_segment s addr (Suc i) page_offset
              else if seg_base seg \<le> addr \<and> addr < seg_base seg + seg_length seg
              then Some (i, page_offset)
              else find_segment s addr (Suc i) (page_offset + seg_length seg div PAGE_SIZE)
      else None)"
  by pat_completeness auto
termination
  by (relation "measure (\<lambda>(s, a, i, po). MAX_SEGMENTS - i)") auto

function clear_run :: "u64 \<Rightarrow> u64 \<Rightarrow> u64 \<Rightarrow> u64 \<Rightarrow> 'a pmm_scheme \<Rightarrow> u64 \<times> 'a pmm_scheme" where
  "clear_run global_index i npages actually_freed s =
     (if i < npages
      then if bitmap_test s (global_index + i)
           then clear_run global_index (i + 1) npages (actually_freed + PAGE_SIZE)
                  (bitmap_clear (global_index + i) s)
           else clear_run global_index (i + 1) npages actually_freed
                  (s\<lparr>failed_free_count := failed_free_count s + 1\<rparr>)
      else (actually_freed, s))"
  by pat_completeness auto
termination
  by (relation "measure (\<lambda>(g, i, n, f, s). unat (n - i))") (auto simp: word_diff_measure)

declare find_segment.simps [simp del] clear_run.simps [simp del]

definition pmm_free :: "u64 \<Rightarrow> u64 \<Rightarrow> 'a pmm_scheme \<Rightarrow> 'a pmm_scheme" where
  "pmm_free ptr npages s =
     (if bitmap s = 0 \<or> ptr = 0 \<or> npages = 0 then s
      else
        let addr = pa_to_va ptr
        in if addr < MIN_ALLOC_ADDR
           then s\<lparr>failed_free_count := failed_free_count s + 1\<rparr>
           else
             case find_segment s addr 0 0 of
               None \<Rightarrow> s\<lparr>failed_free_count := failed_free_count s + 1\<rparr>
             | Some (segid, page_offset) \<Rightarrow>
                 let seg_page_index = (addr - seg_base (segments s ! segid)) div PAGE_SIZE
                 in case clear_run (page_offset + seg_page_index) 0 npages 0 s of
                      (actually_freed, s1) \<Rightarrow>
                        let seg = segments s1 ! segid
                        in s1\<lparr>used_mem := (if actually_freed \<le> used_mem s1
                                            then used_mem s1 - actually_freed else 0),
                              free_mem := free_mem s1 + actually_freed,
                              segments := (segments s1)[segid :=
                                seg\<lparr>seg_remaining := seg_remaining seg + actually_freed\<rparr>],
                              free_count := free_count s1 + 1\<rparr>)"

section \<open>The bitmap as a set of page indices\<close>

lemma bitmap_test_bit:
  "bitmap_test s i \<longleftrightarrow> bit (mem s (bitmap s + i div 8)) (unat (i mod 8))"
  by (simp add: bitmap_test_def push_bit_of_1 and_exp_eq_0_iff_not_bit)

lemma byte_index_eq:
  fixes i j :: u64
  assumes "i div 8 = j div 8" and "unat (i mod 8) = unat (j mod 8)"
  shows "i = j"
proof -
  have "i mod 8 = j mod 8" using assms(2) by (simp only: word_unat_eq_iff)
  then show ?thesis using assms(1) by (metis div_mult_mod_eq)
qed

lemma bit_index_lt8: "unat (i mod 8 :: u64) < 8"
  by (simp add: unat_mod)

lemma bitmap_test_set [simp]:
  "bitmap_test (bitmap_set i s) j \<longleftrightarrow> j = i \<or> bitmap_test s j"
proof (cases "i div 8 = j div 8")
  case True
  then have "unat (j mod 8) = unat (i mod 8) \<longleftrightarrow> j = i"
    using byte_index_eq [of j i] by metis
  with True show ?thesis
    using bit_index_lt8 [of j]
    by (simp add: bitmap_test_bit bitmap_set_def Let_def bit_simps) blast
next
  case False
  then have "i \<noteq> j" by auto
  with False show ?thesis by (auto simp: bitmap_test_bit bitmap_set_def Let_def)
qed

lemma bitmap_test_clear [simp]:
  "bitmap_test (bitmap_clear i s) j \<longleftrightarrow> j \<noteq> i \<and> bitmap_test s j"
proof (cases "i div 8 = j div 8")
  case True
  then have "unat (j mod 8) = unat (i mod 8) \<longleftrightarrow> j = i"
    using byte_index_eq [of j i] by metis
  with True show ?thesis
    using bit_index_lt8 [of j]
    by (simp add: bitmap_test_bit bitmap_clear_def Let_def bit_simps) blast
next
  case False
  then have "i \<noteq> j" by auto
  with False show ?thesis by (auto simp: bitmap_test_bit bitmap_clear_def Let_def)
qed

lemma bitmap_set_fields [simp]:
  "bitmap (bitmap_set i s) = bitmap s" "segments (bitmap_set i s) = segments s"
  "bitmap_size (bitmap_set i s) = bitmap_size s" "used_mem (bitmap_set i s) = used_mem s"
  "free_mem (bitmap_set i s) = free_mem s"
  "allocation_count (bitmap_set i s) = allocation_count s"
  "total_mem (bitmap_set i s) = total_mem s"
  by (simp_all add: bitmap_set_def Let_def)

lemma bitmap_test_cong:
  "mem s = mem s' \<Longrightarrow> bitmap s = bitmap s' \<Longrightarrow> bitmap_test s i = bitmap_test s' i"
  by (simp add: bitmap_test_def)

lemma set_run_fields [simp]:
  "bitmap (set_run g k n s) = bitmap s" "segments (set_run g k n s) = segments s"
  "bitmap_size (set_run g k n s) = bitmap_size s" "used_mem (set_run g k n s) = used_mem s"
  "free_mem (set_run g k n s) = free_mem s"
  "allocation_count (set_run g k n s) = allocation_count s"
  "total_mem (set_run g k n s) = total_mem s"
  by (induction g k n s rule: set_run.induct, subst set_run.simps, simp)+

lemma set_run_test:
  "bitmap_test (set_run g k n s) j \<longleftrightarrow> bitmap_test s j \<or> k \<le> j - g \<and> j - g < n"
proof (induction g k n s rule: set_run.induct)
  case (1 g k n s)
  show ?case
  proof (cases "k < n")
    case True
    have "bitmap_test (set_run g k n s) j \<longleftrightarrow>
        bitmap_test (set_run g (k + 1) n (bitmap_set (g + k) s)) j"
      using True by (simp add: set_run.simps [of g k n s])
    also have "\<dots> \<longleftrightarrow> bitmap_test s j \<or> k \<le> j - g \<and> j - g < n"
      using True by (auto simp: "1.IH" le_offset_step [OF True])
    finally show ?thesis .
  next
    case False
    then show ?thesis by (auto simp: set_run.simps [of g k n s] dest: le_less_trans)
  qed
qed

lemma set_run_mem:
  assumes "\<And>i. k \<le> i \<Longrightarrow> i < n \<Longrightarrow> x \<noteq> bitmap s + (g + i) div 8"
  shows "mem (set_run g k n s) x = mem s x"
  using assms
proof (induction g k n s rule: set_run.induct)
  case (1 g k n s)
  show ?case
  proof (cases "k < n")
    case True
    have "k \<le> k + 1" using word_Suc_le(1) [OF True] by (simp add: word_le_nat_alt)
    then have "mem (set_run g (k + 1) n (bitmap_set (g + k) s)) x = mem (bitmap_set (g + k) s) x"
      using True "1.prems" by (intro "1.IH") (auto intro: order_trans)
    also have "\<dots> = mem s x"
      using "1.prems" [of k] True by (simp add: bitmap_set_def Let_def)
    finally show ?thesis using True by (simp add: set_run.simps [of g k n s])
  qed (simp add: set_run.simps [of g k n s])
qed

section \<open>First fit\<close>

text \<open>\<open>run_free s off i n\<close>: pages \<open>i, \<dots>, i + n - 1\<close> of the segment at page offset \<open>off\<close> are free.\<close>

definition run_free :: "'a pmm_scheme \<Rightarrow> u64 \<Rightarrow> nat \<Rightarrow> nat \<Rightarrow> bool" where
  "run_free s off i n \<longleftrightarrow> (\<forall>k<n. \<not> bitmap_test s (off + of_nat (i + k)))"

definition first_fit :: "'a pmm_scheme \<Rightarrow> u64 \<Rightarrow> nat \<Rightarrow> nat \<Rightarrow> nat \<Rightarrow> u64 option \<Rightarrow> bool" where
  "first_fit s off lo hi n r \<longleftrightarrow>
     (case r of
        Some st \<Rightarrow> lo \<le> unat st \<and> unat st + n \<le> hi \<and> run_free s off (unat st) n \<and>
          (\<forall>i. lo \<le> i \<and> i < unat st \<longrightarrow> \<not> run_free s off i n)
      | None \<Rightarrow> \<forall>i. lo \<le> i \<and> i + n \<le> hi \<longrightarrow> \<not> run_free s off i n)"

lemma scan_run_first_fit:
  assumes "unat found < unat needed" and "unat found \<le> unat j" and "j \<le> pages"
    and "lo \<le> unat j - unat found"
    and "found \<noteq> 0 \<longrightarrow> unat start = unat j - unat found"
    and "\<forall>i. unat j - unat found \<le> i \<and> i < unat j \<longrightarrow> \<not> bitmap_test s (off + of_nat i)"
    and "\<forall>i. lo \<le> i \<and> i < unat j - unat found \<longrightarrow> \<not> run_free s off i (unat needed)"
  shows "first_fit s off lo (unat pages) (unat needed)
           (scan_run s off needed j pages found start)"
  using assms
proof (induction s off needed j pages found start rule: scan_run.induct)
  case (1 s off needed j pages found start)
  let ?cur = "unat j - unat found"
  show ?case
  proof (cases "j < pages")
    case False
    then have j: "unat j = unat pages" using "1.prems"(3) by simp
    have "\<not> run_free s off i (unat needed)" if "lo \<le> i" "i + unat needed \<le> unat pages" for i
      using "1.prems"(1,2,7) that j by auto
    with False show ?thesis
      by (simp add: scan_run.simps [of s off needed j pages found start] first_fit_def)
  next
    case True
    have uj: "unat (j + 1) = unat j + 1" and jp: "j + 1 \<le> pages" using word_Suc_le [OF True] by auto
    have uf: "unat (found + 1) = unat found + 1"
      using word_Suc_le [of found needed] "1.prems"(1) by (simp add: word_less_nat_alt)
    show ?thesis
    proof (cases "bitmap_test s (off + j)")
      case set: True
      have "\<not> run_free s off i (unat needed)" if "?cur \<le> i" "i \<le> unat j" for i
      proof -
        have lt: "unat j - i < unat needed" and e: "i + (unat j - i) = unat j"
          using that "1.prems"(1,2) by auto
        have "bitmap_test s (off + of_nat (i + (unat j - i)))"
          unfolding e of_nat_unat64 by (rule set)
        with lt show ?thesis unfolding run_free_def by blast
      qed
      then have none: "\<not> run_free s off i (unat needed)" if "lo \<le> i" "i < unat j + 1" for i
        using "1.prems"(7) that by (cases "i < ?cur") auto
      have "first_fit s off lo (unat pages) (unat needed)
          (scan_run s off needed (j + 1) pages 0 start)"
      proof (rule "1.IH"(2))
        show "\<forall>i. lo \<le> i \<and> i < unat (j + 1) - unat (0 :: u64) \<longrightarrow>
            \<not> run_free s off i (unat needed)"
          using none uj by simp
      qed (use True set "1.prems" uj jp in auto)
      with True set show ?thesis by (simp add: scan_run.simps [of s off needed j pages found start])
    next
      case clear: False
      define start' where "start' = (if found = 0 then j else start)"
      have st: "unat start' = ?cur" using "1.prems"(5) by (auto simp: start'_def)
      have free: "\<not> bitmap_test s (off + of_nat i)" if "?cur \<le> i" "i < unat j + 1" for i
        using that clear "1.prems"(6) by (cases "i = unat j") auto
      show ?thesis
      proof (cases "found + 1 = needed")
        case full: True
        then have n: "unat needed = unat found + 1" using uf by simp
        have "?cur + unat needed \<le> unat pages"
          using n "1.prems"(2) jp uj by (simp add: word_le_nat_alt)
        moreover have "run_free s off ?cur (unat needed)"
          unfolding run_free_def
        proof (intro allI impI)
          fix k assume "k < unat needed"
          with n "1.prems"(2) show "\<not> bitmap_test s (off + of_nat (?cur + k))"
            by (intro free) linarith+
        qed
        ultimately have "first_fit s off lo (unat pages) (unat needed) (Some start')"
          using st "1.prems"(4,7) by (simp add: first_fit_def)
        then show ?thesis
          unfolding scan_run.simps [of s off needed j pages found start]
          using full True clear by (simp add: start'_def Let_def)
      next
        case more: False
        then have lt: "unat (found + 1) < unat needed"
          using "1.prems"(1) uf by (auto simp: word_unat_eq_iff)
        have cur: "unat (j + 1) - unat (found + 1) = ?cur" using uj uf by simp
        have "first_fit s off lo (unat pages) (unat needed)
            (scan_run s off needed (j + 1) pages (found + 1) start')"
          unfolding start'_def
          by (rule "1.IH"(1) [OF True clear refl refl more])
            (use lt jp cur free uj uf st "1.prems"(2,4,7) in \<open>simp_all add: start'_def\<close>)
        then show ?thesis
          unfolding scan_run.simps [of s off needed j pages found start]
          using True clear more by (simp add: Let_def start'_def)
      qed
    qed
  qed
qed

lemma scan_run_from:
  assumes "needed \<noteq> 0" and "j \<le> pages"
  shows "first_fit s off (unat j) (unat pages) (unat needed) (scan_run s off needed j pages 0 start)"
  using assms by (intro scan_run_first_fit) (auto simp: unat_gt_0)

section \<open>Segments, frames and the well-formedness invariant\<close>

definition seg_live :: "segment \<Rightarrow> bool" where
  "seg_live seg \<longleftrightarrow> seg_length seg \<noteq> 0 \<and> \<not> seg_is_bitmap seg"

definition seg_pages :: "segment \<Rightarrow> nat" where
  "seg_pages seg = unat (seg_length seg) div 4096"

text \<open>The page offset at which both allocators and \<open>free\<close> arrive at segment \<open>i\<close>.\<close>

fun seg_off :: "segment list \<Rightarrow> nat \<Rightarrow> nat" where
  "seg_off segs 0 = 0"
| "seg_off segs (Suc i) =
     seg_off segs i + (if seg_live (segs ! i) then seg_pages (segs ! i) else 0)"

text \<open>Two segments of the machine's memory do not overlap.\<close>

definition seg_disjoint :: "segment \<Rightarrow> segment \<Rightarrow> bool" where
  "seg_disjoint a b \<longleftrightarrow>
     unat (seg_base a) + unat (seg_length a) \<le> unat (seg_base b) \<or>
     unat (seg_base b) + unat (seg_length b) \<le> unat (seg_base a)"

definition segments_wf :: "segment list \<Rightarrow> bool" where
  "segments_wf segs \<longleftrightarrow>
     length segs = MAX_SEGMENTS \<and>
     (\<forall>i<MAX_SEGMENTS. seg_length (segs ! i) \<noteq> 0 \<longrightarrow>
        0x100000 \<le> unat (seg_base (segs ! i)) \<and>
        unat (seg_base (segs ! i)) + unat (seg_length (segs ! i)) < 2 ^ 64) \<and>
     (\<forall>i<MAX_SEGMENTS. \<forall>j<MAX_SEGMENTS.
        i \<noteq> j \<and> seg_length (segs ! i) \<noteq> 0 \<and> seg_length (segs ! j) \<noteq> 0 \<longrightarrow>
          seg_disjoint (segs ! i) (segs ! j))"

text \<open>
  The bitmap lies in a segment of its own, taken out of circulation, and has a bit for
  every page of the others.
\<close>

definition bitmap_wf :: "'a pmm_scheme \<Rightarrow> bool" where
  "bitmap_wf s \<longleftrightarrow> bitmap s \<noteq> 0 \<longrightarrow>
     (\<exists>b<MAX_SEGMENTS. seg_is_bitmap (segments s ! b) \<and>
        bitmap s = seg_base (segments s ! b) \<and>
        bitmap_size s \<le> seg_length (segments s ! b)) \<and>
     seg_off (segments s) MAX_SEGMENTS \<le> 8 * unat (bitmap_size s)"

definition pmm_wf :: "'a pmm_scheme \<Rightarrow> bool" where
  "pmm_wf s \<longleftrightarrow> segments_wf (segments s) \<and> bitmap_wf s"

text \<open>A page frame the manager owns, by segment and page number, and the frames in use.\<close>

definition frame_at :: "segment list \<Rightarrow> nat \<Rightarrow> nat \<Rightarrow> u64 \<Rightarrow> bool" where
  "frame_at segs i j a \<longleftrightarrow>
     i < MAX_SEGMENTS \<and> seg_live (segs ! i) \<and> j < seg_pages (segs ! i) \<and>
     a = seg_base (segs ! i) + of_nat j * PAGE_SIZE"

definition frame_used :: "'a pmm_scheme \<Rightarrow> u64 \<Rightarrow> bool" where
  "frame_used s a \<longleftrightarrow>
     (\<exists>i j. frame_at (segments s) i j a \<and> bitmap_test s (of_nat (seg_off (segments s) i + j)))"

definition frame_managed :: "'a pmm_scheme \<Rightarrow> u64 \<Rightarrow> bool" where
  "frame_managed s a \<longleftrightarrow> (\<exists>i j. frame_at (segments s) i j a)"

lemma seg_pages_lt: "seg_pages seg < 2 ^ 52"
  using unat_lt64 [of "seg_length seg"] by (simp add: seg_pages_def)

lemma unat_seg_pages: "unat (seg_length seg div PAGE_SIZE) = seg_pages seg"
  by (simp add: seg_pages_def PAGE_SIZE_def unat_div)

lemma of_nat_seg_pages: "of_nat (seg_pages seg) = seg_length seg div PAGE_SIZE"
  by (metis unat_seg_pages of_nat_unat64)

lemma seg_off_bound: "seg_off segs i \<le> i * 2 ^ 52"
proof (induction i)
  case (Suc i)
  then show ?case using seg_pages_lt [of "segs ! i"] by auto
qed simp

lemma seg_off_mono: "i \<le> j \<Longrightarrow> seg_off segs i \<le> seg_off segs j"
  by (induction rule: inc_induct) auto

lemma seg_off_step:
  assumes "i < j" and "seg_live (segs ! i)"
  shows "seg_off segs i + seg_pages (segs ! i) \<le> seg_off segs j"
  using assms seg_off_mono [of "Suc i" j segs] by simp

lemma page_index_bound:
  assumes "i < MAX_SEGMENTS" and "seg_live (segs ! i)" and "j < seg_pages (segs ! i)"
  shows "seg_off segs i + j < seg_off segs MAX_SEGMENTS"
    and "seg_off segs i + j < 2 ^ 64"
proof -
  show "seg_off segs i + j < seg_off segs MAX_SEGMENTS"
    using seg_off_step [OF assms(1,2)] assms(3) by simp
  then show "seg_off segs i + j < 2 ^ 64"
    using seg_off_bound [of segs MAX_SEGMENTS] by (simp add: MAX_SEGMENTS_def)
qed

text \<open>The page index determines the segment and the page, and so does the frame's address.\<close>

lemma page_index_inj:
  assumes "i < MAX_SEGMENTS" "seg_live (segs ! i)" "j < seg_pages (segs ! i)"
    and "i' < MAX_SEGMENTS" "seg_live (segs ! i')" "j' < seg_pages (segs ! i')"
    and "seg_off segs i + j = seg_off segs i' + j'"
  shows "i = i'" and "j = j'"
proof -
  have "\<not> i < i'" and "\<not> i' < i"
    using seg_off_step [of i i' segs] seg_off_step [of i' i segs] assms by auto
  then show "i = i'" by simp
  with assms(7) show "j = j'" by simp
qed

lemma frame_addr:
  assumes "segments_wf segs" and "frame_at segs i j a"
  shows "unat a = unat (seg_base (segs ! i)) + 4096 * j"
    and "unat a + 4096 \<le> unat (seg_base (segs ! i)) + unat (seg_length (segs ! i))"
proof -
  let ?b = "seg_base (segs ! i)" and ?l = "seg_length (segs ! i)"
  from assms have j: "4096 * j + 4096 \<le> unat ?l" and top: "unat ?b + unat ?l < 2 ^ 64"
    by (auto simp: frame_at_def segments_wf_def seg_live_def seg_pages_def)
  then have "unat (of_nat j * PAGE_SIZE) = 4096 * j"
    by (simp add: PAGE_SIZE_def unat_word_ariths unat_of_nat)
  then show "unat a = unat ?b + 4096 * j"
    using assms(2) j top by (simp add: frame_at_def unat_word_ariths)
  then show "unat a + 4096 \<le> unat ?b + unat ?l" using j by simp
qed

lemma frame_inj:
  assumes "segments_wf segs" and "frame_at segs i j a" and "frame_at segs i' j' a"
  shows "i = i'" and "j = j'"
proof -
  show i: "i = i'"
  proof (rule ccontr)
    assume "i \<noteq> i'"
    then have "seg_disjoint (segs ! i) (segs ! i')"
      using assms by (auto simp: segments_wf_def frame_at_def seg_live_def)
    then show False
      using frame_addr [OF assms(1,2)] frame_addr [OF assms(1,3)] by (auto simp: seg_disjoint_def)
  qed
  show "j = j'"
    using frame_addr(1) [OF assms(1,2)] frame_addr(1) [OF assms(1,3)] i by simp
qed

lemma frame_used_at:
  assumes "segments_wf (segments s)" and "frame_at (segments s) i j a"
  shows "frame_used s a \<longleftrightarrow> bitmap_test s (of_nat (seg_off (segments s) i + j))"
  using assms(2) frame_inj [OF assms(1) assms(2)] unfolding frame_used_def by blast

section \<open>What an allocation does\<close>

lemma commit_run_fields [simp]:
  "bitmap (commit_run i g n s) = bitmap s"
  "bitmap_size (commit_run i g n s) = bitmap_size s"
  "total_mem (commit_run i g n s) = total_mem s"
  "used_mem (commit_run i g n s) = used_mem s + n * PAGE_SIZE"
  "free_mem (commit_run i g n s) = free_mem s - n * PAGE_SIZE"
  "allocation_count (commit_run i g n s) = allocation_count s + 1"
  "mem (commit_run i g n s) = mem (set_run g 0 n s)"
  by (simp_all add: commit_run_def Let_def)

lemma commit_run_test:
  "bitmap_test (commit_run i g n s) j \<longleftrightarrow> bitmap_test s j \<or> in_region g n j"
proof -
  have "bitmap_test (commit_run i g n s) j = bitmap_test (set_run g 0 n s) j"
    by (rule bitmap_test_cong) simp_all
  then show ?thesis by (simp add: set_run_test in_region_def)
qed

text \<open>Two segment tables that differ at most in the accounting of remaining bytes.\<close>

definition seg_same :: "segment list \<Rightarrow> segment list \<Rightarrow> bool" where
  "seg_same xs ys \<longleftrightarrow> length xs = length ys \<and>
     (\<forall>i<length xs. seg_base (xs ! i) = seg_base (ys ! i) \<and>
        seg_length (xs ! i) = seg_length (ys ! i) \<and>
        seg_is_bitmap (xs ! i) = seg_is_bitmap (ys ! i))"

lemma commit_run_segments:
  "seg_same (segments (commit_run i g n s)) (segments s)"
  by (cases "i < length (segments s)")
    (auto simp: seg_same_def commit_run_def Let_def nth_list_update list_update_beyond)

lemma seg_same_live:
  assumes "seg_same xs ys" and "i < length ys"
  shows "seg_live (xs ! i) = seg_live (ys ! i)" "seg_pages (xs ! i) = seg_pages (ys ! i)"
    "seg_base (xs ! i) = seg_base (ys ! i)" "seg_length (xs ! i) = seg_length (ys ! i)"
    "seg_is_bitmap (xs ! i) = seg_is_bitmap (ys ! i)"
  using assms by (auto simp: seg_same_def seg_live_def seg_pages_def)

lemma seg_same_off:
  assumes "seg_same xs ys" and "i \<le> length ys"
  shows "seg_off xs i = seg_off ys i"
  using assms(2) by (induction i) (simp_all add: seg_same_live [OF assms(1)])

lemma seg_same_wf:
  assumes "seg_same xs ys" and "segments_wf ys"
  shows "segments_wf xs"
proof -
  have l: "length xs = MAX_SEGMENTS" "length ys = MAX_SEGMENTS"
    using assms by (auto simp: seg_same_def segments_wf_def)
  then have "seg_base (xs ! i) = seg_base (ys ! i)" "seg_length (xs ! i) = seg_length (ys ! i)"
    if "i < MAX_SEGMENTS" for i
    using seg_same_live [OF assms(1), of i] that by simp_all
  with l assms(2) show ?thesis
    unfolding segments_wf_def seg_disjoint_def by simp
qed

lemma seg_same_frame_at:
  assumes "seg_same xs ys" and "length ys = MAX_SEGMENTS"
  shows "frame_at xs i j a = frame_at ys i j a"
  using seg_same_live [OF assms(1), of i] assms(2) by (auto simp: frame_at_def)

text \<open>
  \<open>fits s n i k\<close>: pages \<open>k, \<dots>, k + n - 1\<close> of segment \<open>i\<close> are free.
  An allocation takes the first such run, in the order of segments and then of pages,
  and fails only when there is none.
\<close>

definition fits :: "'a pmm_scheme \<Rightarrow> nat \<Rightarrow> nat \<Rightarrow> nat \<Rightarrow> bool" where
  "fits s n i k \<longleftrightarrow>
     i < MAX_SEGMENTS \<and> seg_live (segments s ! i) \<and> k + n \<le> seg_pages (segments s ! i) \<and>
     run_free s (of_nat (seg_off (segments s) i)) k n"

definition first_fits :: "'a pmm_scheme \<Rightarrow> nat \<Rightarrow> nat \<Rightarrow> nat \<Rightarrow> nat \<Rightarrow> bool" where
  "first_fits s n lo i k \<longleftrightarrow>
     lo \<le> i \<and> fits s n i k \<and>
     (\<forall>i' k'. lo \<le> i' \<and> (i' < i \<or> i' = i \<and> k' < k) \<longrightarrow> \<not> fits s n i' k')"

definition alloc_spec :: "nat \<Rightarrow> 'a pmm_scheme \<Rightarrow> u64 \<Rightarrow> u64 \<times> 'a pmm_scheme \<Rightarrow> bool" where
  "alloc_spec lo s n r \<longleftrightarrow>
     (\<exists>i k. first_fits s (unat n) lo i k \<and>
        r = (seg_base (segments s ! i) + of_nat k * PAGE_SIZE,
             commit_run i (of_nat (seg_off (segments s) i + k)) n s)) \<or>
     (\<forall>i k. lo \<le> i \<longrightarrow> \<not> fits s (unat n) i k) \<and>
       r = (0, s\<lparr>failed_allocation_count := failed_allocation_count s + 1\<rparr>)"

lemma alloc_spec_skip:
  assumes "alloc_spec (Suc i) s n r" and "\<And>k. \<not> fits s (unat n) i k"
  shows "alloc_spec i s n r"
proof -
  have none: "\<not> fits s (unat n) j k" if "i \<le> j" "\<And>k. Suc i \<le> j \<Longrightarrow> \<not> fits s (unat n) j k" for j k
    using assms(2) that by (cases "i = j") auto
  have "first_fits s (unat n) i a b" if "first_fits s (unat n) (Suc i) a b" for a b
    using that assms(2) unfolding first_fits_def
    by (metis Suc_leD Suc_leI le_neq_implies_less)
  with assms none show ?thesis unfolding alloc_spec_def by blast
qed

lemma alloc_spec_take:
  assumes "i < MAX_SEGMENTS" and "seg_live (segments s ! i)"
    and "first_fit s (of_nat (seg_off (segments s) i)) 0 (seg_pages (segments s ! i)) (unat n)
           (Some st)"
  shows "alloc_spec i s n (seg_base (segments s ! i) + st * PAGE_SIZE,
           commit_run i (of_nat (seg_off (segments s) i) + st) n s)"
proof -
  have "first_fits s (unat n) i i (unat st)"
    using assms by (auto simp: first_fits_def fits_def first_fit_def)
  then show ?thesis unfolding alloc_spec_def by (metis of_nat_unat64 of_nat_add)
qed

lemma not_fits_None:
  assumes "first_fit s (of_nat (seg_off (segments s) i)) 0 (seg_pages (segments s ! i)) n None"
  shows "\<not> fits s n i k"
  using assms by (auto simp: first_fit_def fits_def)

lemma seg_above_min:
  assumes "segments_wf (segments s)" and "i < MAX_SEGMENTS" and "seg_live (segments s ! i)"
  shows "\<not> seg_base (segments s ! i) + seg_length (segments s ! i) \<le> MIN_ALLOC_ADDR"
    and "\<not> seg_base (segments s ! i) < MIN_ALLOC_ADDR"
proof -
  let ?b = "seg_base (segments s ! i)" and ?l = "seg_length (segments s ! i)"
  have b: "0x100000 \<le> unat ?b" and l: "?l \<noteq> 0" and t: "unat ?b + unat ?l < 2 ^ 64"
    using assms by (auto simp: segments_wf_def seg_live_def)
  have "unat (?b + ?l) = unat ?b + unat ?l" using t by (rule unat_add_nowrap)
  moreover have "0 < unat ?l" using l by (simp add: unat_gt_0)
  ultimately show "\<not> ?b + ?l \<le> MIN_ALLOC_ADDR" and "\<not> ?b < MIN_ALLOC_ADDR"
    using b by (auto simp: word_le_nat_alt word_less_nat_alt MIN_ALLOC_ADDR_def)
qed

lemma scan_segment:
  assumes "needed \<noteq> 0"
  shows "first_fit s off 0 (seg_pages seg) (unat needed)
           (scan_run s off needed 0 (seg_length seg div PAGE_SIZE) 0 0)"
  using scan_run_from [OF assms, of 0 "seg_length seg div PAGE_SIZE"]
  by (simp add: unat_seg_pages)

lemma palloc_from_spec:
  assumes "segments_wf (segments s)" and "needed \<noteq> 0"
    and "page_offset = of_nat (seg_off (segments s) segid)"
  shows "alloc_spec segid s needed (palloc_from needed segid page_offset s)"
  using assms
proof (induction needed segid page_offset s rule: palloc_from.induct)
  case (1 needed segid page_offset s)
  let ?seg = "segments s ! segid"
  show ?case
  proof (cases "segid < MAX_SEGMENTS")
    case False
    then have "\<not> fits s (unat needed) i k" if "segid \<le> i" for i k
      using that by (simp add: fits_def)
    with False show ?thesis
      by (simp add: palloc_from.simps [of needed segid page_offset s] alloc_spec_def)
  next
    case True
    show ?thesis
    proof (cases "seg_live ?seg")
      case dead: False
      have "alloc_spec (Suc segid) s needed (palloc_from needed (Suc segid) page_offset s)"
        using True dead "1.prems" by (intro "1.IH"(1) [OF True refl]) (auto simp: seg_live_def)
      then have "alloc_spec segid s needed (palloc_from needed (Suc segid) page_offset s)"
        by (rule alloc_spec_skip) (use dead in \<open>simp add: fits_def\<close>)
      with True dead show ?thesis
        by (simp add: palloc_from.simps [of needed segid page_offset s] seg_live_def)
    next
      case live: True
      note above = seg_above_min [OF "1.prems"(1) True live]
      let ?r = "scan_run s page_offset needed 0 (seg_length ?seg div PAGE_SIZE) 0 0"
      have eq: "palloc_from needed segid page_offset s =
          (case ?r of
             Some start \<Rightarrow> (seg_base ?seg + start * PAGE_SIZE,
               commit_run segid (page_offset + start) needed s)
           | None \<Rightarrow>
               palloc_from needed (Suc segid) (page_offset + seg_length ?seg div PAGE_SIZE) s)"
        using True live above
        by (simp add: palloc_from.simps [of needed segid page_offset s] seg_live_def Let_def)
      have ff: "first_fit s page_offset 0 (seg_pages ?seg) (unat needed) ?r"
        by (rule scan_segment [OF "1.prems"(2)])
      show ?thesis
      proof (cases ?r)
        case (Some start)
        with ff eq show ?thesis
          using alloc_spec_take [OF True live, of needed start] "1.prems"(3) by simp
      next
        case None
        have "alloc_spec (Suc segid) s needed
            (palloc_from needed (Suc segid) (page_offset + seg_length ?seg div PAGE_SIZE) s)"
          using True live above None "1.prems"
          by (intro "1.IH"(3) [OF True refl _ _ refl refl])
            (auto simp: seg_live_def of_nat_seg_pages)
        then have "alloc_spec segid s needed
            (palloc_from needed (Suc segid) (page_offset + seg_length ?seg div PAGE_SIZE) s)"
          by (rule alloc_spec_skip) (use ff None "1.prems"(3) in \<open>simp add: not_fits_None\<close>)
        with eq None show ?thesis by simp
      qed
    qed
  qed
qed

text \<open>No usable segment reaches below 1 MiB, so the two searches are the same.\<close>

lemma reserve_from_eq:
  assumes "segments_wf (segments s)"
  shows "reserve_from needed segid page_offset s = palloc_from needed segid page_offset s"
  using assms
proof (induction needed segid page_offset s rule: reserve_from.induct)
  case (1 needed segid page_offset s)
  let ?seg = "segments s ! segid"
  show ?case
  proof (cases "segid < MAX_SEGMENTS \<and> seg_live ?seg")
    case True
    note above = seg_above_min [OF "1.prems", of segid]
    show ?thesis
      using True above "1.IH"(2) [OF _ refl _ refl] "1.prems"
      by (simp add: reserve_from.simps [of needed segid] palloc_from.simps [of needed segid]
          seg_live_def Let_def split: option.split)
  next
    case False
    then show ?thesis
      using "1.IH"(1) [OF _ refl] "1.prems"
      by (auto simp: reserve_from.simps [of needed segid] palloc_from.simps [of needed segid]
          seg_live_def Let_def)
  qed
qed

lemma palloc_spec:
  assumes "segments_wf (segments s)" and "bitmap s \<noteq> 0" and "n \<noteq> 0"
  shows "alloc_spec 0 s n (palloc n s)"
  using assms palloc_from_spec [of s n 0 0] by (simp add: palloc_def)

lemma reserve_heap_spec:
  assumes "segments_wf (segments s)" and "bitmap s \<noteq> 0" and "n \<noteq> 0"
  shows "alloc_spec 0 s n (reserve_heap n s)"
  using assms palloc_from_spec [of s n 0 0] by (simp add: reserve_heap_def reserve_from_eq)

section \<open>The allocation contract\<close>

lemma in_region_index:
  assumes "x < 2 ^ 60" and "y + unat n \<le> 2 ^ 60"
  shows "in_region (of_nat y) n (of_nat x) \<longleftrightarrow> y \<le> x \<and> x < y + unat n"
proof (cases "y \<le> x")
  case True
  then have "of_nat x - of_nat y = (of_nat (x - y) :: u64)" by simp
  moreover have "unat (of_nat (x - y) :: u64) = x - y"
    using assms(1) by (intro unat_of_nat64) simp
  ultimately show ?thesis using True by (auto simp: in_region_def word_less_nat_alt)
next
  case False
  have "unat (of_nat x :: u64) = x" "unat (of_nat y :: u64) = y"
    using assms False by (simp_all add: unat_of_nat64)
  then have "unat (of_nat x - of_nat y :: u64) = x + 2 ^ 64 - y"
    using False by (simp add: unat_sub_if')
  then show ?thesis using False assms by (simp add: in_region_def word_less_nat_alt)
qed

lemma fits_frame:
  assumes "fits s n i k" and "m < n"
  shows "frame_at (segments s) i (k + m) (seg_base (segments s ! i) + of_nat (k + m) * PAGE_SIZE)"
  using assms by (auto simp: fits_def frame_at_def)

lemma run_frame_addr:
  "seg_base (segments s ! i) + of_nat k * PAGE_SIZE + of_nat m * PAGE_SIZE =
   seg_base (segments s ! i) + of_nat (k + m) * PAGE_SIZE"
  by (simp add: algebra_simps)

lemma fits_fresh:
  assumes "segments_wf (segments s)" and "fits s n i k" and "m < n"
  shows "\<not> frame_used s (seg_base (segments s ! i) + of_nat (k + m) * PAGE_SIZE)"
  using assms frame_used_at [OF assms(1) fits_frame [OF assms(2,3)]]
  by (auto simp: fits_def run_free_def algebra_simps)

lemma index_in_run:
  assumes "fits s (unat n) i k" and "frame_at (segments s) i' j a"
  shows "in_region (of_nat (seg_off (segments s) i + k)) n (of_nat (seg_off (segments s) i' + j))
     \<longleftrightarrow> i' = i \<and> k \<le> j \<and> j < k + unat n"
proof -
  let ?off = "seg_off (segments s)"
  have live: "i < MAX_SEGMENTS" "seg_live (segments s ! i)" "k + unat n \<le> seg_pages (segments s ! i)"
    and live': "i' < MAX_SEGMENTS" "seg_live (segments s ! i')" "j < seg_pages (segments s ! i')"
    using assms by (auto simp: fits_def frame_at_def)
  have top: "?off MAX_SEGMENTS \<le> 2 ^ 60"
    using seg_off_bound [of "segments s" MAX_SEGMENTS] by (simp add: MAX_SEGMENTS_def)
  have "?off i' + j < ?off MAX_SEGMENTS" using page_index_bound(1) [OF live'] .
  moreover have "?off i + k + unat n \<le> ?off MAX_SEGMENTS"
    using seg_off_step [OF live(1,2)] live(3) by simp
  ultimately have "in_region (of_nat (?off i + k)) n (of_nat (?off i' + j))
      \<longleftrightarrow> ?off i + k \<le> ?off i' + j \<and> ?off i' + j < ?off i + k + unat n"
    using top by (intro in_region_index) simp_all
  also have "\<dots> \<longleftrightarrow> i' = i \<and> k \<le> j \<and> j < k + unat n"
  proof
    assume *: "?off i + k \<le> ?off i' + j \<and> ?off i' + j < ?off i + k + unat n"
    then obtain m where m: "?off i' + j = ?off i + (k + m)" "m < unat n"
      by (metis add.assoc less_diff_conv2 le_Suc_ex nat_add_left_cancel_less)
    then have "i' = i" "j = k + m"
      using page_index_inj [OF live' live(1,2) _ m(1)] live(3) by simp_all
    with m show "i' = i \<and> k \<le> j \<and> j < k + unat n" by simp
  qed auto
  finally show ?thesis .
qed

lemma commit_run_used:
  assumes "segments_wf (segments s)" and "fits s (unat n) i k"
  shows "frame_used (commit_run i (of_nat (seg_off (segments s) i + k)) n s) a \<longleftrightarrow>
     frame_used s a \<or>
     (\<exists>m<unat n. a = seg_base (segments s ! i) + of_nat k * PAGE_SIZE + of_nat m * PAGE_SIZE)"
    (is "frame_used ?s' a \<longleftrightarrow> _ \<or> ?new")
proof -
  have same: "seg_same (segments ?s') (segments s)" by (rule commit_run_segments)
  have len: "length (segments s) = MAX_SEGMENTS" using assms(1) by (simp add: segments_wf_def)
  have off: "i' < MAX_SEGMENTS \<Longrightarrow> seg_off (segments ?s') i' = seg_off (segments s) i'" for i'
    using seg_same_off [OF same] len by simp
  have new: "?new \<longleftrightarrow> (\<exists>j. frame_at (segments s) i j a \<and> k \<le> j \<and> j < k + unat n)"
  proof
    assume ?new
    then obtain m where m: "m < unat n"
      and "a = seg_base (segments s ! i) + of_nat (k + m) * PAGE_SIZE"
      unfolding run_frame_addr by blast
    then have "frame_at (segments s) i (k + m) a" using fits_frame [OF assms(2) m] by simp
    with m show "\<exists>j. frame_at (segments s) i j a \<and> k \<le> j \<and> j < k + unat n"
      by (intro exI [of _ "k + m"]) simp
  next
    assume "\<exists>j. frame_at (segments s) i j a \<and> k \<le> j \<and> j < k + unat n"
    then obtain j where j: "frame_at (segments s) i j a" "k \<le> j" "j < k + unat n" by blast
    then have "j - k < unat n" and "a = seg_base (segments s ! i) + of_nat (k + (j - k)) * PAGE_SIZE"
      by (auto simp: frame_at_def)
    then show ?new unfolding run_frame_addr by blast
  qed
  have "frame_used ?s' a \<longleftrightarrow> (\<exists>i' j. frame_at (segments s) i' j a \<and>
      (bitmap_test s (of_nat (seg_off (segments s) i' + j)) \<or> i' = i \<and> k \<le> j \<and> j < k + unat n))"
    unfolding frame_used_def commit_run_test seg_same_frame_at [OF same len]
    using index_in_run [OF assms(2)] off by (metis frame_at_def)
  also have "\<dots> \<longleftrightarrow> frame_used s a \<or> ?new"
    unfolding new frame_used_def by blast
  finally show ?thesis .
qed

lemma commit_run_wf:
  assumes "pmm_wf s"
  shows "pmm_wf (commit_run i g n s)"
proof -
  have same: "seg_same (segments (commit_run i g n s)) (segments s)" by (rule commit_run_segments)
  have len: "length (segments s) = MAX_SEGMENTS"
    using assms by (simp add: pmm_wf_def segments_wf_def)
  show ?thesis
    using assms seg_same_wf [OF same] seg_same_off [OF same, of MAX_SEGMENTS] len
      seg_same_live [OF same]
    by (simp add: pmm_wf_def bitmap_wf_def) metis
qed

lemma commit_run_mem:
  assumes "pmm_wf s" and "bitmap s \<noteq> 0" and "fits s (unat n) i k"
    and "\<not> in_region (bitmap s) (bitmap_size s) x"
  shows "mem (commit_run i (of_nat (seg_off (segments s) i + k)) n s) x = mem s x"
proof -
  let ?g = "of_nat (seg_off (segments s) i + k) :: u64"
  have live: "i < MAX_SEGMENTS" "seg_live (segments s ! i)" "k + unat n \<le> seg_pages (segments s ! i)"
    using assms(3) by (auto simp: fits_def)
  have size: "seg_off (segments s) MAX_SEGMENTS \<le> 8 * unat (bitmap_size s)"
    using assms(1,2) by (simp add: pmm_wf_def bitmap_wf_def)
  have "x \<noteq> bitmap s + (?g + m) div 8" if "m < n" for m
  proof
    assume x: "x = bitmap s + (?g + m) div 8"
    have m: "unat m < unat n" using that by (simp add: word_less_nat_alt)
    have "?g + m = of_nat (seg_off (segments s) i + (k + unat m))" by simp
    moreover have b: "seg_off (segments s) i + (k + unat m) < seg_off (segments s) MAX_SEGMENTS"
      and "seg_off (segments s) i + (k + unat m) < 2 ^ 64"
      using page_index_bound [OF live(1,2), of "k + unat m"] live(3) m by simp_all
    ultimately have "unat (?g + m) = seg_off (segments s) i + (k + unat m)"
      by (metis unat_of_nat64)
    then have "unat ((?g + m) div 8) < unat (bitmap_size s)"
      using b size by (simp add: unat_div)
    then have "in_region (bitmap s) (bitmap_size s) x" by (simp add: x word_less_nat_alt)
    with assms(4) show False by simp
  qed
  then show ?thesis by (simp add: set_run_mem)
qed

lemma alloc_spec_cases:
  assumes "pmm_wf s" and "n \<noteq> 0" and "alloc_spec 0 s n (p, s')"
  obtains (granted) i k where "fits s (unat n) i k" "p \<noteq> 0"
      "p = seg_base (segments s ! i) + of_nat k * PAGE_SIZE"
      "s' = commit_run i (of_nat (seg_off (segments s) i + k)) n s"
  | (refused) "p = 0" "s' = s\<lparr>failed_allocation_count := failed_allocation_count s + 1\<rparr>"
      "\<And>i k. \<not> fits s (unat n) i k"
proof -
  have wf: "segments_wf (segments s)" using assms(1) by (simp add: pmm_wf_def)
  have nz: "p \<noteq> 0" if f: "fits s (unat n) i k"
    and p: "p = seg_base (segments s ! i) + of_nat k * PAGE_SIZE" for i k
  proof -
    have "frame_at (segments s) i (k + 0) (seg_base (segments s ! i) + of_nat (k + 0) * PAGE_SIZE)"
      using assms(2) by (intro fits_frame [OF f]) (simp add: unat_gt_0)
    then have "frame_at (segments s) i k p" by (simp add: p)
    then have "unat p = unat (seg_base (segments s ! i)) + 4096 * k" by (rule frame_addr(1) [OF wf])
    moreover have "0x100000 \<le> unat (seg_base (segments s ! i))"
      using wf f by (auto simp: segments_wf_def fits_def seg_live_def)
    ultimately show "p \<noteq> 0" by auto
  qed
  show thesis
    using assms(3) nz granted refused unfolding alloc_spec_def first_fits_def by blast
qed

lemma refused_state:
  fixes c :: u64 and s :: "'a pmm_scheme"
  shows "frame_used (s\<lparr>failed_allocation_count := c\<rparr>) = frame_used s"
    and "pmm_wf (s\<lparr>failed_allocation_count := c\<rparr>) = pmm_wf s"
  by (auto simp: frame_used_def bitmap_test_def pmm_wf_def bitmap_wf_def fun_eq_iff)

text \<open>
  A source of page frames: each request either grants a run of fresh frames, which are
  in use from then on, or changes nothing about which frames are in use.
\<close>

fun serve :: "('r \<Rightarrow> 's \<Rightarrow> u64 \<times> 's) \<Rightarrow> 'r list \<Rightarrow> 's \<Rightarrow> (u64 \<times> 'r) list \<times> 's" where
  "serve request [] s = ([], s)"
| "serve request (r # rs) s =
     (case request r s of (p, s1) \<Rightarrow>
      case serve request rs s1 of (gs, s2) \<Rightarrow> ((p, r) # gs, s2))"

definition run_frames :: "u64 \<Rightarrow> u64 \<Rightarrow> u64 set" where
  "run_frames p n = (if p = 0 then {} else (\<lambda>k. p + of_nat k * PAGE_SIZE) ` {..<unat n})"

locale frame_source =
  fixes request :: "'r \<Rightarrow> 's \<Rightarrow> u64 \<times> 's"
    and pages :: "'r \<Rightarrow> u64"
    and used :: "'s \<Rightarrow> u64 \<Rightarrow> bool"
    and wf :: "'s \<Rightarrow> bool"
  assumes request_wf: "wf s \<Longrightarrow> request r s = (p, s') \<Longrightarrow> wf s'"
    and request_fresh: "wf s \<Longrightarrow> request r s = (p, s') \<Longrightarrow> a \<in> run_frames p (pages r) \<Longrightarrow> \<not> used s a"
    and request_used: "wf s \<Longrightarrow> request r s = (p, s') \<Longrightarrow>
          used s' a \<longleftrightarrow> used s a \<or> a \<in> run_frames p (pages r)"
begin

lemma serve_wf: "wf s \<Longrightarrow> serve request rs s = (gs, s') \<Longrightarrow> wf s'"
  by (induction rs arbitrary: s gs) (auto split: prod.splits dest: request_wf)

lemma serve_used:
  "wf s \<Longrightarrow> serve request rs s = (gs, s') \<Longrightarrow>
     used s' a \<longleftrightarrow> used s a \<or> (\<exists>(p, r) \<in> set gs. a \<in> run_frames p (pages r))"
proof (induction rs arbitrary: s gs)
  case (Cons r rs)
  obtain p s1 gs1 where 1: "request r s = (p, s1)" "serve request rs s1 = (gs1, s')"
    "gs = (p, r) # gs1"
    using Cons.prems(2) by (auto split: prod.splits)
  show ?case
    using Cons.IH [OF request_wf [OF Cons.prems(1) 1(1)] 1(2)]
      request_used [OF Cons.prems(1) 1(1), of a] 1(3) by auto
qed simp

lemma serve_fresh:
  "wf s \<Longrightarrow> serve request rs s = (gs, s') \<Longrightarrow> (p, r) \<in> set gs \<Longrightarrow>
     a \<in> run_frames p (pages r) \<Longrightarrow> \<not> used s a"
proof (induction rs arbitrary: s gs)
  case (Cons r' rs)
  obtain q s1 gs1 where 1: "request r' s = (q, s1)" "serve request rs s1 = (gs1, s')"
    "gs = (q, r') # gs1"
    using Cons.prems(2) by (auto split: prod.splits)
  note wf1 = request_wf [OF Cons.prems(1) 1(1)]
  show ?case
    using Cons.prems(3,4) 1(3) Cons.IH [OF wf1 1(2)] request_fresh [OF Cons.prems(1) 1(1)]
      request_used [OF Cons.prems(1) 1(1)] by auto
qed simp

lemma serve_disjoint:
  "wf s \<Longrightarrow> serve request rs s = (gs, s') \<Longrightarrow> i < j \<Longrightarrow> j < length gs \<Longrightarrow>
     run_frames (fst (gs ! i)) (pages (snd (gs ! i))) \<inter>
     run_frames (fst (gs ! j)) (pages (snd (gs ! j))) = {}"
proof (induction rs arbitrary: s gs i j)
  case (Cons r rs)
  obtain p s1 gs1 where 1: "request r s = (p, s1)" "serve request rs s1 = (gs1, s')"
    "gs = (p, r) # gs1"
    using Cons.prems(2) by (auto split: prod.splits)
  note wf1 = request_wf [OF Cons.prems(1) 1(1)]
  obtain j' where j: "j = Suc j'" using Cons.prems(3) by (cases j) auto
  show ?case
  proof (cases i)
    case 0
    have "gs1 ! j' \<in> set gs1" using Cons.prems(4) j 1(3) by simp
    then have "\<not> used s1 a" if "a \<in> run_frames (fst (gs1 ! j')) (pages (snd (gs1 ! j')))" for a
      using serve_fresh [OF wf1 1(2), of "fst (gs1 ! j')" "snd (gs1 ! j')"] that by simp
    then show ?thesis using 0 j 1(3) request_used [OF Cons.prems(1) 1(1)] by auto
  next
    case (Suc i')
    then show ?thesis using Cons.IH [OF wf1 1(2), of i' j'] Cons.prems(3,4) j 1(3) by simp
  qed
qed simp

end

text \<open>The calls the rest of the kernel makes, in any order.\<close>

datatype pmm_call = Palloc u64 | Reserve_heap u64

fun pmm_call_pages :: "pmm_call \<Rightarrow> u64" where
  "pmm_call_pages (Palloc n) = n"
| "pmm_call_pages (Reserve_heap n) = n"

fun pmm_call_run :: "pmm_call \<Rightarrow> 'a pmm_scheme \<Rightarrow> u64 \<times> 'a pmm_scheme" where
  "pmm_call_run (Palloc n) s = palloc n s"
| "pmm_call_run (Reserve_heap n) s = reserve_heap n s"

lemma pmm_call_result:
  assumes "pmm_wf s" and "pmm_call_run r s = (p, s')"
  obtains (granted) i k where "fits s (unat (pmm_call_pages r)) i k" "p \<noteq> 0" "bitmap s \<noteq> 0"
      "p = seg_base (segments s ! i) + of_nat k * PAGE_SIZE"
      "s' = commit_run i (of_nat (seg_off (segments s) i + k)) (pmm_call_pages r) s"
  | (refused) c where "p = 0" "s' = s\<lparr>failed_allocation_count := c\<rparr>"
proof (cases "bitmap s = 0 \<or> pmm_call_pages r = 0")
  case True
  then have "p = 0" "s' = s" using assms(2) by (cases r; auto simp: palloc_def reserve_heap_def)+
  then show thesis using refused [of "failed_allocation_count s"] by simp
next
  case False
  then have "alloc_spec 0 s (pmm_call_pages r) (pmm_call_run r s)"
    using assms(1) by (cases r) (auto simp: pmm_wf_def intro: palloc_spec reserve_heap_spec)
  then have "alloc_spec 0 s (pmm_call_pages r) (p, s')" by (simp add: assms(2))
  then show thesis
    using False by (elim alloc_spec_cases [OF assms(1), rotated]) (auto intro: granted refused)
qed

lemma run_frames_granted:
  assumes "p = seg_base seg + of_nat k * PAGE_SIZE" and "p \<noteq> 0"
  shows "a \<in> run_frames p n \<longleftrightarrow>
     (\<exists>m<unat n. a = seg_base seg + of_nat k * PAGE_SIZE + of_nat m * PAGE_SIZE)"
  using assms by (auto simp: run_frames_def)

interpretation pmm_src: frame_source
  "pmm_call_run :: pmm_call \<Rightarrow> 'a pmm_scheme \<Rightarrow> u64 \<times> 'a pmm_scheme" pmm_call_pages frame_used pmm_wf
proof (unfold_locales, goal_cases)
  case (1 s r p s')
  then show ?case
    by (cases rule: pmm_call_result) (use 1(1) in \<open>auto simp: commit_run_wf refused_state\<close>)
next
  case (2 s r p s' a)
  from 2(1,2) show ?case
  proof (cases rule: pmm_call_result)
    case (granted i k)
    then obtain m where "m < unat (pmm_call_pages r)"
      "a = seg_base (segments s ! i) + of_nat (k + m) * PAGE_SIZE"
      using 2(3) run_frames_granted [OF granted(4,2)] by (auto simp: run_frame_addr)
    then show ?thesis using fits_fresh [OF _ granted(1)] 2(1) by (simp add: pmm_wf_def)
  next
    case refused
    then show ?thesis using 2(3) by (simp add: run_frames_def)
  qed
next
  case (3 s r p s' a)
  from 3(1,2) show ?case
  proof (cases rule: pmm_call_result)
    case (granted i k)
    then show ?thesis
      using commit_run_used [OF _ granted(1)] 3(1) run_frames_granted [OF granted(4,2)]
      by (simp add: pmm_wf_def)
  next
    case refused
    then show ?thesis by (simp add: refused_state run_frames_def)
  qed
qed

text \<open>Nothing but bitmap bytes is written.\<close>

lemma pmm_call_mem:
  assumes "pmm_wf s" and "pmm_call_run r s = (p, s')"
    and "\<not> in_region (bitmap s) (bitmap_size s) x"
  shows "mem s' x = mem s x"
  using assms(1,2)
  by (cases rule: pmm_call_result) (use assms commit_run_mem in auto)

end
