(* ===== verification/Pmm_Boot.thy ===== *)
theory Pmm_Boot
  imports Pmm
begin

text \<open>
  The life of the physical allocator: zeroing and clearing the bitmap, building the segments
  from the boot loader's memory map, what a sequence of requests does to the frames and the
  counters, and the properties of \<open>kernel/src/mem/pmm.cpp\<close> that follow.
\<close>

section \<open>Clearing the bitmap\<close>

lemma in_region_add:
  assumes "unat a + unat b < 2 ^ 64"
  shows "in_region p (a + b) x \<longleftrightarrow> in_region p a x \<or> in_region (p + a) b x"
proof -
  let ?y = "x - p"
  have e: "x - (p + a) = ?y - a" by simp
  have s: "unat (a + b) = unat a + unat b" using assms by (rule unat_add_nowrap)
  show ?thesis
  proof (cases "?y < a")
    case True
    then have "unat ?y < unat a + unat b" by (simp add: word_less_nat_alt)
    with True show ?thesis by (simp add: in_region_def word_less_nat_alt s)
  next
    case False
    then have "unat (?y - a) = unat ?y - unat a" by (simp add: unat_sub not_less)
    with False show ?thesis
      unfolding in_region_def e by (auto simp: word_less_nat_alt s)
  qed
qed

lemma filled_add:
  assumes "unat a + unat b < 2 ^ 64"
  shows "filled (filled m p c a) (p + a) c b = filled m p c (a + b)"
  using in_region_add [OF assms, of p] by (auto simp: filled_def fun_eq_iff)

lemma filled_one: "filled m p c 1 = m(p := c)"
  by (auto simp: filled_def in_region_def fun_eq_iff)

lemma filled_zero [simp]: "filled m p c 0 = m"
  by (simp add: filled_def)

lemma filled_step:
  assumes "n \<noteq> 0"
  shows "filled (m(p := c)) (p + 1) c (n - 1) = filled m p c n"
proof -
  have "unat (1 :: u64) + unat (n - 1) < 2 ^ 64"
    using assms unat_lt64 [of n] by (simp add: unat_minus_one)
  from filled_add [OF this, of m p c] show ?thesis by (simp add: filled_one)
qed

lemma write_le_zero: "n < 2 ^ 64 \<Longrightarrow> write_le n m p 0 = filled m p 0 (of_nat n)"
proof (induction n arbitrary: m p)
  case (Suc n)
  have "of_nat (Suc n) \<noteq> (0 :: u64)"
    using Suc.prems unat_of_nat64 [of "Suc n"] by auto
  then have "filled (m(p := 0)) (p + 1) 0 (of_nat (Suc n) - 1) = filled m p 0 (of_nat (Suc n))"
    by (rule filled_step)
  with Suc show ?case by simp
qed simp

lemma write64_zero: "write64 m p 0 = filled m p 0 8"
  using write_le_zero [of 8 m p] by (simp add: write64_def)

lemma bulk_tail_fill: "bulk_tail m p v n = filled m p (ucast v) n"
proof (induction m p v n rule: bulk_tail.induct)
  case (1 m p v n)
  show ?case
  proof (cases "n = 0")
    case True
    then show ?thesis by (simp add: bulk_tail.simps [of m p v 0])
  next
    case False
    have "bulk_tail m p v n = bulk_tail (m(p := ucast v)) (p + 1) v (n - 1)"
      using False by (simp add: bulk_tail.simps [of m p v n])
    also have "\<dots> = filled (m(p := ucast v)) (p + 1) (ucast v) (n - 1)"
      using False by (rule "1.IH")
    also have "\<dots> = filled m p (ucast v) n" using False by (rule filled_step)
    finally show ?thesis .
  qed
qed

lemma bulk_head_fill:
  "bulk_head m p v n = (m', p', n') \<Longrightarrow> filled m' p' (ucast v) n' = filled m p (ucast v) n"
proof (induction m p v n rule: bulk_head.induct)
  case (1 m p v n)
  show ?case
  proof (cases "p AND 7 \<noteq> 0 \<and> n \<noteq> 0")
    case True
    then have "bulk_head (m(p := ucast v)) (p + 1) v (n - 1) = (m', p', n')"
      using "1.prems" by (simp add: bulk_head.simps [of m p v n])
    then have "filled m' p' (ucast v) n' = filled (m(p := ucast v)) (p + 1) (ucast v) (n - 1)"
      by (rule "1.IH" [OF True])
    also have "\<dots> = filled m p (ucast v) n" by (rule filled_step) (use True in simp)
    finally show ?thesis .
  next
    case False
    then show ?thesis using "1.prems" by (auto simp: bulk_head.simps [of m p v n])
  qed
qed

lemma bulk_words_fill:
  "bulk_words m p 0 n = (m', p', n') \<Longrightarrow> filled m' p' 0 n' = filled m p 0 n"
proof (induction m p "0 :: u64" n rule: bulk_words.induct)
  case (1 m p n)
  show ?case
  proof (cases "8 \<le> n")
    case True
    then have "bulk_words (write64 m p 0) (p + 8) 0 (n - 8) = (m', p', n')"
      using "1.prems" by (simp add: bulk_words.simps [of m p 0 n])
    then have "filled m' p' 0 n' = filled (write64 m p 0) (p + 8) 0 (n - 8)"
      by (rule "1.hyps" [OF True])
    moreover have "unat (8 :: u64) + unat (n - 8) < 2 ^ 64"
      using True unat_lt64 [of n] by (simp add: unat_sub word_le_nat_alt)
    ultimately show ?thesis by (simp add: write64_zero filled_add)
  next
    case False
    then show ?thesis using "1.prems" by (auto simp: bulk_words.simps [of m p 0 n])
  qed
qed

lemma membulkset_zero: "membulkset m p 0 n = filled m p 0 n"
proof -
  obtain m1 p1 n1 where 1: "bulk_head m p 0 n = (m1, p1, n1)" by (metis prod_cases3)
  obtain m2 p2 n2 where 2: "bulk_words m1 p1 0 n1 = (m2, p2, n2)" by (metis prod_cases3)
  show ?thesis
    using bulk_head_fill [OF 1] bulk_words_fill [OF 2] 1 2
    by (simp add: membulkset_def bulk_tail_fill)
qed

section \<open>Freeing\<close>

lemma clear_run_segments [simp]:
  "segments (snd (clear_run g i n f s)) = segments s"
  "bitmap (snd (clear_run g i n f s)) = bitmap s"
  by (induction g i n f s rule: clear_run.induct,
      subst clear_run.simps, simp add: bitmap_clear_def Let_def)+

lemma clear_run_test:
  "bitmap_test (snd (clear_run g i n f s)) j \<longleftrightarrow> bitmap_test s j \<and> \<not> (i \<le> j - g \<and> j - g < n)"
proof (induction g i n f s rule: clear_run.induct)
  case (1 g i n f s)
  have same: "bitmap_test (s\<lparr>failed_free_count := c\<rparr>) j = bitmap_test s j" for c
    by (rule bitmap_test_cong) simp_all
  show ?case
  proof (cases "i < n")
    case True
    show ?thesis
    proof (cases "bitmap_test s (g + i)")
      case set: True
      have "bitmap_test (snd (clear_run g i n f s)) j \<longleftrightarrow>
          bitmap_test (snd (clear_run g (i + 1) n (f + PAGE_SIZE) (bitmap_clear (g + i) s))) j"
        using True set by (simp add: clear_run.simps [of g i n f s])
      also have "\<dots> \<longleftrightarrow> bitmap_test s j \<and> \<not> (i \<le> j - g \<and> j - g < n)"
        using True set by (auto simp: "1.IH"(1) le_offset_step [OF True])
      finally show ?thesis .
    next
      case clear: False
      have "bitmap_test (snd (clear_run g i n f s)) j \<longleftrightarrow>
          bitmap_test (snd (clear_run g (i + 1) n f
            (s\<lparr>failed_free_count := failed_free_count s + 1\<rparr>))) j"
        using True clear by (simp add: clear_run.simps [of g i n f s])
      also have "\<dots> \<longleftrightarrow> bitmap_test s j \<and> \<not> (i \<le> j - g \<and> j - g < n)"
        using True clear by (auto simp: "1.IH"(2) same le_offset_step [OF True])
      finally show ?thesis .
    qed
  next
    case False
    then show ?thesis by (auto simp: clear_run.simps [of g i n f s] dest: le_less_trans)
  qed
qed

text \<open>Clearing a run that is in use frees every page of it.\<close>

lemma clear_run_freed:
  assumes "\<And>k. i \<le> k \<Longrightarrow> k < n \<Longrightarrow> bitmap_test s (g + k)" and "i \<le> n"
  shows "fst (clear_run g i n f s) = f + (n - i) * PAGE_SIZE"
  using assms
proof (induction g i n f s rule: clear_run.induct)
  case (1 g i n f s)
  show ?case
  proof (cases "i < n")
    case True
    note le = word_Suc_le [OF True]
    have set: "bitmap_test s (g + i)" using "1.prems"(1) True by simp
    have "bitmap_test (bitmap_clear (g + i) s) (g + k)" if "i + 1 \<le> k" "k < n" for k
    proof -
      have "i \<le> k" "k \<noteq> i" using that le by (auto simp: word_le_nat_alt)
      with "1.prems"(1) that show ?thesis by simp
    qed
    then have "fst (clear_run g (i + 1) n (f + PAGE_SIZE) (bitmap_clear (g + i) s)) =
        f + PAGE_SIZE + (n - (i + 1)) * PAGE_SIZE"
      using le by (intro "1.IH"(1) [OF True set]) auto
    with True set show ?thesis
      by (simp add: clear_run.simps [of g i n f s] algebra_simps)
  next
    case False
    then have "i = n" using "1.prems"(2) by simp
    then show ?thesis by (simp add: clear_run.simps [of g n n f s])
  qed
qed

text \<open>An address above every segment is in none of them.\<close>

lemma find_segment_high:
  assumes "\<And>k. k < MAX_SEGMENTS \<Longrightarrow> seg_live (segments s ! k) \<Longrightarrow>
      seg_base (segments s ! k) + seg_length (segments s ! k) \<le> addr"
  shows "find_segment s addr i off = None"
  using assms
proof (induction s addr i off rule: find_segment.induct)
  case (1 s addr i off)
  have "\<not> addr < seg_base (segments s ! i) + seg_length (segments s ! i)"
    if "i < MAX_SEGMENTS" "seg_live (segments s ! i)"
    using "1.prems" [OF that] by (simp add: not_less)
  with 1 show ?case
    by (subst find_segment.simps) (auto simp: Let_def seg_live_def)
qed

section \<open>Initialisation\<close>

text \<open>
  What the boot protocol promises of the memory map: no entry wraps around the address
  space, entries do not overlap, and together they describe less than \<open>2 ^ 64\<close> bytes.
\<close>

definition entry_disjoint :: "memmap_entry \<Rightarrow> memmap_entry \<Rightarrow> bool" where
  "entry_disjoint a b \<longleftrightarrow>
     unat (e_base a) + unat (e_length a) \<le> unat (e_base b) \<or>
     unat (e_base b) + unat (e_length b) \<le> unat (e_base a)"

fun memmap_ok :: "memmap_entry list \<Rightarrow> bool" where
  "memmap_ok [] = True"
| "memmap_ok (e # es) \<longleftrightarrow>
     unat (e_base e) + unat (e_length e) < 2 ^ 64 \<and>
     (\<forall>e' \<in> set es. entry_disjoint e e') \<and> memmap_ok es"

definition memmap_bytes :: "memmap_entry list \<Rightarrow> nat" where
  "memmap_bytes es = (\<Sum>e\<leftarrow>es. unat (e_length e))"

text \<open>Segments cover their entry from the first mebibyte up.\<close>

definition seg_within :: "segment \<Rightarrow> memmap_entry \<Rightarrow> bool" where
  "seg_within seg e \<longleftrightarrow>
     unat (e_base e) \<le> unat (seg_base seg) \<and>
     unat (seg_base seg) + unat (seg_length seg) \<le> unat (e_base e) + unat (e_length e)"

definition new_segment :: "memmap_entry \<Rightarrow> segment" where
  "new_segment e = \<lparr>seg_base = clip_base e, seg_length = clip_length e,
     seg_is_bitmap = False, seg_remaining = clip_length e\<rparr>"

lemma new_segment_within:
  assumes "clip_length e \<noteq> 0"
  shows "seg_within (new_segment e) e" and "0x100000 \<le> unat (clip_base e)"
    and "unat (clip_length e) \<le> unat (e_length e)"
proof -
  have "seg_within (new_segment e) e \<and> 0x100000 \<le> unat (clip_base e) \<and>
      unat (clip_length e) \<le> unat (e_length e)"
  proof (cases "e_base e < MIN_ALLOC_ADDR")
    case True
    let ?d = "MIN_ALLOC_ADDR - e_base e"
    from True assms have lt: "?d < e_length e" by (auto simp: clip_length_def split: if_splits)
    have d: "unat ?d = 0x100000 - unat (e_base e)"
      using True by (simp add: unat_sub less_imp_le MIN_ALLOC_ADDR_def)
    have "clip_length e = e_length e - ?d" using True lt by (simp add: clip_length_def)
    then have "unat (clip_length e) = unat (e_length e) - unat ?d"
      using lt by (simp add: unat_sub less_imp_le)
    with True lt d show ?thesis
      by (simp add: seg_within_def new_segment_def clip_base_def word_less_nat_alt
          MIN_ALLOC_ADDR_def)
  next
    case False
    then show ?thesis
      by (simp add: seg_within_def new_segment_def clip_base_def clip_length_def
          word_less_nat_alt MIN_ALLOC_ADDR_def)
  qed
  then show "seg_within (new_segment e) e" "0x100000 \<le> unat (clip_base e)"
    "unat (clip_length e) \<le> unat (e_length e)" by auto
qed

text \<open>The invariant of the memory-map loop.\<close>

definition seg_total :: "segment list \<Rightarrow> nat \<Rightarrow> nat" where
  "seg_total segs n = (\<Sum>i<n. unat (seg_length (segs ! i)))"

definition map_inv :: "memmap_entry list \<Rightarrow> nat \<times> 'a pmm_scheme \<Rightarrow> bool" where
  "map_inv es = (\<lambda>(created, s).
     created \<le> MAX_SEGMENTS \<and> segments_wf (segments s) \<and>
     (\<forall>i<MAX_SEGMENTS. created \<le> i \<longrightarrow> seg_length (segments s ! i) = 0) \<and>
     (\<forall>i<MAX_SEGMENTS. \<not> seg_is_bitmap (segments s ! i)) \<and>
     (\<forall>e \<in> set es. \<forall>i<created. \<exists>d. entry_disjoint d e \<and> seg_within (segments s ! i) d) \<and>
     unat (total_mem s) = seg_total (segments s) MAX_SEGMENTS \<and>
     seg_total (segments s) MAX_SEGMENTS + memmap_bytes es < 2 ^ 64)"

lemma seg_total_update:
  assumes "i < MAX_SEGMENTS" and "length segs = MAX_SEGMENTS" and "seg_length (segs ! i) = 0"
  shows "seg_total (segs[i := x]) MAX_SEGMENTS = seg_total segs MAX_SEGMENTS + unat (seg_length x)"
proof -
  have "seg_total (segs[i := x]) MAX_SEGMENTS =
      (\<Sum>k\<in>{..<MAX_SEGMENTS}. unat (seg_length (segs ! k)) + (if k = i then unat (seg_length x) else 0))"
    unfolding seg_total_def using assms by (intro sum.cong) (auto simp: nth_list_update)
  also have "\<dots> = seg_total segs MAX_SEGMENTS + unat (seg_length x)"
    using assms(1) by (simp add: sum.distrib seg_total_def sum.delta)
  finally show ?thesis .
qed

lemma segments_wf_update:
  assumes "segments_wf segs" and "i < MAX_SEGMENTS"
    and "0x100000 \<le> unat (seg_base x)" and "unat (seg_base x) + unat (seg_length x) < 2 ^ 64"
    and "\<And>j. j < MAX_SEGMENTS \<Longrightarrow> j \<noteq> i \<Longrightarrow> seg_length (segs ! j) \<noteq> 0 \<Longrightarrow> seg_disjoint (segs ! j) x"
  shows "segments_wf (segs[i := x])"
proof -
  have "seg_disjoint a b \<longleftrightarrow> seg_disjoint b a" for a b by (auto simp: seg_disjoint_def)
  with assms show ?thesis unfolding segments_wf_def by (auto simp: nth_list_update)
qed

lemma add_entry_inv:
  assumes "map_inv (e # es) cs" and "memmap_ok (e # es)"
  shows "map_inv es (add_entry usable e cs)"
proof -
  obtain c s where cs: "cs = (c, s)" by (cases cs)
  let ?s1 = "s\<lparr>total_addrspace := total_addrspace s + e_length e\<rparr>"
  have weak: "map_inv es (c, ?s1)"
    using assms(1) by (auto simp: cs map_inv_def memmap_bytes_def)
  show ?thesis
  proof (cases "e_type e \<noteq> usable \<or> MAX_SEGMENTS \<le> c \<or> clip_length e = 0")
    case True
    with weak show ?thesis by (auto simp: cs add_entry_def Let_def)
  next
    case False
    then have c: "c < MAX_SEGMENTS" and l: "clip_length e \<noteq> 0" by auto
    let ?x = "new_segment e" and ?segs = "segments s"
    note within = new_segment_within [OF l]
    have x: "seg_base ?x = clip_base e" "seg_length ?x = clip_length e" "\<not> seg_is_bitmap ?x"
      by (simp_all add: new_segment_def)
    have wf: "segments_wf ?segs" and zero: "\<And>i. i < MAX_SEGMENTS \<Longrightarrow> c \<le> i \<Longrightarrow> seg_length (?segs ! i) = 0"
      and old: "\<And>i. i < c \<Longrightarrow> \<exists>d. entry_disjoint d e \<and> seg_within (?segs ! i) d"
      and bm: "\<And>i. i < MAX_SEGMENTS \<Longrightarrow> \<not> seg_is_bitmap (?segs ! i)"
      and tot: "unat (total_mem s) = seg_total ?segs MAX_SEGMENTS"
      and fit: "seg_total ?segs MAX_SEGMENTS + unat (e_length e) + memmap_bytes es < 2 ^ 64"
      and later: "\<And>e' i. e' \<in> set es \<Longrightarrow> i < c \<Longrightarrow> \<exists>d. entry_disjoint d e' \<and> seg_within (?segs ! i) d"
      using assms(1) by (auto simp: cs map_inv_def memmap_bytes_def)
    have len: "length ?segs = MAX_SEGMENTS" using wf by (simp add: segments_wf_def)
    have "segments_wf (?segs[c := ?x])"
    proof (rule segments_wf_update [OF wf c])
      show "0x100000 \<le> unat (seg_base ?x)" using within x by simp
      show "unat (seg_base ?x) + unat (seg_length ?x) < 2 ^ 64"
        using within(1) assms(2) by (simp add: seg_within_def)
      fix j assume j: "j < MAX_SEGMENTS" "j \<noteq> c" "seg_length (?segs ! j) \<noteq> 0"
      with zero have "j < c" by (metis not_le_imp_less)
      with old obtain d where "entry_disjoint d e" "seg_within (?segs ! j) d" by blast
      with within(1) show "seg_disjoint (?segs ! j) ?x"
        by (auto simp: entry_disjoint_def seg_within_def seg_disjoint_def)
    qed
    moreover have tot': "seg_total (?segs[c := ?x]) MAX_SEGMENTS =
        seg_total ?segs MAX_SEGMENTS + unat (clip_length e)"
      using seg_total_update [OF c len zero [OF c order_refl], of ?x] x by simp
    moreover have "unat (total_mem s + clip_length e) =
        seg_total ?segs MAX_SEGMENTS + unat (clip_length e)"
      using tot fit within(3) by (subst unat_add_nowrap) simp_all
    moreover have "\<exists>d. entry_disjoint d e' \<and> seg_within (?segs[c := ?x] ! i) d"
      if "e' \<in> set es" "i < Suc c" for e' i
      using that later [of e' i] within(1) assms(2) len c by (cases "i = c") auto
    ultimately have "map_inv es (Suc c, ?s1\<lparr>segments := ?segs[c := ?x],
        total_mem := total_mem s + clip_length e\<rparr>)"
      using c zero bm fit within(3) x len by (auto simp: map_inv_def nth_list_update)
    with False show ?thesis by (simp add: cs add_entry_def Let_def new_segment_def)
  qed
qed

lemma fold_add_entry_inv:
  "map_inv es cs \<Longrightarrow> memmap_ok es \<Longrightarrow> map_inv [] (fold (add_entry usable) es cs)"
proof (induction es arbitrary: cs)
  case (Cons e es)
  then have "map_inv es (add_entry usable e cs)" by (intro add_entry_inv)
  with Cons show ?case by simp
qed simp

lemma add_entry_bitmap:
  "bitmap (snd (fold (add_entry usable) es cs)) = bitmap (snd cs)"
proof (induction es arbitrary: cs)
  case (Cons e es)
  have "bitmap (snd (add_entry usable e cs)) = bitmap (snd cs)"
    by (cases cs) (simp add: add_entry_def Let_def)
  with Cons show ?case by simp
qed simp

lemma best_segment:
  assumes "fold (better_segment segs z) is best = Some b"
    and "\<And>b'. best = Some b' \<Longrightarrow> b' < MAX_SEGMENTS \<and> z \<le> seg_length (segs ! b')"
    and "\<And>i. i \<in> set is \<Longrightarrow> i < MAX_SEGMENTS"
  shows "b < MAX_SEGMENTS \<and> z \<le> seg_length (segs ! b)"
  using assms
proof (induction "is" arbitrary: best)
  case (Cons i "is")
  have "b' < MAX_SEGMENTS \<and> z \<le> seg_length (segs ! b')"
    if "better_segment segs z i best = Some b'" for b'
    using that Cons.prems(2) [of b'] Cons.prems(3) [of i]
    by (simp add: better_segment_def split: if_splits option.splits)
  then show ?case using Cons.prems(1,3) by (intro Cons.IH [of "better_segment segs z i best"]) auto
qed simp

lemma seg_off_total: "seg_off segs n \<le> seg_total segs n div 4096"
proof (induction n)
  case (Suc n)
  have "seg_off segs (Suc n) \<le> seg_total segs n div 4096 + unat (seg_length (segs ! n)) div 4096"
    using Suc by (simp add: seg_pages_def)
  also have "\<dots> \<le> (seg_total segs n + unat (seg_length (segs ! n))) div 4096" by linarith
  also have "\<dots> = seg_total segs (Suc n) div 4096" by (simp add: seg_total_def)
  finally show ?case .
qed simp

lemma bitmap_bytes_enough: "(n :: nat) div 4096 \<le> 8 * (n div 8)"
  by linarith

definition mark_bitmap :: "segment list \<Rightarrow> nat \<Rightarrow> segment list" where
  "mark_bitmap segs b = segs[b := (segs ! b)\<lparr>seg_is_bitmap := True\<rparr>]"

lemma mark_bitmap_wf:
  assumes "segments_wf segs"
  shows "segments_wf (mark_bitmap segs b)"
    and "seg_total (mark_bitmap segs b) n = seg_total segs n"
proof -
  have l: "seg_length (mark_bitmap segs b ! i) = seg_length (segs ! i)"
    "seg_base (mark_bitmap segs b ! i) = seg_base (segs ! i)" for i
    by (cases "b < length segs"; cases "b = i"; simp add: mark_bitmap_def list_update_beyond)+
  have "length (mark_bitmap segs b) = length segs" by (simp add: mark_bitmap_def)
  with assms l show "segments_wf (mark_bitmap segs b)"
    by (simp add: segments_wf_def seg_disjoint_def)
  show "seg_total (mark_bitmap segs b) n = seg_total segs n" by (simp add: seg_total_def l)
qed

lemma zero_bitmap_free:
  assumes "mem s = filled m (bitmap s) 0 (bitmap_size s)"
    and "seg_off (segments s) MAX_SEGMENTS \<le> 8 * unat (bitmap_size s)"
  shows "\<not> frame_used s a"
proof
  assume "frame_used s a"
  then obtain i j where f: "frame_at (segments s) i j a"
    and t: "bitmap_test s (of_nat (seg_off (segments s) i + j))" by (auto simp: frame_used_def)
  let ?x = "seg_off (segments s) i + j"
  have b: "?x < seg_off (segments s) MAX_SEGMENTS" "?x < 2 ^ 64"
    using page_index_bound f by (auto simp: frame_at_def)
  have "unat (of_nat ?x div 8 :: u64) < unat (bitmap_size s)"
    using b assms(2) unat_of_nat64 [OF b(2)] by (simp add: unat_div)
  then have "in_region (bitmap s) (bitmap_size s) (bitmap s + of_nat ?x div 8)"
    by (simp add: word_less_nat_alt)
  then have "mem s (bitmap s + of_nat ?x div 8) = 0" by (simp add: assms(1) filled_def)
  with t show False by (simp add: bitmap_test_bit)
qed

lemma prepare_bitmap_wf:
  assumes "map_inv [] (c, s)" and "bitmap s = 0"
  shows "pmm_wf (prepare_bitmap (total_mem s) s)"
    and "bitmap (prepare_bitmap (total_mem s) s) \<noteq> 0 \<Longrightarrow>
      \<not> frame_used (prepare_bitmap (total_mem s) s) a"
proof -
  let ?z = "total_mem s div 8"
  let ?best = "fold (better_segment (segments s) ?z) [0..<MAX_SEGMENTS] None"
  have wf: "segments_wf (segments s)" and tot: "unat (total_mem s) = seg_total (segments s) MAX_SEGMENTS"
    using assms(1) by (auto simp: map_inv_def)
  have z: "unat ?z = seg_total (segments s) MAX_SEGMENTS div 8"
    using tot by (simp add: unat_div)
  have "pmm_wf (prepare_bitmap (total_mem s) s) \<and>
      (bitmap (prepare_bitmap (total_mem s) s) \<noteq> 0 \<longrightarrow>
        (\<forall>a. \<not> frame_used (prepare_bitmap (total_mem s) s) a))"
  proof (cases ?best)
    case None
    then show ?thesis using wf assms(2) by (simp add: prepare_bitmap_def pmm_wf_def bitmap_wf_def)
  next
    case (Some b)
    have b: "b < MAX_SEGMENTS" "?z \<le> seg_length (segments s ! b)"
      using best_segment [OF Some] by auto
    have len: "length (segments s) = MAX_SEGMENTS" using wf by (simp add: segments_wf_def)
    define s' where "s' = prepare_bitmap (total_mem s) s"
    have s': "segments s' = mark_bitmap (segments s) b" "bitmap s' = seg_base (segments s ! b)"
      "bitmap_size s' = ?z" "mem s' = filled (mem s) (bitmap s') 0 (bitmap_size s')"
      using Some by (simp_all add: s'_def prepare_bitmap_def Let_def mark_bitmap_def membulkset_zero)
    have "seg_off (segments s') MAX_SEGMENTS \<le> seg_total (segments s) MAX_SEGMENTS div 4096"
      using seg_off_total [of "segments s'" MAX_SEGMENTS] mark_bitmap_wf(2) [OF wf] s'(1) by simp
    also have "\<dots> \<le> 8 * unat (bitmap_size s')" using z s'(3) by (simp add: bitmap_bytes_enough)
    finally have off: "seg_off (segments s') MAX_SEGMENTS \<le> 8 * unat (bitmap_size s')" .
    have "pmm_wf s'"
      using mark_bitmap_wf(1) [OF wf] off b len s'
      by (auto simp: pmm_wf_def bitmap_wf_def mark_bitmap_def intro!: exI [of _ b])
    moreover have "\<not> frame_used s' a" for a by (rule zero_bitmap_free [OF s'(4) off])
    ultimately show ?thesis by (simp add: s'_def)
  qed
  then show "pmm_wf (prepare_bitmap (total_mem s) s)"
    and "bitmap (prepare_bitmap (total_mem s) s) \<noteq> 0 \<Longrightarrow>
      \<not> frame_used (prepare_bitmap (total_mem s) s) a" by auto
qed

text \<open>The state before initialisation: zero-initialised globals.\<close>

definition pmm_fresh :: "'a pmm_scheme \<Rightarrow> bool" where
  "pmm_fresh s \<longleftrightarrow> bitmap s = 0 \<and>
     segments s = replicate MAX_SEGMENTS
       \<lparr>seg_base = 0, seg_length = 0, seg_is_bitmap = False, seg_remaining = 0\<rparr>"

lemma pmm_initialise_establishes:
  fixes s :: "'a pmm_scheme" and usable :: u64
  assumes "pmm_fresh s" and "memmap_ok entries" and "memmap_bytes entries < 2 ^ 64"
    and "entries \<noteq> []"
  defines "s' \<equiv> pmm_initialise usable (Some entries) s"
  shows "pmm_wf s'" and "bitmap s' \<noteq> 0 \<Longrightarrow> \<not> frame_used s' a" and "free_mem s' = total_mem s'"
    and "used_mem s' = 0"
proof -
  let ?s0 = "s\<lparr>total_mem := 0, used_mem := 0, free_mem := 0,
     allocation_count := 0, failed_allocation_count := 0,
     free_count := 0, failed_free_count := 0, total_addrspace := 0\<rparr>"
  obtain c s1 where f: "fold (add_entry usable) entries (0, ?s0) = (c, s1)" by (cases "fold (add_entry usable) entries (0, ?s0)")
  have "map_inv entries (0, ?s0)"
    using assms(1,3) by (auto simp: map_inv_def pmm_fresh_def segments_wf_def seg_total_def)
  then have inv: "map_inv [] (c, s1)"
    using fold_add_entry_inv [of entries "(0, ?s0)"] assms(2) f by metis
  have bm: "bitmap s1 = 0"
    using add_entry_bitmap [of usable entries "(0, ?s0)"] assms(1) f by (simp add: pmm_fresh_def)
  let ?s2 = "prepare_bitmap (total_mem s1) s1"
  have s': "s' = ?s2\<lparr>total_pages := total_mem ?s2 div PAGE_SIZE, free_mem := total_mem ?s2\<rparr>"
    using assms(4) f by (cases entries) (auto simp: s'_def pmm_initialise_def Let_def)
  show "pmm_wf s'"
    using prepare_bitmap_wf(1) [OF inv bm] by (simp add: s' pmm_wf_def bitmap_wf_def)
  show "\<not> frame_used s' a" if "bitmap s' \<noteq> 0"
    using prepare_bitmap_wf(2) [OF inv bm, of a] that
    by (simp add: s' frame_used_def bitmap_test_def)
  show "free_mem s' = total_mem s'" by (simp add: s')
  have u: "used_mem (snd (fold (add_entry usable) es cs)) = used_mem (snd cs)"
    for es and cs :: "nat \<times> 'a pmm_scheme"
  proof (induction es arbitrary: cs)
    case (Cons e es)
    have "used_mem (snd (add_entry usable e cs)) = used_mem (snd cs)"
      by (cases cs) (simp add: add_entry_def Let_def)
    with Cons show ?case by simp
  qed simp
  have "used_mem s1 = 0" using u [of entries "(0, ?s0)"] f by simp
  then show "used_mem s' = 0"
    by (simp add: s' prepare_bitmap_def Let_def split: option.splits)
qed

section \<open>Sequences of requests\<close>

lemma seg_same_refl [simp]: "seg_same xs xs"
  by (simp add: seg_same_def)

lemma serve_segments:
  assumes "pmm_wf s" and "serve pmm_call_run rs s = (gs, s')"
  shows "seg_same (segments s') (segments s) \<and> bitmap s' = bitmap s \<and> bitmap_size s' = bitmap_size s"
  using assms
proof (induction rs arbitrary: s gs)
  case (Cons r rs)
  obtain p s1 gs1 where 1: "pmm_call_run r s = (p, s1)" "serve pmm_call_run rs s1 = (gs1, s')"
    using Cons.prems(2) by (auto split: prod.splits)
  have "seg_same (segments s1) (segments s) \<and> bitmap s1 = bitmap s \<and> bitmap_size s1 = bitmap_size s"
    using Cons.prems(1) 1(1)
    by (cases rule: pmm_call_result) (simp_all add: commit_run_segments seg_same_refl refused_state)
  moreover have "seg_same (segments s') (segments s1) \<and> bitmap s' = bitmap s1 \<and> bitmap_size s' = bitmap_size s1"
    using Cons.IH [OF pmm_src.request_wf [OF Cons.prems(1) 1(1)] 1(2)] .
  ultimately show ?case by (auto simp: seg_same_def)
qed (simp add: seg_same_def)

lemma frame_off_bitmap:
  assumes "pmm_wf s" and "bitmap s \<noteq> 0" and "frame_managed s a"
  shows "sep a PAGE_SIZE (bitmap s) (bitmap_size s)"
proof -
  obtain i j where f: "frame_at (segments s) i j a" using assms(3) by (auto simp: frame_managed_def)
  obtain b where b: "b < MAX_SEGMENTS" "seg_is_bitmap (segments s ! b)"
    "bitmap s = seg_base (segments s ! b)" "bitmap_size s \<le> seg_length (segments s ! b)"
    using assms(1,2) by (auto simp: pmm_wf_def bitmap_wf_def)
  have wf: "segments_wf (segments s)" using assms(1) by (simp add: pmm_wf_def)
  show ?thesis
  proof (cases "bitmap_size s = 0")
    case True
    then show ?thesis by (simp add: sep_def)
  next
    case False
    with b(4) have len: "seg_length (segments s ! b) \<noteq> 0" by auto
    have "i \<noteq> b" using f b(2) by (auto simp: frame_at_def seg_live_def)
    then have "seg_disjoint (segments s ! i) (segments s ! b)"
      using wf f b(1) len by (auto simp: segments_wf_def frame_at_def seg_live_def)
    moreover have "unat (bitmap s) + unat (bitmap_size s) \<le>
        unat (seg_base (segments s ! b)) + unat (seg_length (segments s ! b))"
      "unat (seg_base (segments s ! b)) + unat (seg_length (segments s ! b)) < 2 ^ 64"
      "unat (seg_base (segments s ! i)) + unat (seg_length (segments s ! i)) < 2 ^ 64"
      using b(3,4) wf b(1) len f
      by (auto simp: word_le_nat_alt segments_wf_def frame_at_def seg_live_def)
    ultimately have "unat a + unat PAGE_SIZE \<le> unat (bitmap s) \<and> unat (bitmap s) + unat (bitmap_size s) \<le> 2 ^ 64 \<or>
        unat (bitmap s) + unat (bitmap_size s) \<le> unat a \<and> unat a + unat PAGE_SIZE \<le> 2 ^ 64"
      using frame_addr [OF wf f] b(3) unfolding seg_disjoint_def
      by (auto simp: PAGE_SIZE_def)
    then show ?thesis using sep_nat sep_sym by blast
  qed
qed

lemma granted_managed:
  assumes "pmm_wf s" and "pmm_call_run r s = (p, s')" and "a \<in> run_frames p (pmm_call_pages r)"
  shows "frame_managed s a"
  using assms(1,2)
proof (cases rule: pmm_call_result)
  case (granted i k)
  then obtain m where "m < unat (pmm_call_pages r)"
    "a = seg_base (segments s ! i) + of_nat (k + m) * PAGE_SIZE"
    using assms(3) run_frames_granted [OF granted(4,2)] by (auto simp: run_frame_addr)
  then show ?thesis using fits_frame [OF granted(1)] by (auto simp: frame_managed_def)
next
  case refused
  with assms(3) show ?thesis by (simp add: run_frames_def)
qed

lemma seg_same_managed:
  assumes "seg_same (segments s') (segments s)" and "length (segments s) = MAX_SEGMENTS"
  shows "frame_managed s' a = frame_managed s a"
  using seg_same_frame_at [OF assms] by (simp add: frame_managed_def)

lemma serve_managed:
  assumes "pmm_wf s" and "serve pmm_call_run rs s = (gs, s')" and "(p, r) \<in> set gs"
    and "a \<in> run_frames p (pmm_call_pages r)"
  shows "frame_managed s a"
  using assms
proof (induction rs arbitrary: s gs)
  case (Cons r' rs)
  obtain q s1 gs1 where 1: "pmm_call_run r' s = (q, s1)" "serve pmm_call_run rs s1 = (gs1, s')"
    "gs = (q, r') # gs1"
    using Cons.prems(2) by (auto split: prod.splits)
  have "serve pmm_call_run [r'] s = ([(q, r')], s1)" using 1(1) by simp
  then have "seg_same (segments s1) (segments s)" using serve_segments [OF Cons.prems(1)] by blast
  then have same: "frame_managed s1 a = frame_managed s a"
    using Cons.prems(1) by (intro seg_same_managed) (auto simp: pmm_wf_def segments_wf_def)
  show ?case
  proof (cases "(p, r) = (q, r')")
    case True
    then show ?thesis using granted_managed [OF Cons.prems(1) 1(1)] Cons.prems(4) by simp
  next
    case False
    then have "(p, r) \<in> set gs1" using Cons.prems(3) 1(3) by auto
    then show ?thesis
      using Cons.IH [OF pmm_src.request_wf [OF Cons.prems(1) 1(1)] 1(2)] Cons.prems(4) same by simp
  qed
qed simp

text \<open>Accounting: the bytes in use are the frames in use.\<close>

definition used_frames :: "'a pmm_scheme \<Rightarrow> u64 set" where
  "used_frames s = {a. frame_used s a}"

definition accounted :: "'a pmm_scheme \<Rightarrow> bool" where
  "accounted s \<longleftrightarrow>
     used_mem s = PAGE_SIZE * of_nat (card (used_frames s)) \<and>
     used_mem s + free_mem s = total_mem s"

lemma card_run_frames:
  assumes "segments_wf (segments s)" and "fits s (unat n) i k"
    and "p = seg_base (segments s ! i) + of_nat k * PAGE_SIZE" and "p \<noteq> 0"
  shows "card (run_frames p n) = unat n"
proof -
  have "inj_on (\<lambda>m. p + of_nat m * PAGE_SIZE) {..<unat n}"
  proof
    fix x y assume xy: "x \<in> {..<unat n}" "y \<in> {..<unat n}"
      "p + of_nat x * PAGE_SIZE = p + of_nat y * PAGE_SIZE"
    then have "frame_at (segments s) i (k + x) (p + of_nat x * PAGE_SIZE)"
      "frame_at (segments s) i (k + y) (p + of_nat x * PAGE_SIZE)"
      using fits_frame [OF assms(2), of x] fits_frame [OF assms(2), of y]
      unfolding assms(3) run_frame_addr by (metis lessThan_iff)+
    then have "k + x = k + y" by (rule frame_inj(2) [OF assms(1)])
    then show "x = y" by simp
  qed
  then show ?thesis using assms(4) by (simp add: run_frames_def card_image)
qed

lemma finite_words [simp]: "finite (A :: u64 set)"
  by (rule finite_subset [OF subset_UNIV]) simp

lemma pmm_call_accounted:
  assumes "pmm_wf s" and "pmm_call_run r s = (p, s')" and "accounted s"
  shows "accounted s'"
  using assms(1,2)
proof (cases rule: pmm_call_result)
  case (granted i k)
  let ?n = "pmm_call_pages r"
  have wf: "segments_wf (segments s)" using assms(1) by (simp add: pmm_wf_def)
  have un: "used_frames s' = used_frames s \<union> run_frames p ?n"
    using pmm_src.request_used [OF assms(1,2)] by (auto simp: used_frames_def)
  have "used_frames s \<inter> run_frames p ?n = {}"
    using pmm_src.request_fresh [OF assms(1,2)] by (auto simp: used_frames_def)
  then have "card (used_frames s') = card (used_frames s) + unat ?n"
    unfolding un using card_run_frames [OF wf granted(1,4,2)] by (simp add: card_Un_disjoint)
  then have "PAGE_SIZE * of_nat (card (used_frames s')) = used_mem s + ?n * PAGE_SIZE"
    using assms(3) by (simp add: accounted_def algebra_simps)
  moreover have "used_mem s' = used_mem s + ?n * PAGE_SIZE" "total_mem s' = total_mem s"
    "free_mem s' = free_mem s - ?n * PAGE_SIZE"
    by (simp_all add: granted(5))
  ultimately show ?thesis using assms(3) by (auto simp: accounted_def)
next
  case refused
  then show ?thesis using assms(3) by (auto simp: accounted_def used_frames_def refused_state)
qed

lemma serve_accounted:
  "pmm_wf s \<Longrightarrow> accounted s \<Longrightarrow> serve pmm_call_run rs s = (gs, s') \<Longrightarrow> accounted s'"
proof (induction rs arbitrary: s gs)
  case (Cons r rs)
  obtain p s1 gs1 where "pmm_call_run r s = (p, s1)" "serve pmm_call_run rs s1 = (gs1, s')"
    using Cons.prems(3) by (auto split: prod.splits)
  then show ?case using Cons pmm_src.request_wf pmm_call_accounted by metis
qed simp

lemma initialise_accounted:
  assumes "pmm_fresh s" and "memmap_ok es" and "memmap_bytes es < 2 ^ 64" and "es \<noteq> []"
    and "bitmap (pmm_initialise usable (Some es) s) \<noteq> 0"
  shows "accounted (pmm_initialise usable (Some es) s)"
  using pmm_initialise_establishes(2,3,4) [OF assms(1-4), of usable] assms(5)
  by (simp add: accounted_def used_frames_def)

section \<open>Single frames, for the page tables\<close>

lemma set_run_form: "\<exists>m. set_run g k n s = s\<lparr>mem := m\<rparr>"
proof (induction g k n s rule: set_run.induct)
  case (1 g k n s)
  show ?case
  proof (cases "k < n")
    case True
    then obtain m where "set_run g (k + 1) n (bitmap_set (g + k) s) = bitmap_set (g + k) s\<lparr>mem := m\<rparr>"
      using 1 by blast
    with True show ?thesis by (auto simp: set_run.simps [of g k n s] bitmap_set_def Let_def)
  next
    case False
    then have "set_run g k n s = s\<lparr>mem := mem s\<rparr>" by (simp add: set_run.simps [of g k n s])
    then show ?thesis by blast
  qed
qed

lemma pmm_call_form:
  assumes "pmm_wf s" and "pmm_call_run r s = (p, s')"
  shows "\<exists>m sg um fm ac fc. s' = s\<lparr>mem := m, segments := sg, used_mem := um, free_mem := fm,
     allocation_count := ac, failed_allocation_count := fc\<rparr>"
  using assms
proof (cases rule: pmm_call_result)
  case (granted i k)
  obtain m where "set_run (of_nat (seg_off (segments s) i + k)) 0 (pmm_call_pages r) s = s\<lparr>mem := m\<rparr>"
    using set_run_form by blast
  with granted(5) have "s' = s\<lparr>mem := m, segments := segments s', used_mem := used_mem s',
     free_mem := free_mem s', allocation_count := allocation_count s',
     failed_allocation_count := failed_allocation_count s\<rparr>"
    by (simp add: commit_run_def Let_def)
  then show ?thesis by blast
next
  case (refused c)
  then have "s' = s\<lparr>mem := mem s, segments := segments s, used_mem := used_mem s,
     free_mem := free_mem s, allocation_count := allocation_count s, failed_allocation_count := c\<rparr>"
    by simp
  then show ?thesis by blast
qed

lemma pmm_call_same:
  assumes "pmm_wf s" and "pmm_call_run r s = (p, s')"
  shows "seg_same (segments s') (segments s)" "bitmap s' = bitmap s" "bitmap_size s' = bitmap_size s"
    "frame_managed s' a = frame_managed s a"
proof -
  have "serve pmm_call_run [r] s = ([(p, r)], s')" using assms(2) by simp
  then show same: "seg_same (segments s') (segments s)" "bitmap s' = bitmap s"
    "bitmap_size s' = bitmap_size s"
    using serve_segments [OF assms(1)] by blast+
  show "frame_managed s' a = frame_managed s a"
    using assms(1) by (intro seg_same_managed [OF same(1)]) (simp add: pmm_wf_def segments_wf_def)
qed

definition free_frames :: "'a pmm_scheme \<Rightarrow> u64 set" where
  "free_frames s = {a. frame_managed s a \<and> \<not> frame_used s a}"

lemma free_frame_fits:
  assumes "a \<in> free_frames s"
  shows "\<exists>i k. fits s 1 i k"
proof -
  obtain i k where f: "frame_at (segments s) i k a" using assms by (auto simp: free_frames_def frame_managed_def)
  then have "\<not> bitmap_test s (of_nat (seg_off (segments s) i + k))"
    using assms by (auto simp: free_frames_def frame_used_def)
  with f have "fits s 1 i k" by (simp add: fits_def run_free_def frame_at_def)
  then show ?thesis by blast
qed

text \<open>As long as a frame is free, asking for one page succeeds and takes one free frame.\<close>

lemma palloc_one:
  assumes "pmm_wf s" and "bitmap s \<noteq> 0" and "free_frames s \<noteq> {}" and r: "palloc 1 s = (p, s')"
  shows "p \<in> free_frames s" and "free_frames s' = free_frames s - {p}" and "p \<noteq> 0"
proof -
  have call: "pmm_call_run (Palloc 1) s = (p, s')" using r by simp
  have "alloc_spec 0 s 1 (p, s')"
    using palloc_spec [of s 1] assms(1,2) by (simp add: r pmm_wf_def)
  moreover have "\<not> (\<forall>i k. \<not> fits s (unat (1 :: u64)) i k)"
    using assms(3) free_frame_fits by fastforce
  ultimately show p: "p \<noteq> 0"
    using alloc_spec_cases [OF assms(1), of 1 p s'] by (metis one_neq_zero)
  then have run: "run_frames p (pmm_call_pages (Palloc 1)) = {p}"
    by (simp add: run_frames_def lessThan_Suc)
  have "frame_managed s p" using granted_managed [OF assms(1) call] run by simp
  moreover have "\<not> frame_used s p" using pmm_src.request_fresh [OF assms(1) call] run by simp
  ultimately show "p \<in> free_frames s" by (simp add: free_frames_def)
  show "free_frames s' = free_frames s - {p}"
    using pmm_src.request_used [OF assms(1) call] run pmm_call_same(4) [OF assms(1) call]
    by (auto simp: free_frames_def)
qed

section \<open>Properties\<close>

text \<open>
  C1. Boot and any later mix of \<open>palloc\<close> and \<open>reserve_heap\<close> requests. From a
  valid firmware memory map, the allocator comes up well formed with every frame free; the runs
  of two granted requests never share a frame; every granted frame is a frame of a usable
  segment and lies apart from the bitmap the allocator keeps in memory; and the byte counters
  the \<open>stat_*\<close> functions report are exactly the frames handed out.
\<close>

theorem boot_allocations_disjoint:
  fixes s0 :: "'a pmm_scheme"
  assumes "pmm_fresh s0" and "memmap_ok es" and "memmap_bytes es < 2 ^ 64" and "es \<noteq> []"
    and "bitmap (pmm_initialise usable (Some es) s0) \<noteq> 0"
    and "serve pmm_call_run rs (pmm_initialise usable (Some es) s0) = (gs, s)"
  shows "pmm_wf s \<and>
    (\<forall>i j. i < j \<and> j < length gs \<longrightarrow>
       run_frames (fst (gs ! i)) (pmm_call_pages (snd (gs ! i))) \<inter>
       run_frames (fst (gs ! j)) (pmm_call_pages (snd (gs ! j))) = {}) \<and>
    (\<forall>(p, r) \<in> set gs. \<forall>a \<in> run_frames p (pmm_call_pages r).
       frame_managed s a \<and> frame_used s a \<and> sep a PAGE_SIZE (bitmap s) (bitmap_size s)) \<and>
    stat_used s = PAGE_SIZE * of_nat (card {a. frame_used s a}) \<and>
    stat_used s + stat_free s = stat_total_mem s"
proof (intro conjI)
  let ?b = "pmm_initialise usable (Some es) s0"
  have wf: "pmm_wf ?b" by (rule pmm_initialise_establishes(1) [OF assms(1-4)])
  show wf': "pmm_wf s" using pmm_src.serve_wf [OF wf assms(6)] .
  show "\<forall>i j. i < j \<and> j < length gs \<longrightarrow>
       run_frames (fst (gs ! i)) (pmm_call_pages (snd (gs ! i))) \<inter>
       run_frames (fst (gs ! j)) (pmm_call_pages (snd (gs ! j))) = {}"
    using pmm_src.serve_disjoint [OF wf assms(6)] by blast
  have same: "seg_same (segments s) (segments ?b)" "bitmap s = bitmap ?b"
    using serve_segments [OF wf assms(6)] by simp_all
  have m: "frame_managed s a = frame_managed ?b a" for a
    using wf by (intro seg_same_managed [OF same(1)]) (simp add: pmm_wf_def segments_wf_def)
  show "\<forall>(p, r) \<in> set gs. \<forall>a \<in> run_frames p (pmm_call_pages r).
       frame_managed s a \<and> frame_used s a \<and> sep a PAGE_SIZE (bitmap s) (bitmap_size s)"
    using serve_managed [OF wf assms(6)] pmm_src.serve_used [OF wf assms(6)]
      frame_off_bitmap [OF wf'] same(2) assms(5) m by fastforce
  have "accounted s" using serve_accounted [OF wf initialise_accounted [OF assms(1-5)] assms(6)] .
  then show "stat_used s = PAGE_SIZE * of_nat (card {a. frame_used s a})"
    "stat_used s + stat_free s = stat_total_mem s"
    by (auto simp: accounted_def used_frames_def stat_used_def stat_free_def stat_total_mem_def)
qed

text \<open>
  A concrete machine: two usable regions and a reserved one, as the boot loader reports them.
\<close>

definition demo_map :: "memmap_entry list" where
  "demo_map = [\<lparr>e_base = 0, e_length = 0x9F000, e_type = 0\<rparr>,
     \<lparr>e_base = 0x9F000, e_length = 0x61000, e_type = 1\<rparr>,
     \<lparr>e_base = 0x100000, e_length = 0x8000, e_type = 0\<rparr>,
     \<lparr>e_base = 0x200000, e_length = 0x60000, e_type = 0\<rparr>,
     \<lparr>e_base = 0x400000, e_length = 0x100000, e_type = 0\<rparr>]"

definition demo_pmm :: pmm where
  "demo_pmm = \<lparr>mem = (\<lambda>_. 0),
     segments = replicate MAX_SEGMENTS
       \<lparr>seg_base = 0, seg_length = 0, seg_is_bitmap = False, seg_remaining = 0\<rparr>,
     bitmap = 0, bitmap_size = 0, total_pages = 0, total_addrspace = 0, total_mem = 0,
     used_mem = 0, free_mem = 0, allocation_count = 0, failed_allocation_count = 0, free_count = 0,
     failed_free_count = 0\<rparr>"

lemma demo_machine:
  "pmm_fresh demo_pmm" "memmap_ok demo_map" "memmap_bytes demo_map < 2 ^ 64" "demo_map \<noteq> []"
  by (simp_all add: pmm_fresh_def demo_pmm_def demo_map_def memmap_bytes_def entry_disjoint_def)

definition demo_segments :: "bool \<Rightarrow> segment list" where
  "demo_segments b = (replicate MAX_SEGMENTS
       \<lparr>seg_base = 0, seg_length = 0, seg_is_bitmap = False, seg_remaining = 0\<rparr>)
     [0 := \<lparr>seg_base = 0x100000, seg_length = 0x8000, seg_is_bitmap = False, seg_remaining = 0x8000\<rparr>,
      1 := \<lparr>seg_base = 0x200000, seg_length = 0x60000, seg_is_bitmap = b, seg_remaining = 0x60000\<rparr>,
      Suc (Suc 0) := \<lparr>seg_base = 0x400000, seg_length = 0x100000, seg_is_bitmap = False, seg_remaining = 0x100000\<rparr>]"

lemma demo_fold:
  assumes "pmm_fresh s"
  shows "snd (fold (add_entry 0) demo_map (0, s)) =
     s\<lparr>total_addrspace := total_addrspace s + 0x268000,
       total_mem := total_mem s + 0x168000, segments := demo_segments False\<rparr>"
  using assms
  by (simp add: add_entry_def clip_base_def clip_length_def demo_map_def MIN_ALLOC_ADDR_def
        MAX_SEGMENTS_def add.assoc pmm_fresh_def demo_segments_def)

lemma demo_best:
  "fold (better_segment (demo_segments False) 0x2D000) [0..<MAX_SEGMENTS] None = Some 1"
  by code_simp

lemma demo_segments_nth:
  "demo_segments b ! 0 =
     \<lparr>seg_base = 0x100000, seg_length = 0x8000, seg_is_bitmap = False, seg_remaining = 0x8000\<rparr>"
  "demo_segments b ! 1 =
     \<lparr>seg_base = 0x200000, seg_length = 0x60000, seg_is_bitmap = b, seg_remaining = 0x60000\<rparr>"
  "demo_segments b ! 2 =
     \<lparr>seg_base = 0x400000, seg_length = 0x100000, seg_is_bitmap = False, seg_remaining = 0x100000\<rparr>"
  "2 < i \<Longrightarrow> i < MAX_SEGMENTS \<Longrightarrow> seg_length (demo_segments b ! i) = 0"
  "length (demo_segments b) = MAX_SEGMENTS"
  by (simp_all add: demo_segments_def MAX_SEGMENTS_def nth_list_update)

lemma demo_boot_state:
  assumes "pmm_fresh s"
  shows "pmm_initialise 0 (Some demo_map) s =
    s\<lparr>mem := filled (mem s) 0x200000 0 0x2D000, segments := demo_segments True,
      bitmap := 0x200000, bitmap_size := 0x2D000, total_pages := 0x168, total_addrspace := 0x268000,
      total_mem := 0x168000, used_mem := 0, free_mem := 0x168000, allocation_count := 0,
      failed_allocation_count := 0, free_count := 0, failed_free_count := 0\<rparr>"
proof -
  let ?s0 = "s\<lparr>total_mem := 0, used_mem := 0, free_mem := 0, allocation_count := 0,
     failed_allocation_count := 0, free_count := 0, failed_free_count := 0, total_addrspace := 0\<rparr>"
  have fresh: "pmm_fresh ?s0" using assms by (simp add: pmm_fresh_def)
  have "(demo_segments False)[Suc 0 := (demo_segments False ! Suc 0)\<lparr>seg_is_bitmap := True\<rparr>] =
      demo_segments True"
    by (simp add: demo_segments_def MAX_SEGMENTS_def eval_nat_numeral)
  then show ?thesis
    using demo_best demo_segments_nth(2) [of False] demo_machine(4)
    by (simp add: pmm_initialise_def prepare_bitmap_def demo_fold [OF fresh] Let_def membulkset_zero
        PAGE_SIZE_def)
qed

lemma demo_boot:
  assumes "pmm_fresh s"
  shows "bitmap (pmm_initialise 0 (Some demo_map) s) = 0x200000"
    "bitmap_size (pmm_initialise 0 (Some demo_map) s) = 0x2D000"
    "segments (pmm_initialise 0 (Some demo_map) s) = demo_segments True"
  by (simp_all add: demo_boot_state [OF assms])

lemma demo_free_frames:
  assumes "pmm_fresh s"
  shows "{0x100000, 0x101000, 0x102000, 0x103000, 0x104000, 0x105000, 0x106000, 0x107000} \<subseteq>
    free_frames (pmm_initialise 0 (Some demo_map) s)"
proof -
  let ?b = "pmm_initialise 0 (Some demo_map) s"
  have "frame_at (segments ?b) 0 j (0x100000 + of_nat j * 0x1000)" if "j < 8" for j
    using that demo_segments_nth(1) [of True]
    by (simp add: demo_boot [OF assms] frame_at_def seg_live_def seg_pages_def PAGE_SIZE_def MAX_SEGMENTS_def)
  then have m: "frame_managed ?b (0x100000 + of_nat j * 0x1000)" if "j < 8" for j
    using that by (auto simp: frame_managed_def)
  have "\<not> frame_used ?b a" for a
    using pmm_initialise_establishes(2) [OF assms demo_machine(2-4)] demo_boot(1) [OF assms] by simp
  then show ?thesis
    using m [of 0] m [of 1] m [of 2] m [of 3] m [of 4] m [of 5] m [of 6] m [of 7]
    by (simp add: free_frames_def)
qed

lemmas demo_bitmap = demo_boot [OF demo_machine(1)]

theorem boot_allocations_disjoint_witness:
  "case serve pmm_call_run [Palloc 3, Reserve_heap 4, Palloc 100]
          (pmm_initialise 0 (Some demo_map) demo_pmm) of
     (gs, s) \<Rightarrow> pmm_wf s \<and> run_frames (fst (gs ! 0)) 3 \<inter> run_frames (fst (gs ! 1)) 4 = {}"
proof -
  let ?rs = "[Palloc 3, Reserve_heap 4, Palloc 100]"
  obtain gs s where r: "serve pmm_call_run ?rs (pmm_initialise 0 (Some demo_map) demo_pmm) = (gs, s)"
    by fastforce
  have g: "length gs = 3" "snd (gs ! 0) = Palloc 3" "snd (gs ! 1) = Reserve_heap 4"
    using r by (auto split: prod.splits)
  note b = boot_allocations_disjoint [OF demo_machine(1-4) _ r]
  have "pmm_wf s" using b demo_bitmap(1) by simp
  moreover have "run_frames (fst (gs ! 0)) (pmm_call_pages (snd (gs ! 0))) \<inter>
      run_frames (fst (gs ! 1)) (pmm_call_pages (snd (gs ! 1))) = {}"
    using b demo_bitmap(1) g(1) by simp
  ultimately show ?thesis unfolding r prod.case using g(2,3) by simp
qed

text \<open>
  C2. \<open>palloc\<close> is first fit and complete: it returns the lowest free run of the
  first segment, in segment order, that has one, marks exactly that run, and fails only when no
  segment has a free run of the length asked for.
\<close>

theorem palloc_first_fit:
  assumes "pmm_wf s" and "bitmap s \<noteq> 0" and "n \<noteq> 0"
  shows "case palloc n s of (p, s') \<Rightarrow>
     if p = 0 then (\<forall>i k. \<not> fits s (unat n) i k) \<and> frame_used s' = frame_used s
     else \<exists>i k. first_fits s (unat n) 0 i k \<and>
            p = seg_base (segments s ! i) + of_nat k * PAGE_SIZE \<and>
            (\<forall>a. frame_used s' a \<longleftrightarrow> frame_used s a \<or> a \<in> run_frames p n)"
proof -
  obtain p s' where r: "palloc n s = (p, s')" by fastforce
  have spec: "alloc_spec 0 s n (p, s')"
    using palloc_spec [of s n] assms by (simp add: r pmm_wf_def)
  have used: "frame_used s' a \<longleftrightarrow> frame_used s a \<or> a \<in> run_frames p n" for a
    using pmm_src.request_used [OF assms(1), of "Palloc n"] r by simp
  show ?thesis
  proof (cases "p = 0")
    case True
    have "\<not> fits s (unat n) i k" for i k
      using alloc_spec_cases [OF assms(1,3) spec] True by metis
    then show ?thesis using True r used by (simp add: run_frames_def fun_eq_iff)
  next
    case False
    then show ?thesis using spec used r by (auto simp: alloc_spec_def)
  qed
qed

theorem palloc_first_fit_witness:
  "case palloc 3 (pmm_initialise 0 (Some demo_map) demo_pmm) of (p, s') \<Rightarrow>
     p = 0 \<or> (\<forall>a \<in> run_frames p 3. frame_used s' a)"
proof -
  note wf = pmm_initialise_establishes(1) [OF demo_machine(1-4), of 0]
  show ?thesis using palloc_first_fit [OF wf, of 3] demo_bitmap(1)
    by (auto split: prod.splits if_splits)
qed

text \<open>
  C22. \<open>palloc\<close> and \<open>reserve_heap\<close> write nothing but their bitmap:
  every byte outside \<open>[bitmap, bitmap + bitmap_size)\<close>, in particular the content of
  every managed frame, is as before.
\<close>

theorem allocation_writes_only_bitmap:
  assumes "pmm_wf s" and "bitmap s \<noteq> 0" and "pmm_call_run r s = (p, s')"
  shows "(\<forall>x. in_region (bitmap s) (bitmap_size s) x \<or> mem s' x = mem s x) \<and>
    (\<forall>a x. frame_managed s a \<and> in_region a PAGE_SIZE x \<longrightarrow> mem s' x = mem s x)"
  using pmm_call_mem [OF assms(1,3)] frame_off_bitmap [OF assms(1,2)] by (blast dest: sepD)

theorem allocation_writes_only_bitmap_witness:
  "case palloc 3 (pmm_initialise 0 (Some demo_map) demo_pmm) of (p, s') \<Rightarrow>
     mem s' 0x240000 = mem (pmm_initialise 0 (Some demo_map) demo_pmm) 0x240000"
proof -
  let ?b = "pmm_initialise 0 (Some demo_map) demo_pmm"
  obtain p s' where r: "pmm_call_run (Palloc 3) ?b = (p, s')" by fastforce
  have "bitmap ?b \<noteq> 0" using demo_bitmap(1) by simp
  then have "\<forall>x. in_region (bitmap ?b) (bitmap_size ?b) x \<or> mem s' x = mem ?b x"
    using allocation_writes_only_bitmap
      [OF pmm_initialise_establishes(1) [OF demo_machine(1-4)] _ r] by blast
  moreover have "\<not> in_region (bitmap ?b) (bitmap_size ?b) 0x240000"
    by (simp add: demo_bitmap in_region_def)
  ultimately show ?thesis using r by auto
qed

text \<open>
  Marking a free run and clearing it again, as \<open>free\<close> does bit by bit, restores
  the bitmap, and the pages counted as freed are the pages of the run.
\<close>

lemma set_clear_round_trip:
  assumes "\<forall>k<n. \<not> bitmap_test s (g + k)"
  shows "bitmap_test (snd (clear_run g 0 n 0 (set_run g 0 n s))) = bitmap_test s \<and>
    fst (clear_run g 0 n 0 (set_run g 0 n s)) = n * PAGE_SIZE"
proof
  have off: "\<not> bitmap_test s j" if "j - g < n" for j
    using assms that by (metis add_diff_cancel_left' diff_add_cancel add.commute)
  show "bitmap_test (snd (clear_run g 0 n 0 (set_run g 0 n s))) = bitmap_test s"
    using off by (auto simp: clear_run_test set_run_test fun_eq_iff)
  have "fst (clear_run g 0 n 0 (set_run g 0 n s)) = 0 + (n - 0) * PAGE_SIZE"
    by (rule clear_run_freed) (simp_all add: set_run_test)
  then show "fst (clear_run g 0 n 0 (set_run g 0 n s)) = n * PAGE_SIZE" by simp
qed

lemma set_clear_round_trip_example:
  "fst (clear_run 5 0 100 0 (set_run 5 0 100 (demo_pmm\<lparr>bitmap := 0x200000\<rparr>))) = 100 * PAGE_SIZE"
  using set_clear_round_trip [of 100 "demo_pmm\<lparr>bitmap := 0x200000\<rparr>" 5]
  by (simp add: bitmap_test_def demo_pmm_def)

text \<open>
  C23. \<open>free\<close> translates its physical address with \<open>pa_to_va\<close> before it
  looks for the segment, so on a machine whose usable memory is below the direct map no call
  with a physical address below $2^{47}$ releases a frame: only the failure counter changes.
\<close>

theorem free_releases_nothing:
  assumes "\<forall>k<MAX_SEGMENTS. seg_live (segments s ! k) \<longrightarrow>
      seg_base (segments s ! k) + seg_length (segments s ! k) \<le> HHDM"
    and "unat ptr < 2 ^ 47"
  shows "pmm_free ptr n s =
    (if bitmap s = 0 \<or> ptr = 0 \<or> n = 0 then s
     else s\<lparr>failed_free_count := failed_free_count s + 1\<rparr>)"
proof -
  have "find_segment s (pa_to_va ptr) 0 0 = None"
    using assms(1) pa_to_va_ge [of ptr] assms(2) by (intro find_segment_high) (auto intro: order_trans)
  then show ?thesis by (simp add: pmm_free_def Let_def)
qed


theorem free_releases_nothing_witness:
  "frame_used (pmm_free 0x210000 1 (demo_pmm\<lparr>bitmap := 0x200000,
      segments := (segments demo_pmm)[0 := \<lparr>seg_base = 0x200000, seg_length = 0x40000,
        seg_is_bitmap = False, seg_remaining = 0\<rparr>], mem := (\<lambda>_. 0xFF)\<rparr>)) 0x210000"
  (is "frame_used (pmm_free _ _ ?s) _")
proof -
  have seg: "segments ?s ! k = (if k = 0 then \<lparr>seg_base = 0x200000, seg_length = 0x40000,
        seg_is_bitmap = False, seg_remaining = 0\<rparr> else
        \<lparr>seg_base = 0, seg_length = 0, seg_is_bitmap = False, seg_remaining = 0\<rparr>)"
    if "k < MAX_SEGMENTS" for k
    using that by (simp add: demo_pmm_def nth_list_update)
  have "pmm_free 0x210000 1 ?s = ?s\<lparr>failed_free_count := failed_free_count ?s + 1\<rparr>"
    using free_releases_nothing [of ?s "0x210000" 1] seg by (simp add: seg_live_def HHDM_def)
  moreover have "frame_at (segments ?s) 0 16 0x210000"
    using seg [of 0] by (simp add: frame_at_def seg_live_def seg_pages_def MAX_SEGMENTS_def PAGE_SIZE_def)
  ultimately show ?thesis
    unfolding frame_used_def
    by (intro exI [of _ 0] exI [of _ 16]) (simp add: bitmap_test_def)
qed

end
