(* ===== verification/Vmm.thy ===== *)
theory Vmm
  imports Pmm_Boot "HOL-Library.Sublist"
begin

text \<open>
  The virtual memory manager, \<open>kernel/src/mem/vmm.cpp\<close>: four-level page tables kept in
  memory as 512 little-endian 64-bit entries each, reached through the direct map.

  The state extends the physical allocator's with the three page-table roots of the file, the
  processor's \<open>cr3\<close> and the addresses given to \<open>invlpg\<close>, newest first.
\<close>

section \<open>Model\<close>

record vmm = pmm +
  original_PML4 :: u64
  default_PML4 :: u64
  current_PML4 :: u64
  cr3 :: u64
  invalidated :: "u64 list"

definition PAGE_PRESENT :: u64 where "PAGE_PRESENT = 1"
definition PAGE_RW :: u64 where "PAGE_RW = 2"
definition PAGE_USER :: u64 where "PAGE_USER = 4"

definition invlpg :: "u64 \<Rightarrow> 'a vmm_scheme \<Rightarrow> 'a vmm_scheme" where
  "invlpg va s = s\<lparr>invalidated := va # invalidated s\<rparr>"

definition get_pml4_index :: "u64 \<Rightarrow> u64" where "get_pml4_index va = drop_bit 39 va AND 0x1FF"
definition get_pdpt_index :: "u64 \<Rightarrow> u64" where "get_pdpt_index va = drop_bit 30 va AND 0x1FF"
definition get_pd_index :: "u64 \<Rightarrow> u64" where "get_pd_index va = drop_bit 21 va AND 0x1FF"
definition get_pt_index :: "u64 \<Rightarrow> u64" where "get_pt_index va = drop_bit 12 va AND 0x1FF"

text \<open>\<open>table[index]\<close> read and written; the address an entry holds.\<close>

definition entry :: "memory \<Rightarrow> u64 \<Rightarrow> u64 \<Rightarrow> u64" where
  "entry m table index = read64 m (table + 8 * index)"

definition set_entry :: "u64 \<Rightarrow> u64 \<Rightarrow> u64 \<Rightarrow> 'a vmm_scheme \<Rightarrow> 'a vmm_scheme" where
  "set_entry table index e s = s\<lparr>mem := write64 (mem s) (table + 8 * index) e\<rparr>"

definition present :: "u64 \<Rightarrow> bool" where "present e \<longleftrightarrow> e AND PAGE_PRESENT \<noteq> 0"

definition entry_table :: "u64 \<Rightarrow> u64" where "entry_table e = pa_to_va (e AND NOT 0xFFF)"

definition valloc :: "u64 \<Rightarrow> 'a vmm_scheme \<Rightarrow> u64 \<times> 'a vmm_scheme" where
  "valloc npages s = (case palloc npages s of (page, s1) \<Rightarrow> (pa_to_va page, s1))"

definition vmm_free :: "u64 \<Rightarrow> u64 \<Rightarrow> 'a vmm_scheme \<Rightarrow> 'a vmm_scheme" where
  "vmm_free ptr npages s = pmm_free (va_to_pa ptr) npages s"

definition ensure_table_exists :: "u64 \<Rightarrow> u64 \<Rightarrow> 'a vmm_scheme \<Rightarrow> u64 \<times> 'a vmm_scheme" where
  "ensure_table_exists parent index s =
     (if present (entry (mem s) parent index) then (entry_table (entry (mem s) parent index), s)
      else case valloc 1 s of (new_table, s1) \<Rightarrow>
        let s2 = s1\<lparr>mem := snd (memset (mem s1) new_table 0 0x1000)\<rparr>
        in (new_table,
            set_entry parent index (va_to_pa new_table OR PAGE_PRESENT OR PAGE_RW) s2))"

definition switch_pagetable :: "u64 \<Rightarrow> 'a vmm_scheme \<Rightarrow> 'a vmm_scheme" where
  "switch_pagetable ptr s = s\<lparr>cr3 := va_to_pa ptr, current_PML4 := ptr\<rparr>"

definition reset_pagetable :: "'a vmm_scheme \<Rightarrow> 'a vmm_scheme" where
  "reset_pagetable s = switch_pagetable (default_PML4 s) s"

text \<open>The loop of \<open>create_pagetable\<close> over the upper half of the root table.\<close>

definition copy_entry :: "u64 \<Rightarrow> nat \<Rightarrow> 'a vmm_scheme \<Rightarrow> 'a vmm_scheme" where
  "copy_entry new_pml4 i s =
     set_entry new_pml4 (of_nat i) (entry (mem s) (original_PML4 s) (of_nat i)) s"

definition create_pagetable :: "'a vmm_scheme \<Rightarrow> u64 \<times> 'a vmm_scheme" where
  "create_pagetable s =
     (case palloc 1 s of (page, s1) \<Rightarrow>
        if page = 0 then (0, s1)
        else
          let va_page = pa_to_va page;
              s2 = s1\<lparr>mem := snd (memset (mem s1) va_page 0 0x1000)\<rparr>
          in (page, fold (copy_entry va_page) [256..<512] s2))"

definition destroy_pagetable :: "u64 \<Rightarrow> 'a vmm_scheme \<Rightarrow> 'a vmm_scheme" where
  "destroy_pagetable pml4_ptr s =
     (let s1 = (if current_PML4 s = pml4_ptr then reset_pagetable s else s)
      in pmm_free pml4_ptr 1 s1)"

definition fetch_default_pagetable :: "'a vmm_scheme \<Rightarrow> u64" where
  "fetch_default_pagetable s = default_PML4 s"

definition vmm_initialise :: "'a vmm_scheme \<Rightarrow> 'a vmm_scheme" where
  "vmm_initialise s =
     (let s1 = s\<lparr>original_PML4 := pa_to_va (cr3 s)\<rparr>;
          s2 = s1\<lparr>default_PML4 := original_PML4 s1\<rparr>
      in s2\<lparr>current_PML4 := original_PML4 s2\<rparr>)"

definition is_mapped :: "u64 \<Rightarrow> 'a vmm_scheme \<Rightarrow> bool" where
  "is_mapped va s =
     (let pml4_entry = entry (mem s) (current_PML4 s) (get_pml4_index va)
      in if \<not> present pml4_entry then False
      else let pdpt_entry = entry (mem s) (entry_table pml4_entry) (get_pdpt_index va)
      in if \<not> present pdpt_entry then False
      else let pd_entry = entry (mem s) (entry_table pdpt_entry) (get_pd_index va)
      in if \<not> present pd_entry then False
      else present (entry (mem s) (entry_table pd_entry) (get_pt_index va)))"

text \<open>One iteration of \<open>mmap\<close>, then its loop.\<close>

definition leaf_entry :: "u64 \<Rightarrow> u64 \<Rightarrow> u64" where
  "leaf_entry pa attributes = (pa AND NOT 0xFFF) OR (attributes AND 0x8000000000000FFF)"

definition mmap_page :: "u64 \<Rightarrow> u64 \<Rightarrow> u64 \<Rightarrow> 'a vmm_scheme \<Rightarrow> u64 \<times> 'a vmm_scheme" where
  "mmap_page pa va attributes s =
     (case ensure_table_exists (current_PML4 s) (get_pml4_index va) s of (pdpt, s1) \<Rightarrow>
      case ensure_table_exists pdpt (get_pdpt_index va) s1 of (pd, s2) \<Rightarrow>
      case ensure_table_exists pd (get_pd_index va) s2 of (pt, s3) \<Rightarrow>
        (pt, set_entry pt (get_pt_index va) (leaf_entry pa attributes) s3))"

function mmap_loop ::
  "u64 \<Rightarrow> u64 \<Rightarrow> u64 \<Rightarrow> u64 \<Rightarrow> u64 \<Rightarrow> u64 \<Rightarrow> 'a vmm_scheme \<Rightarrow> u64 \<times> 'a vmm_scheme" where
  "mmap_loop i npages pa va attributes first_entry s =
     (if i < npages
      then case mmap_page pa va attributes s of (pt, s1) \<Rightarrow>
        let first = (if i = 0 then entry (mem s1) pt (get_pt_index va) else first_entry)
        in mmap_loop (i + 1) npages (pa + 0x1000) (va + 0x1000) attributes first (invlpg va s1)
      else (first_entry, s))"
  by pat_completeness auto
termination
  by (relation "measure (\<lambda>(i, n, pa, va, at, f, s). unat (n - i))") (auto simp: word_diff_measure)

definition mmap :: "u64 \<Rightarrow> u64 \<Rightarrow> u64 \<Rightarrow> u64 \<Rightarrow> 'a vmm_scheme \<Rightarrow> u64 \<times> 'a vmm_scheme" where
  "mmap paddr vaddr npages attributes s = mmap_loop 0 npages paddr vaddr attributes 0 s"

text \<open>One iteration of \<open>munmap\<close>; a missing table on the way is the \<open>continue\<close>.\<close>

definition munmap_page :: "u64 \<Rightarrow> 'a vmm_scheme \<Rightarrow> 'a vmm_scheme" where
  "munmap_page va s =
     (let pml4_entry = entry (mem s) (current_PML4 s) (get_pml4_index va)
      in if \<not> present pml4_entry then s
      else let pdpt_entry = entry (mem s) (entry_table pml4_entry) (get_pdpt_index va)
      in if \<not> present pdpt_entry then s
      else let pd_entry = entry (mem s) (entry_table pdpt_entry) (get_pd_index va)
      in if \<not> present pd_entry then s
      else invlpg va (set_entry (entry_table pd_entry) (get_pt_index va) 0 s))"

function munmap_loop :: "u64 \<Rightarrow> u64 \<Rightarrow> u64 \<Rightarrow> 'a vmm_scheme \<Rightarrow> 'a vmm_scheme" where
  "munmap_loop i npages va s =
     (if i < npages then munmap_loop (i + 1) npages (va + 0x1000) (munmap_page va s) else s)"
  by pat_completeness auto
termination
  by (relation "measure (\<lambda>(i, n, va, s). unat (n - i))") (auto simp: word_diff_measure)

definition munmap :: "u64 \<Rightarrow> u64 \<Rightarrow> 'a vmm_scheme \<Rightarrow> 'a vmm_scheme" where
  "munmap vaddr npages s = munmap_loop 0 npages vaddr s"

declare mmap_loop.simps [simp del] munmap_loop.simps [simp del]

section \<open>Entries of tables\<close>

definition aligned :: "u64 \<Rightarrow> bool" where "aligned t \<longleftrightarrow> 4096 dvd unat t"

lemma page_sep:
  assumes "aligned a" and "aligned b" and "a \<noteq> b"
  shows "sep a 0x1000 b 0x1000"
proof -
  have "0x1000 \<le> y - x" if al: "aligned x" "aligned y" "x \<noteq> y" for x y :: u64
  proof -
    obtain i j where ij: "unat x = 4096 * i" "unat y = 4096 * j"
      using al(1,2) unfolding aligned_def by (elim dvdE) blast
    have "unat x \<noteq> unat y" using al(3) by (simp add: word_unat_eq_iff)
    then have "4096 \<le> unat (y - x)"
      using ij unat_lt64 [of x] unat_lt64 [of y] unfolding unat_sub_if'
      by (auto simp: word_le_nat_alt)
    then show ?thesis by (simp add: word_le_nat_alt)
  qed
  with assms show ?thesis by (simp add: sep_def)
qed

lemma unat_index8: "j < 512 \<Longrightarrow> unat (8 * j :: u64) = 8 * unat j"
  by (simp add: unat_word_ariths word_less_nat_alt)

lemma entry_in_page:
  assumes "j < 512" and "in_region (t + 8 * j) 8 x"
  shows "in_region t 0x1000 x"
proof -
  obtain i where i: "i < 8" "x = t + 8 * j + i" using assms(2) by (rule in_regionE)
  have "unat (8 * j + i) = 8 * unat j + unat i"
    using assms(1) i(1) unat_index8 [OF assms(1)]
    by (subst unat_add_nowrap) (simp_all add: word_less_nat_alt)
  then have "8 * j + i < 0x1000" using assms(1) i(1) by (simp add: word_less_nat_alt)
  then show ?thesis using i(2) by (simp add: add.assoc)
qed

lemma entry_cong:
  assumes "\<And>x. in_region t 0x1000 x \<Longrightarrow> m' x = m x" and "j < 512"
  shows "entry m' t j = entry m t j"
  unfolding entry_def read64_def
proof (rule read_le_cong)
  fix i :: nat assume "i < 8"
  then have "in_region (t + 8 * j) 8 (t + 8 * j + of_nat i)"
    by (simp add: word_less_nat_alt unat_of_nat64)
  then show "m' (t + 8 * j + of_nat i) = m (t + 8 * j + of_nat i)"
    using assms entry_in_page by blast
qed

lemma index_sep:
  assumes "j < 512" and "k < 512" and "j \<noteq> k"
  shows "sep (t + 8 * j) 8 (t + 8 * k) 8"
proof -
  have "8 \<le> 8 * y - 8 * x" if "x < 512" "y < 512" "x \<noteq> y" for x y :: u64
  proof -
    have "unat x \<noteq> unat y" using that(3) by (simp add: word_unat_eq_iff)
    then have "8 \<le> unat (8 * y - 8 * x)"
      using that(1,2) unat_index8 unfolding unat_sub_if'
      by (auto simp: word_less_nat_alt word_le_nat_alt)
    then show ?thesis by (simp add: word_le_nat_alt)
  qed
  from this [of j k] this [of k j] show ?thesis using assms by (auto simp: sep_def)
qed

lemma entry_write:
  assumes "aligned t" and "aligned t'" and "j < 512" and "j' < 512"
  shows "entry (write64 m (t + 8 * j) e) t' j' =
     (if t = t' \<and> j = j' then e else entry m t' j')"
proof (cases "t = t'")
  case True
  then show ?thesis
    using index_sep [OF assms(3,4), of t] by (auto simp: entry_def mem_simps)
next
  case False
  have "write64 m (t + 8 * j) e x = m x" if "in_region t' 0x1000 x" for x
    using sepD [OF page_sep [OF assms(1,2) False]] that entry_in_page [OF assms(3)]
    by (intro write64_outside) blast
  then have "entry (write64 m (t + 8 * j) e) t' j' = entry m t' j'"
    using assms(4) by (rule entry_cong)
  with False show ?thesis by simp
qed

lemma read_le_zero: "(\<And>i. i < n \<Longrightarrow> m (a + of_nat i) = 0) \<Longrightarrow> read_le n m a = 0"
proof (induction n arbitrary: a)
  case (Suc n)
  have "m (a + 1 + of_nat i) = 0" if "i < n" for i
    using Suc.prems [of "Suc i"] that by (simp add: algebra_simps)
  with Suc.IH [of "a + 1"] Suc.prems [of 0] show ?case by simp
qed simp

lemma entry_zeroed: "j < 512 \<Longrightarrow> entry (filled m t 0 0x1000) t j = 0"
  unfolding entry_def read64_def
proof (rule read_le_zero)
  fix i :: nat assume "j < 512" "i < 8"
  then have "in_region (t + 8 * j) 8 (t + 8 * j + of_nat i)"
    by (simp add: word_less_nat_alt unat_of_nat64)
  then show "filled m t 0 0x1000 (t + 8 * j + of_nat i) = 0"
    using entry_in_page [OF \<open>j < 512\<close>] by (simp add: filled_def)
qed

text \<open>The index functions are nine-bit fields.\<close>

lemma nine_bits: "(w :: u64) AND 0x1FF < 512"
  by (rule le_less_trans [of _ "0x1FF"]) (simp_all add: word_and_le1)

lemma index_bounds [simp]:
  "get_pml4_index va < 512" "get_pdpt_index va < 512" "get_pd_index va < 512" "get_pt_index va < 512"
  by (simp_all add: get_pml4_index_def get_pdpt_index_def get_pd_index_def get_pt_index_def nine_bits)

section \<open>Frames under writes outside the bitmap\<close>

lemma mem_update_used:
  assumes "pmm_wf s" and "bitmap s \<noteq> 0"
    and "\<And>x. in_region (bitmap s) (bitmap_size s) x \<Longrightarrow> m x = mem s x"
  shows "frame_used (s\<lparr>mem := m\<rparr>) a = frame_used s a"
proof -
  have "bitmap_test (s\<lparr>mem := m\<rparr>) (of_nat (seg_off (segments s) i + j)) =
      bitmap_test s (of_nat (seg_off (segments s) i + j))"
    if "frame_at (segments s) i j a" for i j
  proof -
    let ?x = "of_nat (seg_off (segments s) i + j) :: u64"
    have b: "seg_off (segments s) i + j < seg_off (segments s) MAX_SEGMENTS"
      "seg_off (segments s) i + j < 2 ^ 64"
      using page_index_bound [of i "segments s" j] that by (auto simp: frame_at_def)
    then have "unat ?x = seg_off (segments s) i + j" using unat_of_nat64 by blast
    moreover have "seg_off (segments s) MAX_SEGMENTS \<le> 8 * unat (bitmap_size s)"
      using assms(1,2) by (simp add: pmm_wf_def bitmap_wf_def)
    ultimately have "unat (?x div 8) < unat (bitmap_size s)" using b(1) by (simp add: unat_div)
    then have "in_region (bitmap s) (bitmap_size s) (bitmap s + ?x div 8)"
      by (simp add: word_less_nat_alt)
    then show ?thesis using assms(3) by (simp add: bitmap_test_def)
  qed
  then show ?thesis by (auto simp: frame_used_def)
qed

lemma mem_update_wf [simp]: "pmm_wf (s\<lparr>mem := m\<rparr>) = pmm_wf s"
  by (simp add: pmm_wf_def bitmap_wf_def)

lemma mem_update_managed [simp]: "frame_managed (s\<lparr>mem := m\<rparr>) = frame_managed s"
  by (simp add: frame_managed_def fun_eq_iff)

lemma mem_update_free:
  assumes "pmm_wf s" and "bitmap s \<noteq> 0"
    and "\<And>x. in_region (bitmap s) (bitmap_size s) x \<Longrightarrow> m x = mem s x"
  shows "free_frames (s\<lparr>mem := m\<rparr>) = free_frames s"
  using mem_update_used [OF assms] by (simp add: free_frames_def)

text \<open>Every frame can be reached through the direct map.\<close>

definition mappable :: "'a pmm_scheme \<Rightarrow> bool" where
  "mappable s \<longleftrightarrow> pmm_wf s \<and> bitmap s \<noteq> 0 \<and>
     (\<forall>i<MAX_SEGMENTS. seg_length (segments s ! i) \<noteq> 0 \<longrightarrow>
        aligned (seg_base (segments s ! i)) \<and>
        unat (seg_base (segments s ! i)) + unat (seg_length (segments s ! i)) \<le> 0x800000000000)"

lemma mappable_update [simp]: "mappable (s\<lparr>mem := m\<rparr>) = mappable s"
  by (simp add: mappable_def)

lemma free_frame_low:
  assumes "mappable s" and "p \<in> free_frames s"
  shows "unat p + 4096 \<le> 0x800000000000" and "aligned p"
proof -
  obtain i j where f: "frame_at (segments s) i j p"
    using assms(2) by (auto simp: free_frames_def frame_managed_def)
  then have i: "i < MAX_SEGMENTS" "seg_length (segments s ! i) \<noteq> 0"
    by (auto simp: frame_at_def seg_live_def)
  note a = frame_addr [OF _ f]
  show "unat p + 4096 \<le> 0x800000000000" "aligned p"
    using a assms(1) i by (auto simp: mappable_def pmm_wf_def aligned_def)
qed

lemma high_not_bitmap:
  assumes "mappable s" and "HHDM \<le> x"
  shows "\<not> in_region (bitmap s) (bitmap_size s) x"
proof
  assume "in_region (bitmap s) (bitmap_size s) x"
  then have x: "unat (x - bitmap s) < unat (bitmap_size s)"
    by (simp add: in_region_def word_less_nat_alt)
  obtain b where b: "b < MAX_SEGMENTS" "bitmap s = seg_base (segments s ! b)"
    "bitmap_size s \<le> seg_length (segments s ! b)"
    using assms(1) by (auto simp: mappable_def pmm_wf_def bitmap_wf_def)
  have "seg_length (segments s ! b) \<noteq> 0" using b(3) x by auto
  then have "unat (bitmap s) + unat (bitmap_size s) \<le> 0x800000000000"
    using assms(1) b by (auto simp: mappable_def word_le_nat_alt)
  moreover have "0xFFFF800000000000 \<le> unat x"
    using assms(2) unat_HHDM by (simp add: word_le_nat_alt)
  ultimately show False
    using x unfolding unat_sub_if' by (auto simp: word_le_nat_alt split: if_splits)
qed

lemma high_page:
  assumes "HHDM \<le> t" and "aligned t" and "in_region t 0x1000 x"
  shows "HHDM \<le> x"
proof -
  obtain i where i: "i < 0x1000" "x = t + i" using assms(3) by (rule in_regionE)
  obtain k where k: "unat t = 4096 * k" using assms(2) by (auto simp: aligned_def elim!: dvdE)
  have "unat t + 4096 \<le> 2 ^ 64" using unat_lt64 [of t] k by simp
  then have "unat x = unat t + unat i"
    using i by (simp add: unat_add_nowrap word_less_nat_alt)
  with assms(1) show ?thesis by (simp add: word_le_nat_alt)
qed

section \<open>The tree of tables\<close>

text \<open>
  The table reached from \<open>t\<close> along a list of indices. A path names a table of the tree by
  at most three indices; \<open>U\<close> is the set of slots of the root that the tree is about (a
  boot loader's own slots may hold large pages, which this code does not interpret).
\<close>

fun tbl :: "memory \<Rightarrow> u64 \<Rightarrow> u64 list \<Rightarrow> u64 option" where
  "tbl m t [] = Some t"
| "tbl m t (k # ks) =
     (if present (entry m t k) then tbl m (entry_table (entry m t k)) ks else None)"

definition path_ok :: "u64 set \<Rightarrow> u64 list \<Rightarrow> bool" where
  "path_ok U ks \<longleftrightarrow> length ks \<le> 3 \<and> (\<forall>k \<in> set ks. k < 512) \<and> (ks \<noteq> [] \<longrightarrow> hd ks \<in> U)"

definition table_ok :: "'a pmm_scheme \<Rightarrow> u64 \<Rightarrow> bool" where
  "table_ok s t \<longleftrightarrow> HHDM \<le> t \<and> aligned t \<and> va_to_pa t \<notin> free_frames s"

definition table_at :: "'a vmm_scheme \<Rightarrow> u64 list \<Rightarrow> u64 option" where
  "table_at s ks = tbl (mem s) (current_PML4 s) ks"

definition tables_wf :: "u64 set \<Rightarrow> 'a vmm_scheme \<Rightarrow> bool" where
  "tables_wf U s \<longleftrightarrow> mappable s \<and>
     (\<forall>ks t. path_ok U ks \<and> table_at s ks = Some t \<longrightarrow> table_ok s t) \<and>
     (\<forall>ks ks' t. path_ok U ks \<and> path_ok U ks' \<and> table_at s ks = Some t \<and> table_at s ks' = Some t \<longrightarrow>
        ks = ks')"

lemma tbl_append: "tbl m t (ks @ ks') = Option.bind (tbl m t ks) (\<lambda>t'. tbl m t' ks')"
  by (induction ks arbitrary: t) auto

lemma tbl_snoc:
  "tbl m t (ks @ [k]) =
     (case tbl m t ks of
        None \<Rightarrow> None
      | Some t' \<Rightarrow> if present (entry m t' k) then Some (entry_table (entry m t' k)) else None)"
  by (simp add: tbl_append split: option.split)

lemma path_ok_snoc:
  "path_ok U (ks @ [k]) \<Longrightarrow> path_ok U ks \<and> k < 512"
  by (cases ks) (auto simp: path_ok_def)

text \<open>The leaf entry of an address: the abstract view of an address space.\<close>

definition upper_path :: "u64 \<Rightarrow> u64 list" where
  "upper_path va = [get_pml4_index va, get_pdpt_index va, get_pd_index va]"

definition lookup_page :: "'a vmm_scheme \<Rightarrow> u64 \<Rightarrow> u64 option" where
  "lookup_page s va =
     (case table_at s (upper_path va) of
        None \<Rightarrow> None
      | Some t \<Rightarrow> if present (entry (mem s) t (get_pt_index va))
                  then Some (entry (mem s) t (get_pt_index va)) else None)"

definition in_slots :: "u64 set \<Rightarrow> u64 \<Rightarrow> bool" where
  "in_slots U va \<longleftrightarrow> get_pml4_index va \<in> U"

lemma upper_path_ok: "in_slots U va \<Longrightarrow> path_ok U (upper_path va)"
  by (simp add: path_ok_def upper_path_def in_slots_def)

text \<open>\<open>is_mapped\<close> is the domain of the abstract view.\<close>

lemma is_mapped_lookup: "is_mapped va s \<longleftrightarrow> lookup_page s va \<noteq> None"
  by (simp add: is_mapped_def lookup_page_def table_at_def upper_path_def Let_def)

lemma aligned_bits: "aligned p \<Longrightarrow> i < 12 \<Longrightarrow> \<not> bit p i"
proof -
  assume a: "aligned p" "i < 12"
  have "unat (take_bit 12 p) = 0"
    using a(1) by (simp add: aligned_def unat_mod take_bit_eq_mod dvd_eq_mod_eq_0)
  then have "take_bit 12 p = 0" by (simp add: unat_eq_0)
  then have "\<not> bit (take_bit 12 p) i" by simp
  then show "\<not> bit p i" using a(2) by (simp add: bit_take_bit_iff)
qed

lemma bit_0xFFF: "bit (0xFFF :: u64) i \<longleftrightarrow> i < 12"
proof -
  have "(0xFFF :: u64) = mask 12" by (simp add: mask_eq_exp_minus_1)
  then show ?thesis by (simp only: bit_mask_iff) auto
qed

lemma bit_3: "bit (3 :: u64) i \<longleftrightarrow> i < 2"
proof -
  have "(3 :: u64) = mask 2" by (simp add: mask_eq_exp_minus_1)
  then show ?thesis by (simp only: bit_mask_iff) auto
qed

lemma table_entry:
  assumes "aligned p"
  shows "(p OR PAGE_PRESENT OR PAGE_RW) AND NOT 0xFFF = p" and "present (p OR PAGE_PRESENT OR PAGE_RW)"
proof -
  have "bit ((p OR 3) AND NOT 0xFFF) i = bit p i" if "i < 64" for i
    using that aligned_bits [OF assms, of i]
    unfolding bit_and_iff bit_or_iff bit_not_iff bit_0xFFF bit_3 by auto
  then have "(p OR 3) AND NOT 0xFFF = p" by (intro bit_word_eqI) simp
  then show "(p OR PAGE_PRESENT OR PAGE_RW) AND NOT 0xFFF = p"
    by (simp add: PAGE_PRESENT_def PAGE_RW_def)
  have "bit ((p OR 3) AND 1) 0" by (simp add: bit_simps)
  then have "(p OR 3) AND 1 \<noteq> 0" by (metis bit_0_eq bot_apply bot_bool_def)
  then show "present (p OR PAGE_PRESENT OR PAGE_RW)"
    by (simp add: present_def PAGE_PRESENT_def PAGE_RW_def)
qed

lemma page_write_free:
  assumes "mappable s" and "HHDM \<le> t" and "aligned t"
    and "\<And>x. \<not> in_region t 0x1000 x \<Longrightarrow> m x = mem s x"
  shows "free_frames (s\<lparr>mem := m\<rparr>) = free_frames s"
proof (rule mem_update_free)
  show "pmm_wf s" "bitmap s \<noteq> 0" using assms(1) by (auto simp: mappable_def)
  fix x assume "in_region (bitmap s) (bitmap_size s) x"
  then have "\<not> HHDM \<le> x" using high_not_bitmap [OF assms(1)] by blast
  then have "\<not> in_region t 0x1000 x" using high_page [OF assms(2,3)] by blast
  then show "m x = mem s x" by (rule assms(4))
qed

text \<open>A fresh frame, zeroed through the direct map.\<close>

definition fresh_table :: "u64 \<Rightarrow> 'a vmm_scheme \<Rightarrow> 'a vmm_scheme \<Rightarrow> bool" where
  "fresh_table p s s' \<longleftrightarrow>
     p \<noteq> 0 \<and> p \<in> free_frames s \<and> aligned p \<and> HHDM \<le> pa_to_va p \<and> aligned (pa_to_va p) \<and>
     va_to_pa (pa_to_va p) = p \<and> free_frames s' = free_frames s - {p} \<and> mappable s' \<and>
     current_PML4 s' = current_PML4 s \<and> original_PML4 s' = original_PML4 s \<and>
     invalidated s' = invalidated s \<and>
     (\<forall>j<512. entry (mem s') (pa_to_va p) j = 0) \<and>
     (\<forall>u. table_ok s u \<longrightarrow> u \<noteq> pa_to_va p \<and> (\<forall>j<512. entry (mem s') u j = entry (mem s) u j))"

lemma palloc_mappable:
  assumes "mappable s" and "palloc 1 s = (p, s1)"
  shows "mappable s1" and "HHDM \<le> x \<Longrightarrow> mem s1 x = mem s x"
proof -
  have wf: "pmm_wf s" using assms(1) by (simp add: mappable_def)
  have call: "pmm_call_run (Palloc 1) s = (p, s1)" using assms(2) by simp
  note same = pmm_call_same [OF wf call]
  have "pmm_wf s1" by (rule pmm_src.request_wf [OF wf call])
  moreover have "length (segments s) = MAX_SEGMENTS" using wf by (simp add: pmm_wf_def segments_wf_def)
  ultimately show "mappable s1"
    using assms(1) same(2) seg_same_live(3,4) [OF same(1)] by (auto simp: mappable_def)
  show "mem s1 x = mem s x" if "HHDM \<le> x"
    using pmm_call_mem [OF wf call] high_not_bitmap [OF assms(1) that] by blast
qed

lemma palloc_fresh_table:
  assumes "mappable s" and "free_frames s \<noteq> {}" and r: "palloc 1 s = (p, s1)"
  shows "fresh_table p s (s1\<lparr>mem := filled (mem s1) (pa_to_va p) 0 0x1000\<rparr>)"
proof -
  have wf: "pmm_wf s" "bitmap s \<noteq> 0" using assms(1) by (auto simp: mappable_def)
  note one = palloc_one [OF wf assms(2) r]
  note low = free_frame_low [OF assms(1) one(1)]
  note m1 = palloc_mappable [OF assms(1) r]
  let ?t = "pa_to_va p" and ?m = "filled (mem s1) (pa_to_va p) 0 0x1000"
  have t: "va_to_pa ?t = p" "unat ?t = unat p + 0xFFFF800000000000"
    using low(1) by (auto intro: va_to_pa_to_va pa_to_va_low(2))
  then have hi: "HHDM \<le> ?t" by (simp add: word_le_nat_alt unat_HHDM)
  have al: "aligned ?t" using low(2) t(2) by (simp add: aligned_def dvd_add_left_iff)
  have "free_frames (s1\<lparr>mem := ?m\<rparr>) = free_frames s - {p}"
    using page_write_free [OF m1(1) hi al, of ?m] one(2) by (simp add: filled_def)
  moreover have "entry ?m u j = entry (mem s) u j" if u: "table_ok s u" "u \<noteq> ?t" and j: "j < 512" for u j
  proof (rule entry_cong [OF _ j])
    fix x assume x: "in_region u 0x1000 x"
    have u': "HHDM \<le> u" "aligned u" using u(1) by (auto simp: table_ok_def)
    have "\<not> in_region ?t 0x1000 x" using sepD [OF page_sep [OF u'(2) al u(2)] x] .
    then show "?m x = mem s x" using m1(2) [OF high_page [OF u' x]] by (simp add: filled_def)
  qed
  moreover have "u \<noteq> ?t" if "table_ok s u" for u using that one(1) t(1) by (auto simp: table_ok_def)
  moreover have "current_PML4 s1 = current_PML4 s" "original_PML4 s1 = original_PML4 s"
    "invalidated s1 = invalidated s"
    using pmm_call_form [OF wf(1), of "Palloc 1"] r by auto
  ultimately show ?thesis
    using one(1,3) low(2) hi al t(1) m1(1) entry_zeroed by (simp add: fresh_table_def)
qed

text \<open>The memory after a new table has been hooked in.\<close>

definition hooked :: "u64 \<Rightarrow> u64 \<Rightarrow> u64 \<Rightarrow> 'a vmm_scheme \<Rightarrow> 'a vmm_scheme \<Rightarrow> bool" where
  "hooked parent k p s s' \<longleftrightarrow>
     p \<in> free_frames s \<and> HHDM \<le> pa_to_va p \<and> aligned (pa_to_va p) \<and> va_to_pa (pa_to_va p) = p \<and>
     free_frames s' = free_frames s - {p} \<and> mappable s' \<and>
     current_PML4 s' = current_PML4 s \<and> invalidated s' = invalidated s \<and>
     (\<forall>j<512. entry (mem s') (pa_to_va p) j = 0) \<and>
     (\<forall>u. \<forall>j<512. table_ok s u \<longrightarrow>
        entry (mem s') u j =
          (if u = parent \<and> j = k then p OR PAGE_PRESENT OR PAGE_RW else entry (mem s) u j))"

lemma new_table:
  assumes "mappable s" and "free_frames s \<noteq> {}" and "table_ok s parent" and "k < 512"
    and "\<not> present (entry (mem s) parent k)" and r: "ensure_table_exists parent k s = (t, s')"
  shows "\<exists>p. t = pa_to_va p \<and> hooked parent k p s s'"
proof -
  obtain p s1 where p: "palloc 1 s = (p, s1)" by fastforce
  let ?e = "p OR PAGE_PRESENT OR PAGE_RW" and ?s2 = "s1\<lparr>mem := filled (mem s1) (pa_to_va p) 0 0x1000\<rparr>"
  have f: "fresh_table p s ?s2" by (rule palloc_fresh_table [OF assms(1,2) p])
  let ?m = "write64 (mem ?s2) (parent + 8 * k) ?e"
  have s': "t = pa_to_va p" "s' = ?s2\<lparr>mem := ?m\<rparr>"
    using r assms(5) p f
    by (auto simp: ensure_table_exists_def valloc_def memset_fill set_entry_def Let_def fresh_table_def)
  have par: "HHDM \<le> parent" "aligned parent" using assms(3) by (auto simp: table_ok_def)
  have map2: "mappable ?s2" and al: "aligned (pa_to_va p)" using f by (auto simp: fresh_table_def)
  have "free_frames s' = free_frames ?s2"
    unfolding s' using entry_in_page [OF assms(4)]
    by (intro page_write_free [OF map2 par] write64_outside) blast
  moreover have "entry ?m u j = (if u = parent \<and> j = k then ?e else entry (mem s) u j)"
    if "table_ok s u" "j < 512" for u j
    using entry_write [OF par(2) _ assms(4) that(2), of u "mem ?s2" ?e] that f
    by (auto simp: table_ok_def fresh_table_def)
  moreover have "entry ?m (pa_to_va p) j = 0" if "j < 512" for j
    using entry_write [OF par(2) al assms(4) that, of "mem ?s2" ?e] that f assms(3)
    by (auto simp: fresh_table_def)
  ultimately have "hooked parent k p s s'"
    using f map2 by (simp add: hooked_def fresh_table_def s'(2))
  then show ?thesis using s'(1) by blast
qed

text \<open>Hooking in a table adds one path to the tree and leaves every other one.\<close>

lemma tables_ok:
  assumes "tables_wf U s" and "path_ok U ks" and "table_at s ks = Some t"
  shows "table_ok s t"
  using assms unfolding tables_wf_def by blast

lemma tables_inj:
  assumes "tables_wf U s" and "path_ok U ks" "table_at s ks = Some t"
    and "path_ok U ks'" "table_at s ks' = Some t"
  shows "ks = ks'"
  using assms unfolding tables_wf_def by blast

lemma table_at_snoc:
  "table_at s (ks @ [k]) =
     (case table_at s ks of
        None \<Rightarrow> None
      | Some t \<Rightarrow> if present (entry (mem s) t k) then Some (entry_table (entry (mem s) t k)) else None)"
  by (simp add: table_at_def tbl_snoc)

lemma new_table_paths:
  assumes wf: "tables_wf U s" and par: "table_at s ks = Some parent" and ok: "path_ok U (ks @ [k])"
    and free: "free_frames s \<noteq> {}" and np: "\<not> present (entry (mem s) parent k)"
    and r: "ensure_table_exists parent k s = (t, s')" and "path_ok U ks'"
  shows "table_at s' ks' =
    (if ks' = ks @ [k] then Some t
     else if strict_prefix (ks @ [k]) ks' then None else table_at s ks')"
proof -
  have pk: "path_ok U ks" "k < 512" using path_ok_snoc [OF ok] by auto
  have map: "mappable s" using wf by (simp add: tables_wf_def)
  note pt = tables_ok [OF wf pk(1) par]
  obtain p where t: "t = pa_to_va p" and h: "hooked parent k p s s'"
    using new_table [OF map free pt pk(2) np r] by blast
  have p: "p \<in> free_frames s" "current_PML4 s' = current_PML4 s"
    and zero: "\<And>j. j < 512 \<Longrightarrow> entry (mem s') t j = 0"
    and old: "\<And>u j. table_ok s u \<Longrightarrow> j < 512 \<Longrightarrow> entry (mem s') u j =
         (if u = parent \<and> j = k then p OR PAGE_PRESENT OR PAGE_RW else entry (mem s) u j)"
    using h t unfolding hooked_def by blast+
  have al: "aligned p" using free_frame_low(2) [OF map p(1)] .
  have hook: "present (entry (mem s') parent k)" "entry_table (entry (mem s') parent k) = t"
    using old [OF pt pk(2)] table_entry [OF al] t by (simp_all add: entry_table_def)
  from assms(7) show ?thesis
  proof (induction ks' rule: rev_induct)
    case Nil
    then show ?case using p(2) by (simp add: table_at_def strict_prefix_def)
  next
    case (snoc j ks')
    have j: "path_ok U ks'" "j < 512" using path_ok_snoc [OF snoc.prems] by auto
    note IH = snoc.IH [OF j(1)]
    consider "ks' @ [j] = ks @ [k]" | "ks' = ks @ [k]" | "strict_prefix (ks @ [k]) ks'"
      | "ks' @ [j] \<noteq> ks @ [k]" "\<not> prefix (ks @ [k]) ks'"
      by (auto simp: strict_prefix_def)
    then show ?case
    proof cases
      case 1
      then show ?thesis using IH par hook by (simp add: table_at_snoc strict_prefix_def)
    next
      case 2
      then have "table_at s' ks' = Some t" using IH by simp
      then have "table_at s' (ks' @ [j]) = None" using zero [OF j(2)] by (simp add: table_at_snoc present_def)
      then show ?thesis using 2 by (simp add: strict_prefix_def)
    next
      case 3
      then show ?thesis using IH by (auto simp: table_at_snoc strict_prefix_def)
    next
      case 4
      then have same: "table_at s' ks' = table_at s ks'"
        and "\<not> strict_prefix (ks @ [k]) (ks' @ [j])"
        using IH by (auto simp: strict_prefix_def)
      moreover have "entry (mem s') u j = entry (mem s) u j" if u: "table_at s ks' = Some u" for u
        using old [OF tables_ok [OF wf j(1) u] j(2)] tables_inj [OF wf j(1) u pk(1)] par 4(1) by auto
      ultimately show ?thesis using 4(1) by (auto simp: table_at_snoc split: option.split)
    qed
  qed
qed

lemma table_at_extend_None:
  "table_at s ks = None \<Longrightarrow> prefix ks ks' \<Longrightarrow> table_at s ks' = None"
  by (auto simp: table_at_def tbl_append prefix_def)

text \<open>
  Creating tables: at most \<open>n\<close> frames are taken and no address changes its translation.
\<close>

definition grown :: "u64 set \<Rightarrow> nat \<Rightarrow> 'a vmm_scheme \<Rightarrow> 'a vmm_scheme \<Rightarrow> bool" where
  "grown U n s s' \<longleftrightarrow> tables_wf U s' \<and>
     card (free_frames s) \<le> card (free_frames s') + n \<and> invalidated s' = invalidated s \<and>
     (\<forall>va. in_slots U va \<longrightarrow> lookup_page s' va = lookup_page s va)"

lemma grown_trans: "grown U n s s1 \<Longrightarrow> grown U k s1 s2 \<Longrightarrow> grown U (n + k) s s2"
  by (auto simp: grown_def)

text \<open>One level of the walk with creation, seen from the tree.\<close>

lemma ensure_spec:
  assumes wf: "tables_wf U s" and par: "table_at s ks = Some parent" and ok: "path_ok U (ks @ [k])"
    and free: "free_frames s \<noteq> {}" and r: "ensure_table_exists parent k s = (t, s')"
  shows "table_at s' (ks @ [k]) = Some t \<and> grown U 1 s s'"
proof (cases "present (entry (mem s) parent k)")
  case True
  then have "t = entry_table (entry (mem s) parent k)" "s' = s"
    using r by (auto simp: ensure_table_exists_def)
  then show ?thesis using True par wf by (simp add: table_at_snoc grown_def)
next
  case False
  have pk: "path_ok U ks" "k < 512" using path_ok_snoc [OF ok] by auto
  have map: "mappable s" using wf by (simp add: tables_wf_def)
  note pt = tables_ok [OF wf pk(1) par]
  obtain p where t: "t = pa_to_va p" and h: "hooked parent k p s s'"
    using new_table [OF map free pt pk(2) False r] by blast
  have p: "p \<in> free_frames s" "va_to_pa t = p" "HHDM \<le> t" "aligned t"
      "free_frames s' = free_frames s - {p}" "mappable s'" "invalidated s' = invalidated s"
    and zero: "\<And>j. j < 512 \<Longrightarrow> entry (mem s') t j = 0"
    and old: "\<And>u j. table_ok s u \<Longrightarrow> j < 512 \<Longrightarrow> entry (mem s') u j =
         (if u = parent \<and> j = k then p OR PAGE_PRESENT OR PAGE_RW else entry (mem s) u j)"
    using h t unfolding hooked_def by blast+
  note paths = new_table_paths [OF wf par ok free False r]
  have none: "table_at s (ks @ [k]) = None" using False par by (simp add: table_at_snoc)
  have fresh: "table_at s ks' \<noteq> Some t" if "path_ok U ks'" for ks'
    using tables_ok [OF wf that] p(1,2) by (auto simp: table_ok_def)
  have keep: "table_ok s' u" if "table_ok s u" for u using that p(5) by (simp add: table_ok_def)
  have new: "table_ok s' t" using p by (simp add: table_ok_def)
  have cases: "u = t \<and> ks' = ks @ [k] \<or> table_at s ks' = Some u"
    if "path_ok U ks'" "table_at s' ks' = Some u" for ks' u
    using paths [OF that(1)] that(2) by (auto split: if_splits)
  have "tables_wf U s'"
    unfolding tables_wf_def
  proof (intro conjI allI impI)
    show "mappable s'" by (fact p(6))
    show "table_ok s' u" if "path_ok U ks' \<and> table_at s' ks' = Some u" for ks' u
      using cases [of ks' u] that new keep tables_ok [OF wf] by blast
    show "ks1 = ks2" if h: "path_ok U ks1 \<and> path_ok U ks2 \<and> table_at s' ks1 = Some u \<and>
        table_at s' ks2 = Some u" for ks1 ks2 u
    proof -
      have "path_ok U ks1" "path_ok U ks2" using h by auto
      then show ?thesis
        using cases [of ks1 u] cases [of ks2 u] h fresh tables_inj [OF wf] by metis
    qed
  qed
  moreover have "card (free_frames s) \<le> card (free_frames s') + 1"
    using p(1,5) by (simp add: card_Diff_singleton)
  moreover have "lookup_page s' va = lookup_page s va" if U: "in_slots U va" for va
  proof -
    let ?ks = "upper_path va" and ?j = "get_pt_index va"
    have "path_ok U ?ks" by (rule upper_path_ok [OF U])
    note up = paths [OF this]
    consider "?ks = ks @ [k]" | "strict_prefix (ks @ [k]) ?ks"
      | "?ks \<noteq> ks @ [k]" "\<not> strict_prefix (ks @ [k]) ?ks" by blast
    then show ?thesis
    proof cases
      case 1
      then show ?thesis using up none zero by (simp add: lookup_page_def present_def)
    next
      case 2
      then have "table_at s ?ks = None" using table_at_extend_None [OF none] by (simp add: strict_prefix_def)
      then show ?thesis using 2 up by (auto simp: lookup_page_def strict_prefix_def)
    next
      case 3
      have "ks \<noteq> ?ks" using ok by (auto simp: path_ok_def upper_path_def)
      then have "entry (mem s') u ?j = entry (mem s) u ?j" if "table_at s ?ks = Some u" for u
        using old [OF tables_ok [OF wf upper_path_ok [OF U] that], of ?j] par
          tables_inj [OF wf pk(1) _ upper_path_ok [OF U] that] by auto
      then show ?thesis using 3 up by (auto simp: lookup_page_def split: option.split)
    qed
  qed
  ultimately show ?thesis using paths [OF ok] p(7) by (simp add: grown_def)
qed

section \<open>Leaf entries\<close>

definition same_leaf :: "u64 \<Rightarrow> u64 \<Rightarrow> bool" where
  "same_leaf va vb \<longleftrightarrow> upper_path va = upper_path vb \<and> get_pt_index va = get_pt_index vb"

lemma set_leaf:
  fixes e :: u64
  assumes wf: "tables_wf U s" and U: "in_slots U va" and pt: "table_at s (upper_path va) = Some pt"
  defines "s' \<equiv> set_entry pt (get_pt_index va) e s"
  shows "tables_wf U s'" and "free_frames s' = free_frames s"
    and "in_slots U vb \<Longrightarrow> lookup_page s' vb =
      (if same_leaf va vb then if present e then Some e else None else lookup_page s vb)"
proof -
  let ?d = "get_pt_index va" and ?m = "write64 (mem s) (pt + 8 * get_pt_index va) e"
  have s': "s' = s\<lparr>mem := ?m\<rparr>" by (simp add: s'_def set_entry_def)
  note up = upper_path_ok [OF U]
  have ptok: "HHDM \<le> pt" "aligned pt" using tables_ok [OF wf up pt] by (auto simp: table_ok_def)
  have map: "mappable s" using wf by (simp add: tables_wf_def)
  have "?m x = mem s x" if "in_region (bitmap s) (bitmap_size s) x" for x
  proof (rule write64_outside)
    show "\<not> in_region (pt + 8 * ?d) 8 x"
      using high_not_bitmap [OF map] high_page [OF ptok] entry_in_page [OF index_bounds(4)] that by blast
  qed
  then show free: "free_frames s' = free_frames s"
    unfolding s' using map by (intro mem_update_free) (auto simp: mappable_def)
  have ent: "entry (mem s') u j = (if pt = u \<and> ?d = j then e else entry (mem s) u j)"
    if "path_ok U ks" "table_at s ks = Some u" "j < 512" for ks u j
    using entry_write [OF ptok(2) _ index_bounds(4) that(3)] tables_ok [OF wf that(1,2)]
    by (simp add: s' table_ok_def)
  have paths: "table_at s' ks = table_at s ks" if "path_ok U ks" for ks
    using that
  proof (induction ks rule: rev_induct)
    case Nil
    then show ?case by (simp add: table_at_def s')
  next
    case (snoc j ks)
    have j: "path_ok U ks" "j < 512" using path_ok_snoc [OF snoc.prems] by auto
    have "u \<noteq> pt" if "table_at s ks = Some u" for u
    proof
      assume "u = pt"
      then have "ks = upper_path va" using tables_inj [OF wf j(1) _ up pt] that by simp
      then show False using snoc.prems by (simp add: path_ok_def upper_path_def)
    qed
    then show ?case
      using snoc.IH [OF j(1)] ent [OF j(1) _ j(2)] by (auto simp: table_at_snoc split: option.split)
  qed
  show "tables_wf U s'"
    unfolding tables_wf_def
  proof (intro conjI allI impI)
    show "mappable s'" using map by (simp add: s')
    show "table_ok s' t" if "path_ok U ks \<and> table_at s' ks = Some t" for ks t
      using that tables_ok [OF wf] paths free by (auto simp: table_ok_def)
    show "ks = ks'" if "path_ok U ks \<and> path_ok U ks' \<and> table_at s' ks = Some t \<and> table_at s' ks' = Some t"
      for ks ks' t
      using that tables_inj [OF wf] paths by metis
  qed
  show "lookup_page s' vb =
      (if same_leaf va vb then if present e then Some e else None else lookup_page s vb)"
    if V: "in_slots U vb"
  proof -
    note upb = upper_path_ok [OF V]
    have "pt = u \<longleftrightarrow> upper_path va = upper_path vb" if "table_at s (upper_path vb) = Some u" for u
      using tables_inj [OF wf up pt upb] that pt by auto
    then show ?thesis
      using paths [OF upb] ent [OF upb _ index_bounds(4), of _ vb] pt
      by (auto simp: lookup_page_def same_leaf_def split: option.split)
  qed
qed

lemma invlpg_view [simp]:
  "tables_wf U (invlpg va s) = tables_wf U s" "free_frames (invlpg va s) = free_frames s"
  "lookup_page (invlpg va s) vb = lookup_page s vb"
  "invalidated (invlpg va s) = va # invalidated s"
proof -
  show free: "free_frames (invlpg va s) = free_frames s"
    by (simp add: invlpg_def free_frames_def frame_managed_def frame_used_def bitmap_test_def)
  have "table_at (invlpg va s) = table_at s" by (simp add: invlpg_def table_at_def fun_eq_iff)
  moreover have "mappable (invlpg va s) = mappable s"
    by (simp add: invlpg_def mappable_def pmm_wf_def bitmap_wf_def)
  ultimately show "tables_wf U (invlpg va s) = tables_wf U s"
    using free by (simp add: tables_wf_def table_ok_def)
  show "lookup_page (invlpg va s) vb = lookup_page s vb" "invalidated (invlpg va s) = va # invalidated s"
    by (simp_all add: invlpg_def lookup_page_def table_at_def split: option.split)
qed

text \<open>One page of \<open>mmap\<close> and of \<open>munmap\<close>.\<close>

lemma mmap_page_spec:
  assumes wf: "tables_wf U s" and U: "in_slots U va" and room: "3 \<le> card (free_frames s)"
    and r: "mmap_page pa va at s = (pt, s')"
  shows "tables_wf U s'" and "card (free_frames s) \<le> card (free_frames s') + 3"
    and "in_slots U vb \<Longrightarrow> lookup_page s' vb =
      (if same_leaf va vb then if present (leaf_entry pa at) then Some (leaf_entry pa at) else None
       else lookup_page s vb)"
    and "entry (mem s') pt (get_pt_index va) = leaf_entry pa at"
    and "invalidated s' = invalidated s"
proof -
  let ?a = "get_pml4_index va" and ?b = "get_pdpt_index va" and ?c = "get_pd_index va"
  obtain pdpt s1 where 1: "ensure_table_exists (current_PML4 s) ?a s = (pdpt, s1)" by fastforce
  obtain pd s2 where 2: "ensure_table_exists pdpt ?b s1 = (pd, s2)" by fastforce
  obtain pt' s3 where 3: "ensure_table_exists pd ?c s2 = (pt', s3)" by fastforce
  have s': "pt = pt'" "s' = set_entry pt (get_pt_index va) (leaf_entry pa at) s3"
    using r 1 2 3 by (auto simp: mmap_page_def)
  have ok: "path_ok U ([] @ [?a])" "path_ok U ([?a] @ [?b])" "path_ok U ([?a, ?b] @ [?c])"
    using U by (simp_all add: path_ok_def in_slots_def)
  have ne: "free_frames s \<noteq> {}" using room by auto
  have "table_at s [] = Some (current_PML4 s)" by (simp add: table_at_def)
  then have e1: "table_at s1 [?a] = Some pdpt" "grown U 1 s s1"
    using ensure_spec [OF wf _ ok(1) ne 1] by simp_all
  have w1: "tables_wf U s1" "free_frames s1 \<noteq> {}" using e1(2) room by (auto simp: grown_def)
  have e2: "table_at s2 [?a, ?b] = Some pd" "grown U 1 s1 s2"
    using ensure_spec [OF w1(1) e1(1) ok(2) w1(2) 2] by simp_all
  note g2 = grown_trans [OF e1(2) e2(2)]
  have w2: "tables_wf U s2" "free_frames s2 \<noteq> {}" using g2 room by (auto simp: grown_def)
  have e3: "table_at s3 (upper_path va) = Some pt" "grown U 1 s2 s3"
    using ensure_spec [OF w2(1) e2(1) ok(3) w2(2) 3] s'(1) by (simp_all add: upper_path_def)
  have g3: "grown U 3 s s3" using grown_trans [OF g2 e3(2)] by (simp add: numeral_3_eq_3)
  have w3: "tables_wf U s3" using g3 by (simp add: grown_def)
  note leaf = set_leaf [OF w3 U e3(1), where e = "leaf_entry pa at", folded s'(2)]
  show "tables_wf U s'" by (rule leaf(1))
  show "card (free_frames s) \<le> card (free_frames s') + 3" using g3 leaf(2) by (simp add: grown_def)
  show "lookup_page s' vb =
      (if same_leaf va vb then if present (leaf_entry pa at) then Some (leaf_entry pa at) else None
       else lookup_page s vb)" if "in_slots U vb"
    using leaf(3) [OF that] g3 that by (simp add: grown_def)
  show "entry (mem s') pt (get_pt_index va) = leaf_entry pa at"
    by (simp add: s' set_entry_def entry_def mem_simps)
  show "invalidated s' = invalidated s" using g3 by (simp add: s' set_entry_def grown_def)
qed

lemma munmap_page_spec:
  assumes wf: "tables_wf U s" and U: "in_slots U va"
  shows "tables_wf U (munmap_page va s)" and "free_frames (munmap_page va s) = free_frames s"
    and "in_slots U vb \<Longrightarrow>
      lookup_page (munmap_page va s) vb = (if same_leaf va vb then None else lookup_page s vb)"
proof -
  have *: "munmap_page va s =
    (case table_at s (upper_path va) of
       None \<Rightarrow> s | Some t \<Rightarrow> invlpg va (set_entry t (get_pt_index va) 0 s))"
    by (simp add: munmap_page_def table_at_def upper_path_def Let_def)
  have none: "lookup_page s vb = None" if "table_at s (upper_path va) = None" "same_leaf va vb"
    using that by (simp add: lookup_page_def same_leaf_def)
  show "tables_wf U (munmap_page va s)" "free_frames (munmap_page va s) = free_frames s"
    using wf set_leaf(1,2) [OF wf U] by (simp_all add: * split: option.split)
  show "lookup_page (munmap_page va s) vb = (if same_leaf va vb then None else lookup_page s vb)"
    if "in_slots U vb"
    using none set_leaf(3) [OF wf U _ that, where e = 0] by (simp add: * present_def split: option.split)
qed

section \<open>Page numbers\<close>

definition page_number :: "u64 \<Rightarrow> u64" where
  "page_number va = take_bit 36 (drop_bit 12 va)"

lemma and_0x1FF: "(w :: u64) AND 0x1FF = take_bit 9 w"
  by (simp add: take_bit_eq_mask mask_eq_exp_minus_1)

lemma bit_index:
  "bit (get_pml4_index va) n \<longleftrightarrow> n < 9 \<and> bit va (39 + n)"
  "bit (get_pdpt_index va) n \<longleftrightarrow> n < 9 \<and> bit va (30 + n)"
  "bit (get_pd_index va) n \<longleftrightarrow> n < 9 \<and> bit va (21 + n)"
  "bit (get_pt_index va) n \<longleftrightarrow> n < 9 \<and> bit va (12 + n)"
  by (simp_all add: get_pml4_index_def get_pdpt_index_def get_pd_index_def get_pt_index_def
      and_0x1FF bit_take_bit_iff bit_drop_bit_eq)

lemma bit_page_number: "bit (page_number va) n \<longleftrightarrow> n < 36 \<and> bit va (12 + n)"
  by (simp add: page_number_def bit_take_bit_iff bit_drop_bit_eq)

lemma same_leaf_page: "same_leaf va vb \<longleftrightarrow> page_number va = page_number vb"
proof
  assume s: "same_leaf va vb"
  have "bit va (12 + n) = bit vb (12 + n)" if "n < 36" for n
  proof -
    have f: "n < 9 \<longrightarrow> bit va (12 + n) = bit vb (12 + n)" "n < 9 \<longrightarrow> bit va (21 + n) = bit vb (21 + n)"
      "n < 9 \<longrightarrow> bit va (30 + n) = bit vb (30 + n)" "n < 9 \<longrightarrow> bit va (39 + n) = bit vb (39 + n)" for n
      using s unfolding same_leaf_def upper_path_def by (metis bit_index list.inject)+
    consider "n < 9" | m where "n = m + 9" "m < 9" | m where "n = m + 18" "m < 9"
      | m where "n = m + 27" "m < 9"
    proof -
      have "n < 9 \<or> n = (n - 9) + 9 \<and> n - 9 < 9 \<or> n = (n - 18) + 18 \<and> n - 18 < 9 \<or>
          n = (n - 27) + 27 \<and> n - 27 < 9" using \<open>n < 36\<close> by arith
      then show thesis using that by blast
    qed
    then show ?thesis using f by cases (auto simp: add.commute)
  qed
  then show "page_number va = page_number vb"
    by (intro bit_word_eqI) (auto simp: bit_page_number)
next
  assume p: "page_number va = page_number vb"
  have b: "bit va (12 + n) = bit vb (12 + n)" if "n < 36" for n
    using p that by (metis bit_page_number)
  have "bit va (12 + n) = bit vb (12 + n)" "bit va (21 + n) = bit vb (21 + n)"
    "bit va (30 + n) = bit vb (30 + n)" "bit va (39 + n) = bit vb (39 + n)" if "n < 9" for n
    using b [of n] b [of "9 + n"] b [of "18 + n"] b [of "27 + n"] that by (simp_all add: add.assoc)
  then show "same_leaf va vb"
    by (auto simp: same_leaf_def upper_path_def bit_index intro!: bit_word_eqI)
qed

lemma unat_page_number: "unat (page_number va) = unat va div 4096 mod 2 ^ 36"
  by (simp add: page_number_def take_bit_eq_mod drop_bit_eq_div unat_mod unat_div)

lemma page_number_step:
  "unat (page_number (va + of_nat i * 0x1000)) = (unat va div 4096 + i) mod 2 ^ 36"
proof -
  have "unat (va + of_nat i * 0x1000) = (unat va + i * 4096) mod 2 ^ 64"
    by (simp add: unat_word_ariths unat_of_nat mod_simps)
  moreover have "(unat va + i * 4096) mod 2 ^ 64 div 4096 mod 2 ^ 36 = (unat va div 4096 + i) mod 2 ^ 36"
  proof -
    have "x mod (a * b) div a = x div a mod b" if "0 < a" for x a b :: nat
      using that by (simp add: mod_mult2_eq)
    from this [of 4096 _ "2 ^ 52"]
    have "(unat va + i * 4096) mod 2 ^ 64 div 4096 = (unat va + i * 4096) div 4096 mod 2 ^ 52"
      by simp
    moreover have "(unat va + i * 4096) div 4096 = unat va div 4096 + i" by simp
    moreover have "y mod 2 ^ 52 mod 2 ^ 36 = y mod 2 ^ 36" for y :: nat
      by (rule mod_mod_cancel) (simp add: le_imp_power_dvd)
    ultimately show ?thesis by metis
  qed
  ultimately show ?thesis by (simp add: unat_page_number)
qed

lemma mod_shift_inj:
  fixes x y k M :: nat
  assumes "x \<le> y" and "y < M" and "(k + x) mod M = (k + y) mod M"
  shows "x = y"
proof -
  have "M dvd (k + y) - (k + x)" using assms mod_eq_dvd_iff_nat [of "k + x" "k + y" M] by simp
  then have "M dvd y - x" by simp
  moreover have "y - x < M" using assms by simp
  ultimately have "y - x = 0" by (metis dvd_imp_le not_less not_gr_zero)
  then show ?thesis using assms(1) by simp
qed

lemma page_number_inj:
  assumes "i < 2 ^ 36" and "j < 2 ^ 36" and "i \<noteq> j"
  shows "page_number (va + of_nat i * 0x1000) \<noteq> page_number (va + of_nat j * 0x1000)"
proof
  assume "page_number (va + of_nat i * 0x1000) = page_number (va + of_nat j * 0x1000)"
  then have "(unat va div 4096 + i) mod 2 ^ 36 = (unat va div 4096 + j) mod 2 ^ 36"
    by (metis page_number_step)
  then show False using assms mod_shift_inj [of i j] mod_shift_inj [of j i] by (metis nat_le_linear)
qed

section \<open>Runs of pages\<close>

fun page_run :: "(u64 \<Rightarrow> u64 \<Rightarrow> 's \<Rightarrow> 's) \<Rightarrow> nat \<Rightarrow> u64 \<Rightarrow> u64 \<Rightarrow> 's \<Rightarrow> 's" where
  "page_run step 0 pa va s = s"
| "page_run step (Suc n) pa va s = page_run step n (pa + 0x1000) (va + 0x1000) (step pa va s)"

lemma run_address: "(va :: u64) + 0x1000 + of_nat i * 0x1000 = va + of_nat (Suc i) * 0x1000"
  by (simp add: algebra_simps)

text \<open>
  An address space: \<open>step pa va\<close> gives the page of \<open>va\<close> the translation
  \<open>leaf pa\<close> and keeps that of every other page, at the price of at most \<open>cost\<close> of
  the \<open>room\<close> left.
\<close>

locale address_space =
  fixes wf :: "'s \<Rightarrow> bool"
    and room :: "'s \<Rightarrow> nat"
    and ok :: "u64 \<Rightarrow> bool"
    and look :: "'s \<Rightarrow> u64 \<Rightarrow> u64 option"
    and step :: "u64 \<Rightarrow> u64 \<Rightarrow> 's \<Rightarrow> 's"
    and leaf :: "u64 \<Rightarrow> u64 option"
    and cost :: nat
  assumes step_wf: "wf s \<Longrightarrow> ok va \<Longrightarrow> cost \<le> room s \<Longrightarrow> wf (step pa va s)"
    and step_room: "wf s \<Longrightarrow> ok va \<Longrightarrow> cost \<le> room s \<Longrightarrow> room s \<le> room (step pa va s) + cost"
    and step_look: "wf s \<Longrightarrow> ok va \<Longrightarrow> cost \<le> room s \<Longrightarrow> ok vb \<Longrightarrow>
      look (step pa va s) vb = (if page_number va = page_number vb then leaf pa else look s vb)"
begin

lemma run_induct_facts:
  assumes "wf s" and "\<forall>i<Suc n. ok (va + of_nat i * 0x1000)" and "cost * Suc n \<le> room s"
  shows "ok va" "cost \<le> room s" "wf (step pa va s)" "cost * n \<le> room (step pa va s)"
    "\<forall>i<n. ok (va + 0x1000 + of_nat i * 0x1000)"
proof -
  show va: "ok va" using assms(2) [rule_format, of 0] by simp
  show c: "cost \<le> room s" using assms(3) by simp
  show "wf (step pa va s)" by (rule step_wf [OF assms(1) va c])
  show "cost * n \<le> room (step pa va s)" using step_room [OF assms(1) va c, of pa] assms(3) by simp
  show "\<forall>i<n. ok (va + 0x1000 + of_nat i * 0x1000)"
    unfolding run_address using assms(2) by auto
qed

lemma run_wf:
  "wf s \<Longrightarrow> \<forall>i<n. ok (va + of_nat i * 0x1000) \<Longrightarrow> cost * n \<le> room s \<Longrightarrow> wf (page_run step n pa va s)"
proof (induction n arbitrary: pa va s)
  case (Suc n)
  show ?case using Suc.IH run_induct_facts [OF Suc.prems] by simp
qed simp

lemma run_miss:
  "wf s \<Longrightarrow> \<forall>i<n. ok (va + of_nat i * 0x1000) \<Longrightarrow> cost * n \<le> room s \<Longrightarrow> ok vb \<Longrightarrow>
   \<forall>i<n. page_number (va + of_nat i * 0x1000) \<noteq> page_number vb \<Longrightarrow>
   look (page_run step n pa va s) vb = look s vb"
proof (induction n arbitrary: pa va s)
  case (Suc n)
  note f = run_induct_facts [OF Suc.prems(1-3)]
  have "page_number va \<noteq> page_number vb" using Suc.prems(5) [rule_format, of 0] by simp
  moreover have "\<forall>i<n. page_number (va + 0x1000 + of_nat i * 0x1000) \<noteq> page_number vb"
    unfolding run_address using Suc.prems(5) by auto
  ultimately show ?case
    using Suc.IH [OF f(3,5,4) Suc.prems(4)] step_look [OF Suc.prems(1) f(1,2) Suc.prems(4)] by simp
qed simp

lemma run_hit:
  "wf s \<Longrightarrow> \<forall>i<n. ok (va + of_nat i * 0x1000) \<Longrightarrow> cost * n \<le> room s \<Longrightarrow> n \<le> 2 ^ 36 \<Longrightarrow> i < n \<Longrightarrow>
   look (page_run step n pa va s) (va + of_nat i * 0x1000) = leaf (pa + of_nat i * 0x1000)"
proof (induction n arbitrary: i pa va s)
  case (Suc n)
  note f = run_induct_facts [OF Suc.prems(1-3)]
  show ?case
  proof (cases i)
    case 0
    have "page_number (va + 0x1000 + of_nat j * 0x1000) \<noteq> page_number va" if "j < n" for j
      unfolding run_address using page_number_inj [of "Suc j" 0 va] that Suc.prems(4) by simp
    then have "look (page_run step (Suc n) pa va s) va = look (step pa va s) va"
      using run_miss [OF f(3,5,4,1)] by simp
    then show ?thesis using 0 step_look [OF Suc.prems(1) f(1,2,1)] by simp
  next
    case (Suc k)
    then have "look (page_run step n (pa + 0x1000) (va + 0x1000) (step pa va s))
        (va + 0x1000 + of_nat k * 0x1000) = leaf (pa + 0x1000 + of_nat k * 0x1000)"
      using Suc.prems by (intro Suc.IH f(3,5,4)) simp_all
    then show ?thesis unfolding run_address using Suc by simp
  qed
qed simp

end

definition mmap_step :: "u64 \<Rightarrow> u64 \<Rightarrow> u64 \<Rightarrow> 'a vmm_scheme \<Rightarrow> 'a vmm_scheme" where
  "mmap_step at pa va s = invlpg va (snd (mmap_page pa va at s))"

definition mapping_of :: "u64 \<Rightarrow> u64 option" where
  "mapping_of e = (if present e then Some e else None)"

interpretation map_run: address_space "tables_wf U" "\<lambda>s. card (free_frames s)" "in_slots U"
  lookup_page "mmap_step at" "\<lambda>pa. mapping_of (leaf_entry pa at)" 3
  for U :: "u64 set" and at :: u64
proof (unfold_locales, goal_cases)
  case (1 s va pa)
  then show ?case
    using mmap_page_spec(1) [OF 1, of pa at "fst (mmap_page pa va at s)" "snd (mmap_page pa va at s)"]
    by (simp add: mmap_step_def)
next
  case (2 s va pa)
  then show ?case
    using mmap_page_spec(2) [OF 2, of pa at "fst (mmap_page pa va at s)" "snd (mmap_page pa va at s)"]
    by (simp add: mmap_step_def)
next
  case (3 s va vb pa)
  then show ?case
    using mmap_page_spec(3) [OF 3(1-3) _ 3(4), of pa at "fst (mmap_page pa va at s)" "snd (mmap_page pa va at s)"]
    by (simp add: mmap_step_def mapping_of_def same_leaf_page)
qed

interpretation unmap_run: address_space "tables_wf U" "\<lambda>s. card (free_frames s)" "in_slots U"
  lookup_page "\<lambda>_. munmap_page" "\<lambda>_. None" 0
  for U :: "u64 set"
  by unfold_locales (simp_all add: munmap_page_spec same_leaf_page)

lemma unat_countdown: "i < n \<Longrightarrow> unat (n - i) = Suc (unat (n - (i + 1 :: u64)))"
  using word_Suc_le [of i n] by (simp add: unat_sub word_le_nat_alt word_less_nat_alt)

lemma mmap_loop_run:
  "i \<le> n \<Longrightarrow> snd (mmap_loop i n pa va at f s) = page_run (mmap_step at) (unat (n - i)) pa va s"
proof (induction i n pa va at f s rule: mmap_loop.induct)
  case (1 i n pa va at f s)
  show ?case
  proof (cases "i < n")
    case True
    obtain pt s1 where r: "mmap_page pa va at s = (pt, s1)" by fastforce
    then show ?thesis
      using True 1(1) [OF True r [symmetric] refl] word_Suc_le(2) [OF True]
      by (simp add: mmap_loop.simps [of i n pa va at f s] unat_countdown [OF True] mmap_step_def)
  next
    case False
    then have "i = n" using 1(2) by simp
    then show ?thesis by (simp add: mmap_loop.simps [of n n])
  qed
qed

lemma mmap_loop_first: "i \<noteq> 0 \<Longrightarrow> i \<le> n \<Longrightarrow> fst (mmap_loop i n pa va at f s) = f"
proof (induction i n pa va at f s rule: mmap_loop.induct)
  case (1 i n pa va at f s)
  obtain pt s1 where r: "mmap_page pa va at s = (pt, s1)" by fastforce
  show ?case
  proof (cases "i < n")
    case True
    have "i + 1 \<noteq> 0" using word_Suc_le(1) [OF True] by (metis Suc_eq_plus1 unat_0 nat.distinct(1))
    then show ?thesis
      using 1(1) [OF True r [symmetric] refl] word_Suc_le(2) [OF True] True r 1(2)
      by (simp add: mmap_loop.simps [of i n pa va at f s])
  qed (simp add: mmap_loop.simps [of i n pa va at f s])
qed

lemma munmap_loop_run:
  "i \<le> n \<Longrightarrow> munmap_loop i n va s = page_run (\<lambda>_. munmap_page) (unat (n - i)) pa va s"
proof (induction i n va s arbitrary: pa rule: munmap_loop.induct)
  case (1 i n va s)
  show ?case
  proof (cases "i < n")
    case True
    then show ?thesis
      using 1(1) [OF True word_Suc_le(2) [OF True]]
      by (simp add: munmap_loop.simps [of i n va s] unat_countdown [OF True])
  next
    case False
    then have "i = n" using 1(2) by simp
    then show ?thesis by (simp add: munmap_loop.simps [of n n])
  qed
qed

text \<open>Every page of the run is invalidated.\<close>

lemma mmap_run_invalidated:
  assumes "tables_wf U s" and "\<forall>i<n. in_slots U (va + of_nat i * 0x1000)"
    and "3 * n \<le> card (free_frames s)"
  shows "set (invalidated (page_run (mmap_step at) n pa va s)) =
    (\<lambda>i. va + of_nat i * 0x1000) ` {..<n} \<union> set (invalidated s)"
  using assms
proof (induction n arbitrary: pa va s)
  case (Suc n)
  note f = map_run.run_induct_facts [OF Suc.prems]
  have s1: "invalidated (mmap_step at pa va s) = va # invalidated s"
    using mmap_page_spec(5) [OF Suc.prems(1) f(1,2), of pa at "fst (mmap_page pa va at s)"]
    by (simp add: mmap_step_def)
  have "(\<lambda>i. va + of_nat i * 0x1000) ` {..<Suc n} =
      insert va ((\<lambda>i. va + 0x1000 + of_nat i * 0x1000) ` {..<n})"
    unfolding run_address lessThan_Suc_eq_insert_0 image_insert image_image by simp
  then show ?case using Suc.IH [OF f(3,5,4), of "pa + 0x1000"] s1 by simp
qed simp

section \<open>New address spaces\<close>

definition half_copied :: "u64 \<Rightarrow> nat \<Rightarrow> 'a vmm_scheme \<Rightarrow> 'a vmm_scheme \<Rightarrow> bool" where
  "half_copied t k s s' \<longleftrightarrow> (\<exists>m. s' = s\<lparr>mem := m\<rparr>) \<and>
    (\<forall>j<512. entry (mem s') t j =
      (if 256 \<le> unat j \<and> unat j < k then entry (mem s) (original_PML4 s) j else entry (mem s) t j)) \<and>
    (\<forall>u. \<forall>j<512. aligned u \<and> u \<noteq> t \<longrightarrow> entry (mem s') u j = entry (mem s) u j) \<and>
    (\<forall>x. \<not> in_region t 0x1000 x \<longrightarrow> mem s' x = mem s x)"

lemma half_copied_step:
  assumes al: "aligned t" "aligned (original_PML4 s)" "original_PML4 s \<noteq> t"
    and k: "256 \<le> k" "k < 512" and "half_copied t k s s1"
  shows "half_copied t (Suc k) s (copy_entry t k s1)"
proof -
  obtain m where m: "s1 = s\<lparr>mem := m\<rparr>" using assms(6) by (auto simp: half_copied_def)
  have IH: "\<And>j. j < 512 \<Longrightarrow> entry m t j =
      (if 256 \<le> unat j \<and> unat j < k then entry (mem s) (original_PML4 s) j else entry (mem s) t j)"
    "\<And>u j. j < 512 \<Longrightarrow> aligned u \<Longrightarrow> u \<noteq> t \<Longrightarrow> entry m u j = entry (mem s) u j"
    "\<And>x. \<not> in_region t 0x1000 x \<Longrightarrow> m x = mem s x"
    using assms(6) m by (auto simp: half_copied_def)
  have uk: "unat (of_nat k :: u64) = k" using k by (intro unat_of_nat64) simp
  then have k512: "(of_nat k :: u64) < 512" using k by (simp add: word_less_nat_alt)
  let ?e = "entry (mem s) (original_PML4 s) (of_nat k)"
  let ?m = "write64 m (t + 8 * of_nat k) ?e"
  have f: "copy_entry t k s1 = s\<lparr>mem := ?m\<rparr>"
    using IH(2) [OF k512 al(2,3)] by (simp add: m copy_entry_def set_entry_def)
  have "entry ?m t j =
    (if 256 \<le> unat j \<and> unat j < Suc k then entry (mem s) (original_PML4 s) j else entry (mem s) t j)"
    if "j < 512" for j
  proof -
    have "of_nat k = j \<longleftrightarrow> unat j = k" using uk by (metis word_unat_eq_iff)
    then show ?thesis using entry_write [OF al(1,1) k512 that] IH(1) [OF that] k(1) by auto
  qed
  moreover have "entry ?m u j = entry (mem s) u j" if "j < 512" "aligned u" "u \<noteq> t" for u j
    using entry_write [OF al(1) that(2) k512 that(1)] IH(2) [OF that] that(3) by simp
  moreover have "?m x = mem s x" if "\<not> in_region t 0x1000 x" for x
    using write64_outside entry_in_page [OF k512] IH(3) [OF that] that by metis
  ultimately show ?thesis unfolding f half_copied_def by auto
qed

lemma copy_upper_half:
  assumes "aligned t" "aligned (original_PML4 s)" "original_PML4 s \<noteq> t"
  shows "half_copied t 512 s (fold (copy_entry t) [256..<512] s)"
proof -
  have "half_copied t (256 + n) s (fold (copy_entry t) [256..<256 + n] s)" if "n \<le> 256" for n
    using that
  proof (induction n)
    case 0
    have "s = s\<lparr>mem := mem s\<rparr>" by simp
    then show ?case unfolding half_copied_def by (auto intro: exI [of _ "mem s"])
  next
    case (Suc n)
    then have "half_copied t (Suc (256 + n)) s (copy_entry t (256 + n) (fold (copy_entry t) [256..<256 + n] s))"
      by (intro half_copied_step [OF assms]) simp_all
    moreover have "[256..<256 + Suc n] = [256..<256 + n] @ [256 + n]"
      using upt_Suc_append [of 256 "256 + n"] by (simp del: upt_Suc)
    ultimately show ?case by (simp only: fold_append fold.simps comp_def add_Suc_right id_apply)
  qed
  from this [of 256] show ?thesis by simp
qed

text \<open>A root with no present entry in the slots \<open>U\<close> is an empty tree.\<close>

lemma empty_tree:
  assumes "mappable s" and "table_ok s (current_PML4 s)"
    and "\<And>k. k < 512 \<Longrightarrow> k \<in> U \<Longrightarrow> \<not> present (entry (mem s) (current_PML4 s) k)"
  shows "tables_wf U s" and "in_slots U va \<Longrightarrow> lookup_page s va = None"
proof -
  have none: "table_at s ks = (if ks = [] then Some (current_PML4 s) else None)" if "path_ok U ks" for ks
    using that assms(3) by (cases ks) (auto simp: table_at_def path_ok_def)
  then show "tables_wf U s"
    using assms(1,2) unfolding tables_wf_def by (metis option.distinct(1) option.inject)
  show "lookup_page s va = None" if "in_slots U va"
    using none [OF upper_path_ok [OF that]] by (simp add: lookup_page_def upper_path_def)
qed

definition lower_half :: "u64 set" where "lower_half = {k. k < 256}"

lemma create_pagetable_spec:
  assumes map: "mappable s" and free: "free_frames s \<noteq> {}" and orig: "table_ok s (original_PML4 s)"
    and r: "create_pagetable s = (page, s')"
  shows "page \<noteq> 0" "page \<in> free_frames s" "mappable s'" "free_frames s' = free_frames s - {page}"
    "table_ok s' (pa_to_va page)"
    "j < 512 \<Longrightarrow> entry (mem s') (pa_to_va page) j =
       (if 256 \<le> unat j then entry (mem s) (original_PML4 s) j else 0)"
    "table_ok s u \<Longrightarrow> j < 512 \<Longrightarrow> entry (mem s') u j = entry (mem s) u j"
proof -
  obtain p s1 where p: "palloc 1 s = (p, s1)" by fastforce
  let ?t = "pa_to_va page" and ?s2 = "s1\<lparr>mem := filled (mem s1) (pa_to_va p) 0 0x1000\<rparr>"
  have f: "fresh_table p s ?s2" by (rule palloc_fresh_table [OF map free p])
  have pg: "page = p" and s': "s' = fold (copy_entry ?t) [256..<512] ?s2"
    using r p f by (auto simp: create_pagetable_def memset_fill Let_def fresh_table_def)
  have o: "original_PML4 ?s2 = original_PML4 s" using f by (simp add: fresh_table_def)
  have al: "aligned ?t" "aligned (original_PML4 ?s2)" "original_PML4 ?s2 \<noteq> ?t" "HHDM \<le> ?t"
    using f orig unfolding o pg by (auto simp: fresh_table_def table_ok_def)
  note h = copy_upper_half [OF al(1-3), folded s', unfolded half_copied_def]
  obtain m where m: "s' = ?s2\<lparr>mem := m\<rparr>" using h by blast
  show "page \<noteq> 0" "page \<in> free_frames s" using f pg by (simp_all add: fresh_table_def)
  show "mappable s'" using f by (simp add: fresh_table_def m)
  have "free_frames s' = free_frames ?s2"
    unfolding m using h f by (intro page_write_free [OF _ al(4,1)]) (auto simp: fresh_table_def m)
  then show fr: "free_frames s' = free_frames s - {page}" using f pg by (simp add: fresh_table_def)
  show "table_ok s' ?t" using fr f pg by (simp add: table_ok_def fresh_table_def)
  show "entry (mem s') ?t j = (if 256 \<le> unat j then entry (mem s) (original_PML4 s) j else 0)"
    if "j < 512"
    using h f that orig pg unfolding o
    by (auto simp: fresh_table_def word_less_nat_alt)
  show "entry (mem s') u j = entry (mem s) u j" if "table_ok s u" "j < 512"
    using h f that pg by (auto simp: fresh_table_def table_ok_def)
qed

lemma mmap_first:
  assumes "tables_wf U s" and "\<forall>i<unat n. in_slots U (va + of_nat i * 0x1000)"
    and "3 * unat n \<le> card (free_frames s)" and "mmap pa va n attributes s = (first, s')"
  shows "first = (if n = 0 then 0 else leaf_entry pa attributes)"
proof (cases "n = 0")
  case True
  then show ?thesis using assms(4) by (simp add: mmap_def mmap_loop.simps)
next
  case False
  obtain pt s1 where r: "mmap_page pa va attributes s = (pt, s1)" by fastforce
  have n: "0 < n" "1 \<le> n" "0 < unat n"
    using False word_Suc_le(2) [of 0 n] by (simp_all add: word_neq_0_conv unat_gt_0)
  have "in_slots U va" using assms(2) n(3) by force
  moreover have "3 \<le> card (free_frames s)" using assms(3) n(3) by linarith
  ultimately have "entry (mem s1) pt (get_pt_index va) = leaf_entry pa attributes"
    using mmap_page_spec(4) [OF assms(1) _ _ r] by blast
  then have "fst (mmap_loop 0 n pa va attributes 0 s) = leaf_entry pa attributes"
    using n r by (simp add: mmap_loop.simps [of 0] mmap_loop_first)
  then show ?thesis using assms(4) False by (simp add: mmap_def)
qed

section \<open>Properties\<close>

text \<open>
  C3. \<open>mmap\<close> refines the update of an address space. On a well-formed tree of tables,
  with at least three free frames per page, every page of the run is translated to its frame
  with the requested flags, the translation of every other page is kept, the tree stays
  well formed, every page of the run is invalidated in the TLB, and the first leaf entry
  is returned.
\<close>

theorem mmap_translates:
  assumes "tables_wf U s" and "\<forall>i<unat n. in_slots U (va + of_nat i * 0x1000)"
    and "3 * unat n \<le> card (free_frames s)" and "unat n \<le> 2 ^ 36"
    and "mmap pa va n attributes s = (first, s')"
  shows "tables_wf U s' \<and>
    (\<forall>i<unat n. lookup_page s' (va + of_nat i * 0x1000) =
       mapping_of (leaf_entry (pa + of_nat i * 0x1000) attributes)) \<and>
    (\<forall>vb. in_slots U vb \<and> (\<forall>i<unat n. page_number (va + of_nat i * 0x1000) \<noteq> page_number vb) \<longrightarrow>
       lookup_page s' vb = lookup_page s vb) \<and>
    (\<forall>i<unat n. va + of_nat i * 0x1000 \<in> set (invalidated s')) \<and>
    first = (if n = 0 then 0 else leaf_entry pa attributes)"
proof (intro conjI)
  have s': "s' = page_run (mmap_step attributes) (unat n) pa va s"
    using assms(5) mmap_loop_run [of 0 n pa va attributes 0 s] by (simp add: mmap_def)
  note run = map_run.run_wf [OF assms(1-3)] map_run.run_hit [OF assms(1-4)]
    map_run.run_miss [OF assms(1-3)]
  show "tables_wf U s'" unfolding s' by (rule run(1))
  show "\<forall>i<unat n. lookup_page s' (va + of_nat i * 0x1000) =
       mapping_of (leaf_entry (pa + of_nat i * 0x1000) attributes)"
    unfolding s' using run(2) by blast
  show "\<forall>vb. in_slots U vb \<and> (\<forall>i<unat n. page_number (va + of_nat i * 0x1000) \<noteq> page_number vb) \<longrightarrow>
       lookup_page s' vb = lookup_page s vb"
    unfolding s' using run(3) by blast
  show "\<forall>i<unat n. va + of_nat i * 0x1000 \<in> set (invalidated s')"
    unfolding s' mmap_run_invalidated [OF assms(1-3)] by blast
  show "first = (if n = 0 then 0 else leaf_entry pa attributes)"
    by (rule mmap_first [OF assms(1,2,3,5)])
qed


text \<open>
  The booted machine with an empty lower half: the root table is in a page below 1 MiB,
  which the physical allocator does not manage.
\<close>

definition demo_root :: u64 where "demo_root = 0xFFFF800000001000"

definition demo_vmm_off :: vmm where
  "demo_vmm_off = pmm.extend demo_pmm
     \<lparr>original_PML4 = demo_root, default_PML4 = demo_root, current_PML4 = demo_root, cr3 = 0x1000,
      invalidated = []\<rparr>"

definition demo_vmm :: vmm where
  "demo_vmm = pmm_initialise 0 (Some demo_map) demo_vmm_off"

lemma demo_off: "pmm_fresh demo_vmm_off" "mem demo_vmm_off x = 0"
  "current_PML4 demo_vmm_off = demo_root" "original_PML4 demo_vmm_off = demo_root"
  by (simp_all add: demo_vmm_off_def demo_pmm_def pmm.defs pmm_fresh_def)

lemma demo_vmm_boot:
  "mappable demo_vmm" "8 \<le> card (free_frames demo_vmm)" "0x1000 \<notin> free_frames demo_vmm"
  "mem demo_vmm x = 0" "current_PML4 demo_vmm = demo_root" "original_PML4 demo_vmm = demo_root"
proof -
  note b = demo_boot [OF demo_off(1), folded demo_vmm_def]
  have wf: "pmm_wf demo_vmm"
    unfolding demo_vmm_def by (rule pmm_initialise_establishes(1) [OF demo_off(1) demo_machine(2-4)])
  have seg: "aligned (seg_base (segments demo_vmm ! i)) \<and>
      unat (seg_base (segments demo_vmm ! i)) + unat (seg_length (segments demo_vmm ! i)) \<le> 0x800000000000"
    if i: "i < MAX_SEGMENTS" "seg_length (segments demo_vmm ! i) \<noteq> 0" for i
  proof -
    have "\<not> 2 < i" using i demo_segments_nth(4) [of i True] by (auto simp: b)
    then consider "i = 0" | "i = 1" | "i = 2" by linarith
    then show ?thesis
      by cases (use demo_segments_nth(1-3) [of True] in \<open>simp_all add: b aligned_def\<close>)
  qed
  then show map: "mappable demo_vmm" using wf b(1) by (simp add: mappable_def)
  have "card {0x100000, 0x101000, 0x102000, 0x103000, 0x104000, 0x105000, 0x106000, 0x107000 :: u64} = 8"
    by simp
  then show "8 \<le> card (free_frames demo_vmm)"
    using card_mono [OF finite_words demo_free_frames [OF demo_off(1)]] unfolding demo_vmm_def by linarith
  have "\<not> frame_at (segments demo_vmm) i j 0x1000" for i j
  proof
    assume f: "frame_at (segments demo_vmm) i j 0x1000"
    have swf: "segments_wf (segments demo_vmm)" using wf by (simp add: pmm_wf_def)
    then have "0x100000 \<le> unat (seg_base (segments demo_vmm ! i))"
      using f by (simp add: segments_wf_def frame_at_def seg_live_def)
    then show False using frame_addr(1) [OF swf f] by simp
  qed
  then have "\<not> frame_managed demo_vmm 0x1000" by (simp add: frame_managed_def)
  then show "0x1000 \<notin> free_frames demo_vmm" by (auto simp: free_frames_def)
  show "mem demo_vmm x = 0" "current_PML4 demo_vmm = demo_root" "original_PML4 demo_vmm = demo_root"
    by (simp_all add: demo_vmm_def demo_boot_state [OF demo_off(1)] filled_def demo_off)
qed

lemma demo_root_ok: "table_ok demo_vmm demo_root"
  using demo_vmm_boot(3) by (simp add: table_ok_def demo_root_def HHDM_def aligned_def va_to_pa_def)

lemma demo_entry_zero: "entry (mem demo_vmm) t k = 0"
  unfolding entry_def read64_def by (rule read_le_zero) (rule demo_vmm_boot(4))

lemma demo_tables: "tables_wf lower_half demo_vmm"
  using empty_tree(1) [OF demo_vmm_boot(1)] demo_root_ok
  by (simp add: demo_vmm_boot demo_entry_zero present_def)

lemma demo_slots: "in_slots lower_half 0x400000" "in_slots lower_half 0x401000"
  by (simp_all add: in_slots_def lower_half_def get_pml4_index_def)

lemma demo_slot_run: "\<forall>i<unat (2 :: u64). in_slots lower_half (0x400000 + of_nat i * 0x1000)"
proof (intro allI impI)
  fix i assume "i < unat (2 :: u64)"
  then consider "i = 0" | "i = 1" by fastforce
  then show "in_slots lower_half (0x400000 + of_nat i * 0x1000)" by cases (simp_all add: demo_slots)
qed

theorem mmap_translates_witness:
  "lookup_page (snd (mmap 0x100000 0x400000 2 7 demo_vmm)) 0x401000 = Some 0x101007"
proof -
  obtain first s' where r: "mmap 0x100000 0x400000 2 7 demo_vmm = (first, s')" by fastforce
  have "\<forall>i<unat (2 :: u64). lookup_page s' (0x400000 + of_nat i * 0x1000) =
       mapping_of (leaf_entry (0x100000 + of_nat i * 0x1000) 7)"
    using mmap_translates [OF demo_tables demo_slot_run _ _ r] demo_vmm_boot(2) by simp
  then have "lookup_page s' (0x400000 + of_nat 1 * 0x1000) =
       mapping_of (leaf_entry (0x100000 + of_nat 1 * 0x1000) 7)"
    by (rule allE [of _ 1]) simp
  then show ?thesis by (simp add: r mapping_of_def leaf_entry_def present_def PAGE_PRESENT_def)
qed


text \<open>
  C9. \<open>munmap\<close> removes exactly the pages of its run, mapped or not, takes no memory,
  and keeps the tree well formed; so after \<open>mmap\<close> and \<open>munmap\<close> of a run no
  page of it is mapped and every other page is translated as before both calls.
\<close>

theorem munmap_removes:
  assumes "tables_wf U s" and "\<forall>i<unat n. in_slots U (va + of_nat i * 0x1000)"
    and "3 * unat n \<le> card (free_frames s)" and "unat n \<le> 2 ^ 36"
    and "s' = munmap va n s" and "s'' = munmap va n (snd (mmap pa va n attributes s))"
  shows "tables_wf U s' \<and> tables_wf U s'' \<and>
    (\<forall>i<unat n. \<not> is_mapped (va + of_nat i * 0x1000) s' \<and>
                \<not> is_mapped (va + of_nat i * 0x1000) s'') \<and>
    (\<forall>vb. in_slots U vb \<and> (\<forall>i<unat n. page_number (va + of_nat i * 0x1000) \<noteq> page_number vb) \<longrightarrow>
       lookup_page s' vb = lookup_page s vb \<and> lookup_page s'' vb = lookup_page s vb)"
proof -
  let ?m = "page_run (mmap_step attributes) (unat n) pa va s"
  have s'': "s' = page_run (\<lambda>_. munmap_page) (unat n) 0 va s"
    "s'' = page_run (\<lambda>_. munmap_page) (unat n) 0 va ?m"
    using assms(5,6) munmap_loop_run [of 0 n va _ 0] mmap_loop_run [of 0 n pa va attributes 0 s]
    by (simp_all add: munmap_def mmap_def)
  note wfm = map_run.run_wf [OF assms(1-3)]
  note u = unmap_run.run_wf [OF _ assms(2)] unmap_run.run_hit [OF _ assms(2) _ assms(4)]
    unmap_run.run_miss [OF _ assms(2)]
  show ?thesis
    unfolding s'' is_mapped_lookup
    using u(1) [OF assms(1)] u(1) [OF wfm] u(2) [OF assms(1)] u(2) [OF wfm]
      u(3) [OF assms(1)] u(3) [OF wfm] map_run.run_miss [OF assms(1-3)] by simp
qed

theorem munmap_removes_witness:
  "\<not> is_mapped 0x401000 (munmap 0x400000 2 (snd (mmap 0x100000 0x400000 2 7 demo_vmm)))"
proof -
  have "\<forall>i<unat (2 :: u64). \<not> is_mapped (0x400000 + of_nat i * 0x1000) (munmap 0x400000 2 demo_vmm) \<and>
      \<not> is_mapped (0x400000 + of_nat i * 0x1000)
        (munmap 0x400000 2 (snd (mmap 0x100000 0x400000 2 7 demo_vmm)))"
    using munmap_removes [OF demo_tables demo_slot_run _ _ refl refl, of "0x100000" 7] demo_vmm_boot(2) by simp
  then have "\<not> is_mapped (0x400000 + of_nat 1 * 0x1000)
        (munmap 0x400000 2 (snd (mmap 0x100000 0x400000 2 7 demo_vmm)))"
    by (rule allE [of _ 1]) simp
  then show ?thesis by simp
qed

text \<open>
  C20. A new address space: \<open>create_pagetable\<close> takes one free frame, leaves the tables
  in use as they are, and after switching to it the lower half maps nothing while
  every upper-half slot is the one of the boot loader's root.
\<close>

theorem create_pagetable_isolated:
  assumes "mappable s" and "free_frames s \<noteq> {}" and "table_ok s (original_PML4 s)"
    and "create_pagetable s = (page, s1)" and "s2 = switch_pagetable (pa_to_va page) s1"
  shows "page \<in> free_frames s \<and> free_frames s2 = free_frames s - {page} \<and>
    cr3 s2 = page \<and> tables_wf lower_half s2 \<and>
    (\<forall>va. in_slots lower_half va \<longrightarrow> \<not> is_mapped va s2) \<and>
    (\<forall>k. 256 \<le> k \<and> k < 512 \<longrightarrow>
       entry (mem s2) (current_PML4 s2) k = entry (mem s) (original_PML4 s) k) \<and>
    (\<forall>u. \<forall>k<512. table_ok s u \<longrightarrow> entry (mem s2) u k = entry (mem s) u k)"
proof -
  note c = create_pagetable_spec [OF assms(1-4)]
  have s2: "mem s2 = mem s1" "current_PML4 s2 = pa_to_va page" "cr3 s2 = va_to_pa (pa_to_va page)"
    using assms(5) by (simp_all add: switch_pagetable_def)
  have fr: "free_frames s2 = free_frames s1"
    by (simp add: assms(5) switch_pagetable_def free_frames_def frame_managed_def frame_used_def bitmap_test_def)
  have "mappable s2" using c(3)
    by (simp add: assms(5) switch_pagetable_def mappable_def pmm_wf_def bitmap_wf_def)
  moreover have "table_ok s2 (current_PML4 s2)" using c(5) fr by (simp add: table_ok_def s2)
  moreover have "\<not> present (entry (mem s2) (current_PML4 s2) k)" if "k < 512" "k \<in> lower_half" for k
    using c(6) [OF that(1)] that(2) by (simp add: s2 lower_half_def word_less_nat_alt present_def)
  ultimately have "tables_wf lower_half s2 \<and> (\<forall>va. in_slots lower_half va \<longrightarrow> lookup_page s2 va = None)"
    using empty_tree by blast
  moreover have "cr3 s2 = page"
    using free_frame_low(1) [OF assms(1) c(2)] by (simp add: s2 va_to_pa_to_va)
  ultimately show ?thesis
    using c(2,4,6,7) by (simp add: is_mapped_lookup fr s2 word_le_nat_alt)
qed

theorem create_pagetable_isolated_witness:
  "case create_pagetable demo_vmm of (page, s1) \<Rightarrow>
     \<not> is_mapped 0x400000 (switch_pagetable (pa_to_va page) s1)"
proof -
  obtain page s1 where r: "create_pagetable demo_vmm = (page, s1)" by fastforce
  have "free_frames demo_vmm \<noteq> {}" using demo_vmm_boot(2) by auto
  then show ?thesis
    using create_pagetable_isolated [OF demo_vmm_boot(1) _ _ r refl] demo_root_ok demo_slots(1)
    by (simp add: demo_vmm_boot(6) r)
qed

text \<open>
  When the physical allocator refuses, \<open>valloc\<close> still returns a non-null pointer, the
  start of the direct map.
\<close>

lemma valloc_failure: "fst (palloc n s) = 0 \<Longrightarrow> fst (valloc n s) = HHDM \<and> HHDM \<noteq> 0"
  by (cases "palloc n s") (simp add: valloc_def pa_to_va_def HHDM_def)

end
