(* ===== verification/Idt.thy ===== *)
theory Idt
  imports Ports Vmm "HOL-Library.Monad_Syntax"
begin

unbundle bit_operations_syntax

text \<open>
  The interrupt descriptor table and the interrupt controller,
  \<open>kernel/src/arch/x86_64/cpu/idt.cpp\<close> and \<open>idt.hpp\<close>. The table, the array
  \<open>idt_set_vectors\<close> and the table register extend the record of the devices. The two
  8259 controllers are devices; what the masks mean is stated by \<open>masks_latched\<close>.
\<close>

section \<open>Data\<close>

record idtr_t =
  idtr_limit :: u16
  idtr_base :: u64

record idt_entry_t =
  isr_offset_low :: u16
  gdt_selector :: u16
  ist :: u8
  gate_flags :: u8
  isr_offset_middle :: u16
  isr_offset_high :: u32
  always_zero :: u32

record 'd idt = "'d cpu" +
  idt_entries :: "idt_entry_t list"
  idt_set_vectors :: "bool list"
  idtr :: idtr_t
  loaded_idtr :: "idtr_t option"

abbreviation (input) PIC1_COMMAND :: u16 where "PIC1_COMMAND \<equiv> 0x20"
definition PIC1_DATA :: u16 where "PIC1_DATA = 0x21"
abbreviation (input) PIC2_COMMAND :: u16 where "PIC2_COMMAND \<equiv> 0xA0"
definition PIC2_DATA :: u16 where "PIC2_DATA = 0xA1"
abbreviation (input) PIC_EOI :: u8 where "PIC_EOI \<equiv> 0x20"
abbreviation (input) ICW1_ICW4 :: u8 where "ICW1_ICW4 \<equiv> 1"
abbreviation (input) ICW1_INIT :: u8 where "ICW1_INIT \<equiv> 0x10"
abbreviation (input) ICW4_8086 :: u8 where "ICW4_8086 \<equiv> 1"
abbreviation (input) CASCADE_IRQ :: nat where "CASCADE_IRQ \<equiv> 2"

section \<open>Operations\<close>

text \<open>\<open>lidt\<close> loads the table register.\<close>

definition load_idt :: "('d, 'a) idt_scheme \<Rightarrow> ('d, 'a) idt_scheme" where
  "load_idt c = c\<lparr>loaded_idtr := Some (idtr c)\<rparr>"

definition pic_remap :: "'d device \<Rightarrow> u8 \<Rightarrow> u8 \<Rightarrow> ('d, 'a) idt_scheme \<Rightarrow> ('d, 'a) idt_scheme" where
  "pic_remap hw offset1 offset2 c =
     (let c = outb hw PIC1_COMMAND (ICW1_INIT OR ICW1_ICW4) c;
          c = io_wait hw c;
          c = outb hw PIC2_COMMAND (ICW1_INIT OR ICW1_ICW4) c;
          c = io_wait hw c;
          c = outb hw PIC1_DATA offset1 c;
          c = io_wait hw c;
          c = outb hw PIC2_DATA offset2 c;
          c = io_wait hw c;
          c = outb hw PIC1_DATA (push_bit CASCADE_IRQ 1) c;
          c = io_wait hw c;
          c = outb hw PIC2_DATA 2 c;
          c = io_wait hw c;
          c = outb hw PIC1_DATA ICW4_8086 c;
          c = io_wait hw c;
          c = outb hw PIC2_DATA ICW4_8086 c;
          c = io_wait hw c;
          c = outb hw PIC1_DATA 0xff c
      in outb hw PIC2_DATA 0xff c)"

definition irq_clear_mask :: "'d device \<Rightarrow> u8 \<Rightarrow> ('d, 'a) idt_scheme \<Rightarrow> ('d, 'a) idt_scheme" where
  "irq_clear_mask hw irq c =
     (let (port, irq) = (if irq < 8 then (PIC1_DATA, irq) else (PIC2_DATA, irq - 8))
      in case inb hw port c of (v, c1) \<Rightarrow> outb hw port (v AND NOT (push_bit (unat irq) 1)) c1)"

definition irq_set_mask :: "'d device \<Rightarrow> u8 \<Rightarrow> ('d, 'a) idt_scheme \<Rightarrow> ('d, 'a) idt_scheme" where
  "irq_set_mask hw irq c =
     (let (port, irq) = (if irq < 8 then (PIC1_DATA, irq) else (PIC2_DATA, irq - 8))
      in case inb hw port c of (v, c1) \<Rightarrow> outb hw port (v OR push_bit (unat irq) 1) c1)"

definition gate :: "u64 \<Rightarrow> u8 \<Rightarrow> idt_entry_t" where
  "gate isr flags =
     \<lparr>isr_offset_low = ucast (isr AND 0xFFFF), gdt_selector = 8, ist = 1, gate_flags = flags,
      isr_offset_middle = ucast (drop_bit 16 isr AND 0xFFFF),
      isr_offset_high = ucast (drop_bit 32 isr AND 0xFFFFFFFF), always_zero = 0\<rparr>"

definition set_descriptor :: "'d device \<Rightarrow> u8 \<Rightarrow> u64 \<Rightarrow> u8 \<Rightarrow> ('d, 'a) idt_scheme \<Rightarrow> ('d, 'a) idt_scheme" where
  "set_descriptor hw vector isr flags c =
     (let c1 = c\<lparr>idt_entries := (idt_entries c)[unat vector := gate isr flags]\<rparr>;
          c2 = (if 0x20 \<le> vector \<and> vector < 0x30
                then if vector < 0x28 then irq_clear_mask hw (vector - 0x20) c1
                     else irq_clear_mask hw (vector - 0x28 + 8) c1
                else c1)
      in c2\<lparr>idt_set_vectors := (idt_set_vectors c2)[unat vector := True]\<rparr>)"

definition clear_descriptor :: "'d device \<Rightarrow> u8 \<Rightarrow> ('d, 'a) idt_scheme \<Rightarrow> ('d, 'a) idt_scheme" where
  "clear_descriptor hw vector c =
     (let c1 = (if 0x20 \<le> vector \<and> vector < 0x30
                then if vector < 0x28 then irq_set_mask hw (vector - 0x20) c
                     else irq_set_mask hw (vector - 0x28 + 8) c
                else c);
          c2 = c1\<lparr>idt_set_vectors := (idt_set_vectors c1)[unat vector := False]\<rparr>
      in set_descriptor hw vector 0 0 c2)"

definition send_eoi :: "'d device \<Rightarrow> u8 \<Rightarrow> ('d, 'a) cpu_scheme \<Rightarrow> ('d, 'a) cpu_scheme" where
  "send_eoi hw irq c =
     (let c1 = (if 8 \<le> irq then outb hw PIC2_COMMAND PIC_EOI c else c)
      in outb hw PIC1_COMMAND PIC_EOI c1)"

text \<open>
  \<open>initialise\<close>. The addresses of the exception stubs and of the table itself are fixed by
  the linker and come as arguments; \<open>sizeof(idt)\<close> is 512 entries of 16 bytes.
\<close>

definition idt_initialise :: "'d device \<Rightarrow> u64 list \<Rightarrow> u64 \<Rightarrow> ('d, 'a) idt_scheme \<Rightarrow> ('d, 'a) idt_scheme" where
  "idt_initialise hw exception_stub_table idt_addr c =
     (let c1 = fold (\<lambda>i. set_descriptor hw (of_nat i) (exception_stub_table ! i) 0x8E) [0..<0x1F] c;
          c2 = fold (\<lambda>i. irq_set_mask hw (of_nat i)) [0..<16] c1;
          c3 = c2\<lparr>idtr := \<lparr>idtr_limit = 512 * 16 - 1, idtr_base = idt_addr\<rparr>\<rparr>;
          c4 = pic_remap hw 0x20 0x28 c3;
          c5 = irq_clear_mask hw 0 c4
      in load_idt c5)"

subsection \<open>Exceptions\<close>

text \<open>
  The processor either stops (\<open>cli; hlt\<close> with interrupts off) or returns from the handler.
  The messages that are logged are left out.
\<close>

datatype 's exception_result = Halted | Resumed 's

definition is_solvable :: "u64 \<Rightarrow> bool" where
  "is_solvable excvec = False"

partial_function (option) wait_for_key :: "'d device \<Rightarrow> ('d, 'a) cpu_scheme \<Rightarrow> ('d, 'a) cpu_scheme option" where
  "wait_for_key hw c =
     (case inb hw 0x3F8 c of (v, c1) \<Rightarrow> if v AND 1 \<noteq> 0 then Some c1 else wait_for_key hw c1)"

text \<open>
  In \<open>cr2 & ~0xFFF == 0\<close> the comparison binds tighter than the conjunction.
\<close>

definition fix_exceptions ::
  "'d device \<Rightarrow> u64 \<Rightarrow> u64 \<Rightarrow> u64 \<Rightarrow> 'b vmm_scheme \<Rightarrow> ('d, 'a) idt_scheme \<Rightarrow>
   ('b vmm_scheme \<times> ('d, 'a) idt_scheme) exception_result option" where
  "fix_exceptions hw excvec error_code cr2 s c =
     (if excvec = 3 then map_option (\<lambda>c1. Resumed (s, c1)) (wait_for_key hw c)
      else if excvec = 14 then
        (if cr2 AND of_bool (NOT (0xFFF :: u64) = 0) \<noteq> 0 then Some Halted
         else if cr2 < 0x00007FFFFFFFFFFF then Some Halted
         else if error_code AND 1 \<noteq> 0 then Some Halted
         else Some (Resumed (snd (mmap (cr2 AND NOT 0xFFF) (cr2 AND NOT 0xFFF) 1
                (PAGE_PRESENT OR PAGE_RW OR PAGE_USER) s), c)))
      else Some (Resumed (s, c)))"

definition exception_handler ::
  "'d device \<Rightarrow> u64 \<Rightarrow> u64 \<Rightarrow> u64 \<Rightarrow> 'b vmm_scheme \<Rightarrow> ('d, 'a) idt_scheme \<Rightarrow>
   ('b vmm_scheme \<times> ('d, 'a) idt_scheme) exception_result option" where
  "exception_handler hw exception_vector error_code cr2 s c =
     (if \<not> is_solvable exception_vector then Some Halted
      else fix_exceptions hw exception_vector error_code cr2 s c)"

section \<open>Masks and gates\<close>

text \<open>
  What the code relies on of the controllers, once they are initialised (\<open>ready\<close>): a data
  port reads back the mask written to it, and reading or writing one leaves the other alone.
\<close>

definition pic_port :: "nat \<Rightarrow> u16" where
  "pic_port irq = (if irq < 8 then PIC1_DATA else PIC2_DATA)"

definition masks_latched :: "'d device \<Rightarrow> ('d \<Rightarrow> bool) \<Rightarrow> bool" where
  "masks_latched hw ready \<longleftrightarrow>
     (\<forall>d. ready d \<longrightarrow> (\<forall>i j v. ready (snd (rd8 hw (pic_port i) d)) \<and>
        ready (wr8 hw (pic_port i) v d) \<and>
        fst (rd8 hw (pic_port j) (snd (rd8 hw (pic_port i) d))) = fst (rd8 hw (pic_port j) d) \<and>
        fst (rd8 hw (pic_port j) (wr8 hw (pic_port i) v d)) =
          (if pic_port i = pic_port j then v else fst (rd8 hw (pic_port j) d))))"

definition irq_masked :: "'d device \<Rightarrow> 'd \<Rightarrow> nat \<Rightarrow> bool" where
  "irq_masked hw d irq = bit (fst (rd8 hw (pic_port irq) d)) (irq mod 8)"

lemma latch_hw_masks: "masks_latched latch_hw (\<lambda>_. True)"
  by (auto simp: masks_latched_def latch_hw_def pic_port_def PIC1_DATA_def PIC2_DATA_def)

text \<open>The address a gate sends the processor to.\<close>

definition gate_target :: "idt_entry_t \<Rightarrow> u64" where
  "gate_target e = ucast (isr_offset_low e) OR push_bit 16 (ucast (isr_offset_middle e)) OR
     push_bit 32 (ucast (isr_offset_high e))"


lemma mask_literals: "(0xFFFF :: u64) = mask 16" "(0xFFFFFFFF :: u64) = mask 32"
  by (simp_all add: mask_eq_exp_minus_1)

lemma gate_target_gate [simp]: "gate_target (gate isr flags) = isr"
proof (rule bit_word_eqI)
  fix n assume "n < LENGTH(64)"
  then show "bit (gate_target (gate isr flags)) n = bit isr n"
    by (cases "n < 16"; cases "n < 32")
      (auto simp: gate_target_def gate_def mask_literals bit_simps)
qed

lemma irq_port:
  assumes "n < 16"
  shows "(if of_nat n < (8 :: u8) then (PIC1_DATA, of_nat n :: u8) else (PIC2_DATA, of_nat n - 8)) =
    (pic_port n, of_nat (n mod 8))"
proof (cases "n < 8")
  case True
  then have "of_nat n < (8 :: u8)" by (simp add: word_less_nat_alt unat_of_nat)
  with True show ?thesis by (simp add: pic_port_def)
next
  case False
  then have "\<not> of_nat n < (8 :: u8)" using assms by (simp add: word_less_nat_alt unat_of_nat)
  moreover have "n mod 8 = n - 8" using False assms by (simp add: le_mod_geq)
  ultimately show ?thesis using False by (simp add: pic_port_def of_nat_diff)
qed

lemma irq_clear_mask_eq:
  "n < 16 \<Longrightarrow> irq_clear_mask hw (of_nat n) c =
     (case inb hw (pic_port n) c of (v, c1) \<Rightarrow>
        outb hw (pic_port n) (v AND NOT (push_bit (n mod 8) 1)) c1)"
  by (simp add: irq_clear_mask_def irq_port unat_of_nat)

lemma irq_set_mask_eq:
  "n < 16 \<Longrightarrow> irq_set_mask hw (of_nat n) c =
     (case inb hw (pic_port n) c of (v, c1) \<Rightarrow>
        outb hw (pic_port n) (v OR push_bit (n mod 8) 1) c1)"
  by (simp add: irq_set_mask_def irq_port unat_of_nat)

lemma same_irq:
  assumes "i < 16" "j < 16" "pic_port i = pic_port j" "i mod 8 = j mod 8"
  shows "i = j"
  using assms by (auto simp: pic_port_def PIC1_DATA_def PIC2_DATA_def mod_if split: if_splits)

text \<open>One read and one write of a data port, and what it leaves of the masks.\<close>

lemma port_update_masked:
  assumes law: "masks_latched hw ready" and rdy: "ready (dev c)" and n: "n < 16"
  shows "ready (dev (case inb hw (pic_port n) c of (v, c1) \<Rightarrow> outb hw (pic_port n) (f v) c1))"
    and "irq_masked hw (dev (case inb hw (pic_port n) c of (v, c1) \<Rightarrow> outb hw (pic_port n) (f v) c1)) i =
      bit (if pic_port n = pic_port i then f (fst (rd8 hw (pic_port i) (dev c)))
           else fst (rd8 hw (pic_port i) (dev c))) (i mod 8)"
proof -
  obtain v d where r: "rd8 hw (pic_port n) (dev c) = (v, d)" by fastforce
  then have rd: "ready d" and same: "fst (rd8 hw (pic_port j) d) = fst (rd8 hw (pic_port j) (dev c))" for j
    using law rdy unfolding masks_latched_def by (metis snd_conv)+
  have io: "dev (case inb hw (pic_port n) c of (v, c1) \<Rightarrow> outb hw (pic_port n) (f v) c1) =
      wr8 hw (pic_port n) (f v) d"
    by (simp add: inb_def outb_def r)
  from law rd show "ready (dev (case inb hw (pic_port n) c of (v, c1) \<Rightarrow> outb hw (pic_port n) (f v) c1))"
    unfolding io masks_latched_def by blast
  have "fst (rd8 hw (pic_port i) (wr8 hw (pic_port n) (f v) d)) =
      (if pic_port n = pic_port i then f v else fst (rd8 hw (pic_port i) d))"
    using law rd unfolding masks_latched_def by blast
  moreover have "pic_port n = pic_port i \<Longrightarrow> fst (rd8 hw (pic_port i) (dev c)) = v"
    using r by (metis fst_conv)
  ultimately show "irq_masked hw (dev (case inb hw (pic_port n) c of (v, c1) \<Rightarrow> outb hw (pic_port n) (f v) c1)) i =
      bit (if pic_port n = pic_port i then f (fst (rd8 hw (pic_port i) (dev c)))
           else fst (rd8 hw (pic_port i) (dev c))) (i mod 8)"
    unfolding io irq_masked_def using same by auto
qed

lemma irq_clear_mask_masked:
  assumes law: "masks_latched hw ready" and rdy: "ready (dev c)" and n: "n < 16" and i: "i < 16"
  shows "ready (dev (irq_clear_mask hw (of_nat n) c))"
    and "irq_masked hw (dev (irq_clear_mask hw (of_nat n) c)) i \<longleftrightarrow> irq_masked hw (dev c) i \<and> i \<noteq> n"
proof -
  show "ready (dev (irq_clear_mask hw (of_nat n) c))"
    unfolding irq_clear_mask_eq [OF n] by (rule port_update_masked [OF law rdy n])
  show "irq_masked hw (dev (irq_clear_mask hw (of_nat n) c)) i \<longleftrightarrow> irq_masked hw (dev c) i \<and> i \<noteq> n"
    unfolding irq_clear_mask_eq [OF n] port_update_masked [OF law rdy n]
    using same_irq [OF n i] by (auto simp: irq_masked_def bit_simps)
qed

lemma irq_set_mask_masked:
  assumes law: "masks_latched hw ready" and rdy: "ready (dev c)" and n: "n < 16" and i: "i < 16"
  shows "ready (dev (irq_set_mask hw (of_nat n) c))"
    and "irq_masked hw (dev (irq_set_mask hw (of_nat n) c)) i \<longleftrightarrow> irq_masked hw (dev c) i \<or> i = n"
proof -
  show "ready (dev (irq_set_mask hw (of_nat n) c))"
    unfolding irq_set_mask_eq [OF n] by (rule port_update_masked [OF law rdy n])
  have "i mod 8 < 8" by simp
  then show "irq_masked hw (dev (irq_set_mask hw (of_nat n) c)) i \<longleftrightarrow> irq_masked hw (dev c) i \<or> i = n"
    unfolding irq_set_mask_eq [OF n] port_update_masked [OF law rdy n]
    using same_irq [OF n i] by (auto simp: irq_masked_def bit_simps)
qed

lemma more_irq_mask [port_simps]:
  "cpu.more (irq_clear_mask hw q c) = cpu.more c" "cpu.more (irq_set_mask hw q c) = cpu.more c"
  by (simp_all add: irq_clear_mask_def irq_set_mask_def inb_def outb_def split: prod.splits)

lemma idt_irq_mask [port_simps]:
  "idt_entries (irq_clear_mask hw q c) = idt_entries c" "idt_entries (irq_set_mask hw q c) = idt_entries c"
  "idt_set_vectors (irq_clear_mask hw q c) = idt_set_vectors c"
  "idt_set_vectors (irq_set_mask hw q c) = idt_set_vectors c"
  by (simp_all add: irq_clear_mask_def irq_set_mask_def inb_def outb_def split: prod.splits)

text \<open>The interrupt line of a vector of the controllers.\<close>

lemma irq_vector:
  assumes "0x20 \<le> (v :: u8)" "v < 0x30"
  obtains n where "n < 16" "v = of_nat (n + 0x20)"
    "\<And>f. (if v < 0x28 then f (v - 0x20) else f (v - 0x28 + 8)) = f (of_nat n)"
proof
  show "unat v - 0x20 < 16" using assms by (simp add: word_less_nat_alt word_le_nat_alt)
  have le: "0x20 \<le> unat v" using assms by (simp add: word_le_nat_alt)
  then show v: "v = of_nat (unat v - 0x20 + 0x20)" by (simp only: le_add_diff_inverse2) simp
  have "v - 0x20 = of_nat (unat v - 0x20)" using le by (simp add: of_nat_diff)
  then show "(if v < 0x28 then f (v - 0x20) else f (v - 0x28 + 8)) = f (of_nat (unat v - 0x20))" for f
    by simp
qed

lemma set_descriptor_table:
  "idt_entries (set_descriptor hw v isr flags c) = (idt_entries c)[unat v := gate isr flags]"
  "idt_set_vectors (set_descriptor hw v isr flags c) = (idt_set_vectors c)[unat v := True]"
  by (simp_all add: set_descriptor_def Let_def port_simps)

lemma set_descriptor_irq:
  assumes "n < 16"
  shows "dev (set_descriptor hw (of_nat (n + 0x20)) isr flags c) =
    dev (irq_clear_mask hw (of_nat n) (c\<lparr>idt_entries := (idt_entries c)[n + 0x20 := gate isr flags]\<rparr>))"
proof -
  have v: "unat (of_nat (n + 0x20) :: u8) = n + 0x20" using assms by (simp only: unat_of_nat) simp
  have "0x20 \<le> (of_nat (n + 0x20) :: u8)" "of_nat (n + 0x20) < (0x30 :: u8)"
    using assms by (simp_all only: word_le_nat_alt word_less_nat_alt v) simp_all
  then show ?thesis by (simp add: set_descriptor_def Let_def v [simplified] of_nat_diff)
qed

section \<open>Properties\<close>

lemma of_nat_vector: "i < 16 \<Longrightarrow> (of_nat (i + 0x20) :: u8) = of_nat (n + 0x20) \<Longrightarrow> n < 16 \<Longrightarrow> i = n"
  by (drule arg_cong [where f = unat]) (simp only: unat_of_nat, simp)

lemma set_descriptor_masked:
  assumes law: "masks_latched hw ready" "ready (dev c)" and i: "i < 16"
  shows "irq_masked hw (dev (set_descriptor hw v isr flags c)) i \<longleftrightarrow>
    irq_masked hw (dev c) i \<and> v \<noteq> of_nat (i + 0x20)"
proof (cases "0x20 \<le> v \<and> v < 0x30")
  case True
  then obtain n where n: "n < 16" and v: "v = of_nat (n + 0x20)" by (metis irq_vector)
  have r: "ready (dev (c\<lparr>idt_entries := xs\<rparr>))" for xs using law(2) by simp
  have "v = of_nat (i + 0x20) \<longleftrightarrow> i = n" unfolding v using of_nat_vector [OF i _ n] by fastforce
  then show ?thesis
    unfolding v set_descriptor_irq [OF n] irq_clear_mask_masked(2) [OF law(1) r n i] by auto
next
  case False
  have "0x20 \<le> (of_nat (i + 0x20) :: u8) \<and> of_nat (i + 0x20) < (0x30 :: u8)"
    using i by (simp only: word_le_nat_alt word_less_nat_alt unat_of_nat) simp
  with False have "v \<noteq> of_nat (i + 0x20)" by blast
  moreover have "dev (set_descriptor hw v isr flags c) = dev c"
    using False by (auto simp: set_descriptor_def Let_def)
  ultimately show ?thesis by simp
qed

lemma set_descriptor_ready:
  assumes law: "masks_latched hw ready" "ready (dev c)"
  shows "ready (dev (set_descriptor hw v isr flags c))"
proof (cases "0x20 \<le> v \<and> v < 0x30")
  case True
  then obtain n where n: "n < 16" and v: "v = of_nat (n + 0x20)" by (metis irq_vector)
  have "ready (dev (c\<lparr>idt_entries := xs\<rparr>))" for xs using law(2) by simp
  from irq_clear_mask_masked(1) [OF law(1) this n n] show ?thesis
    unfolding v set_descriptor_irq [OF n] .
next
  case False
  then have "dev (set_descriptor hw v isr flags c) = dev c"
    by (auto simp: set_descriptor_def Let_def)
  with law show ?thesis by simp
qed

text \<open>
  C29. Installing a handler for a vector: the gate of the vector holds the address of the
  handler and the flags, the gates of all other vectors are kept, the vector is recorded as
  set, and of the sixteen interrupt lines exactly the one that belongs to the vector, if any,
  is enabled while the others keep their masks.
\<close>

theorem set_descriptor_installs:
  assumes "masks_latched hw ready" and "ready (dev c)"
    and "length (idt_entries c) = 512" and "length (idt_set_vectors c) = 256"
    and "c' = set_descriptor hw v isr flags c"
  shows "gate_target (idt_entries c' ! unat v) = isr \<and> gate_flags (idt_entries c' ! unat v) = flags \<and>
    (\<forall>w. w \<noteq> v \<longrightarrow> idt_entries c' ! unat w = idt_entries c ! unat w) \<and>
    idt_set_vectors c' ! unat v \<and>
    (\<forall>i<16. irq_masked hw (dev c') i \<longleftrightarrow> irq_masked hw (dev c) i \<and> v \<noteq> of_nat (i + 0x20))"
proof (intro conjI allI impI)
  have v: "unat v < 256" using unsigned_less [of v, where 'a = nat] by simp
  then show "gate_target (idt_entries c' ! unat v) = isr" and "idt_set_vectors c' ! unat v"
    using assms by (simp_all add: set_descriptor_table)
  show "gate_flags (idt_entries c' ! unat v) = flags"
    using assms v by (simp add: set_descriptor_table gate_def)
  show "idt_entries c' ! unat w = idt_entries c ! unat w" if "w \<noteq> v" for w
    using that by (simp add: assms(5) set_descriptor_table nth_list_update_neq word_unat_eq_iff)
  show "irq_masked hw (dev c') i \<longleftrightarrow> irq_masked hw (dev c) i \<and> v \<noteq> of_nat (i + 0x20)" if "i < 16" for i
    unfolding assms(5) by (rule set_descriptor_masked [OF assms(1,2) that])
qed

definition no_gate :: idt_entry_t where
  "no_gate = \<lparr>isr_offset_low = 0, gdt_selector = 0, ist = 0, gate_flags = 0,
     isr_offset_middle = 0, isr_offset_high = 0, always_zero = 0\<rparr>"

definition demo_idt :: "latches idt" where
  "demo_idt = \<lparr>dev = latch_zero\<lparr>lat8 := \<lambda>_. 0xFF\<rparr>, idt_entries = replicate 512 no_gate,
     idt_set_vectors = replicate 256 False, idtr = \<lparr>idtr_limit = 0, idtr_base = 0\<rparr>, loaded_idtr = None\<rparr>"

lemma demo_idt_shape:
  "length (idt_entries demo_idt) = 512" "length (idt_set_vectors demo_idt) = 256"
  by (simp_all add: demo_idt_def)

lemma demo_idt_masked: "irq_masked latch_hw (dev demo_idt) 1" "irq_masked latch_hw (dev demo_idt) 4"
  by (simp_all add: irq_masked_def demo_idt_def latch_hw_def latch_zero_def bit_simps)

theorem set_descriptor_installs_witness:
  "gate_target (idt_entries (set_descriptor latch_hw 0x21 0xFFFFFFFF80001234 0x8E demo_idt) ! 0x21) =
     0xFFFFFFFF80001234 \<and>
   irq_masked latch_hw (dev demo_idt) 1 \<and>
   \<not> irq_masked latch_hw (dev (set_descriptor latch_hw 0x21 0xFFFFFFFF80001234 0x8E demo_idt)) 1 \<and>
   irq_masked latch_hw (dev (set_descriptor latch_hw 0x21 0xFFFFFFFF80001234 0x8E demo_idt)) 4 \<and>
   idt_entries (set_descriptor latch_hw 0x21 0xFFFFFFFF80001234 0x8E demo_idt) ! 0x22 = no_gate"
proof -
  note t = set_descriptor_installs [where v = "0x21" and isr = "0xFFFFFFFF80001234" and flags = "0x8E", OF latch_hw_masks TrueI demo_idt_shape refl]
  have "unat (0x21 :: u8) = 0x21" "unat (0x22 :: u8) = 0x22" "(0x22 :: u8) \<noteq> 0x21"
    "idt_entries demo_idt ! 0x22 = no_gate" by (simp_all add: demo_idt_def)
  moreover have "(0x21 :: u8) = of_nat (1 + 0x20)" "(0x21 :: u8) \<noteq> of_nat (4 + 0x20)" by simp_all
  moreover have "(1 :: nat) < 16" "(4 :: nat) < 16" by simp_all
  ultimately show ?thesis using t demo_idt_masked by metis
qed

text \<open>
  C39. Clearing the descriptor of an interrupt line leaves the line enabled and the vector
  recorded as set, with a null gate: \<open>clear_descriptor\<close> masks the line and clears the
  flag, and the call of \<open>set_descriptor\<close> that follows undoes both.
\<close>

theorem clear_descriptor_reenables:
  assumes "masks_latched hw ready" and "ready (dev c)" and "n < 16"
    and "length (idt_entries c) = 512" and "length (idt_set_vectors c) = 256"
    and "c' = clear_descriptor hw (of_nat (n + 0x20)) c"
  shows "\<not> irq_masked hw (dev c') n \<and> idt_set_vectors c' ! (n + 0x20) \<and>
    idt_entries c' ! (n + 0x20) = gate 0 0"
proof -
  let ?v = "of_nat (n + 0x20) :: u8"
  have v: "unat ?v = n + 0x20" using assms(3) by (simp only: unat_of_nat) simp
  have "0x20 \<le> ?v \<and> ?v < 0x30"
    using assms(3) by (simp only: word_le_nat_alt word_less_nat_alt v) simp
  then have clr: "c' = set_descriptor hw ?v 0 0
      ((irq_set_mask hw (of_nat n) c)\<lparr>idt_set_vectors := (idt_set_vectors c)[n + 0x20 := False]\<rparr>)"
    by (simp add: assms(6) clear_descriptor_def Let_def v [simplified] port_simps)
  have r: "ready (dev ((irq_set_mask hw (of_nat n) c)\<lparr>idt_set_vectors := xs\<rparr>))" for xs
    using irq_set_mask_masked(1) [OF assms(1,2,3,3)] by simp
  have "\<not> irq_masked hw (dev c') n"
    unfolding clr set_descriptor_masked [OF assms(1) r assms(3)] by simp
  moreover have "idt_set_vectors c' ! (n + 0x20)" "idt_entries c' ! (n + 0x20) = gate 0 0"
    using assms(3,4,5) unfolding clr set_descriptor_table v by (simp_all add: port_simps)
  ultimately show ?thesis by blast
qed

theorem clear_descriptor_reenables_witness:
  "irq_masked latch_hw (dev demo_idt) 1 \<and>
   \<not> irq_masked latch_hw (dev (clear_descriptor latch_hw 0x21 demo_idt)) 1 \<and>
   idt_set_vectors (clear_descriptor latch_hw 0x21 demo_idt) ! 0x21"
  using clear_descriptor_reenables [where n = 1, OF latch_hw_masks TrueI _ demo_idt_shape refl] demo_idt_masked
  by (simp del: One_nat_def)

lemma fold_set_descriptor:
  assumes "n \<le> 31" "length (idt_entries c) = 512"
  shows "length (idt_entries (fold (\<lambda>i. set_descriptor hw (of_nat i) (stubs ! i) flags) [0..<n] c)) = 512 \<and>
    (\<forall>i<512. idt_entries (fold (\<lambda>i. set_descriptor hw (of_nat i) (stubs ! i) flags) [0..<n] c) ! i =
       (if i < n then gate (stubs ! i) flags else idt_entries c ! i))"
  using assms(1)
proof (induction n)
  case (Suc n)
  then have "unat (of_nat n :: u8) = n" by (simp add: unat_of_nat)
  with Suc show ?case by (auto simp: set_descriptor_table nth_list_update)
qed (use assms in simp)

lemma fold_irq_mask_entries:
  "idt_entries (fold (\<lambda>i. irq_set_mask hw (f i)) is c) = idt_entries c"
  by (induction "is" arbitrary: c) (simp_all add: port_simps)

lemma pic_remap_keeps:
  "idt_entries (pic_remap hw a b c) = idt_entries c" "idtr (pic_remap hw a b c) = idtr c"
  by (simp_all add: pic_remap_def Let_def outb_def io_wait_def)

text \<open>
  C40. Initialisation installs the first 31 exception stubs: each of the gates 0 to 30 leads
  to its stub, and the gate of vector 31 and of every later vector is the one the table had
  before, so exception 31 has no handler. The table register is loaded with the table.
\<close>

theorem idt_initialise_gates:
  assumes "length (idt_entries c) = 512" and "c' = idt_initialise hw stubs a c"
  shows "(\<forall>i<31. idt_entries c' ! i = gate (stubs ! i) 0x8E \<and> gate_target (idt_entries c' ! i) = stubs ! i) \<and>
    (\<forall>i\<ge>31. i < 512 \<longrightarrow> idt_entries c' ! i = idt_entries c ! i) \<and>
    loaded_idtr c' = Some \<lparr>idtr_limit = 8191, idtr_base = a\<rparr>"
proof -
  have "idt_entries c' =
      idt_entries (fold (\<lambda>i. set_descriptor hw (of_nat i) (stubs ! i) 0x8E) [0..<31] c)"
    by (simp add: assms(2) idt_initialise_def Let_def load_idt_def port_simps pic_remap_keeps
        fold_irq_mask_entries del: upt_rec_numeral)
  then have "(\<forall>i<31. idt_entries c' ! i = gate (stubs ! i) 0x8E) \<and>
      (\<forall>i\<ge>31. i < 512 \<longrightarrow> idt_entries c' ! i = idt_entries c ! i)"
    using fold_set_descriptor [of 31 c hw stubs "0x8E"] assms(1) by (simp del: upt_rec_numeral)
  moreover have "idtr (irq_clear_mask hw q c) = idtr c" for q and c :: "('a, 'b) idt_scheme"
    by (simp add: irq_clear_mask_def inb_def outb_def split: prod.splits)
  then have "loaded_idtr c' = Some \<lparr>idtr_limit = 8191, idtr_base = a\<rparr>"
    by (simp add: assms(2) idt_initialise_def Let_def load_idt_def pic_remap_keeps del: upt_rec_numeral)
  ultimately show ?thesis by simp
qed

theorem idt_initialise_gates_witness:
  "gate_target (idt_entries (idt_initialise latch_hw (map (\<lambda>i. of_nat (0x1000 + 16 * i)) [0..<32]) 0x5000 demo_idt) ! 14) =
     0x10E0 \<and>
   idt_entries (idt_initialise latch_hw (map (\<lambda>i. of_nat (0x1000 + 16 * i)) [0..<32]) 0x5000 demo_idt) ! 31 = no_gate"
proof -
  note t = idt_initialise_gates [where hw = latch_hw and stubs = "map (\<lambda>i. of_nat (0x1000 + 16 * i)) [0..<32]" and a = "0x5000", OF demo_idt_shape(1) refl]
  have "map (\<lambda>i. of_nat (0x1000 + 16 * i)) [0..<32] ! 14 = (0x10E0 :: u64)" by (simp del: upt_rec_numeral)
  moreover have "idt_entries demo_idt ! 31 = no_gate" by (simp add: demo_idt_def)
  moreover have "(14 :: nat) < 31" "(31 :: nat) < 512" "(31 :: nat) \<le> 31" by simp_all
  ultimately show ?thesis using t by metis
qed

text \<open>No exception returns to the program that caused it.\<close>

lemma exception_handler_halts: "exception_handler hw v e cr2 s c = Some Halted"
  by (simp add: exception_handler_def is_solvable_def)

end
