(* ===== verification/Pit.thy ===== *)
theory Pit
  imports Idt
begin

unbundle bit_operations_syntax

text \<open>
  The interval timer, \<open>kernel/src/drivers/timers/pit.cpp\<close>: the tick counter, the handler,
  waiting and the clock. A function pointer is its address, and calling the attached
  functions is dead code. \<open>hlt\<close> returns after an interrupt: what the interrupt handlers
  did to the state is the argument \<open>wake\<close> of the wait loop, which may run for ever and is
  a partial function.
\<close>

record pit_interrupt =
  pi_handler :: u64
  pi_frequency_divisor :: u64
  pi_set :: bool

record 'd pit = "'d idt" +
  ticks :: u64
  pit_interrupts :: "pit_interrupt list"
  attached :: nat

definition PIT_FREQUENCY :: u64 where "PIT_FREQUENCY = 300"

definition safe_div :: "u64 \<Rightarrow> u64 \<Rightarrow> u64" where
  "safe_div numerator denominator = (if denominator = 0 then 0 else numerator div denominator)"

definition safe_modulo :: "u64 \<Rightarrow> u64 \<Rightarrow> u64" where
  "safe_modulo numerator denominator = (if denominator = 0 then 0 else numerator mod denominator)"

text \<open>The loop over the attached functions ends at its first statement.\<close>

definition pit_handler :: "'d device \<Rightarrow> ('d, 'a) pit_scheme \<Rightarrow> ('d, 'a) pit_scheme" where
  "pit_handler hw c = outb hw 0x20 0x20 (c\<lparr>ticks := ticks c + 1\<rparr>)"

definition pit_initialise :: "'d device \<Rightarrow> u64 \<Rightarrow> ('d, 'a) pit_scheme \<Rightarrow> ('d, 'a) pit_scheme" where
  "pit_initialise hw pit_handler_addr c =
     (if PIT_FREQUENCY = 0 then c
      else
        let c1 = outb hw 0x43 0x34 c;
            divisor = (ucast (safe_div 1193180 PIT_FREQUENCY) :: u16);
            c2 = outb hw 0x40 (ucast (divisor AND 0xFF)) c1;
            c3 = io_wait hw c2;
            c4 = outb hw 0x40 (ucast (drop_bit 8 divisor AND 0xFF)) c3
        in set_descriptor hw 0x20 pit_handler_addr 0x8E c4)"

definition attach_periodic_interrupt :: "u64 \<Rightarrow> u64 \<Rightarrow> ('d, 'a) pit_scheme \<Rightarrow> ('d, 'a) pit_scheme" where
  "attach_periodic_interrupt handler frequency_divisor c =
     (if attached c < 4
      then c\<lparr>pit_interrupts := (pit_interrupts c)[attached c :=
                \<lparr>pi_handler = handler, pi_frequency_divisor = frequency_divisor, pi_set = True\<rparr>],
             attached := attached c + 1\<rparr>
      else c)"

partial_function (option) sleep_until ::
  "(('d, 'a) pit_scheme \<Rightarrow> ('d, 'a) pit_scheme) \<Rightarrow> u64 \<Rightarrow> ('d, 'a) pit_scheme \<Rightarrow> ('d, 'a) pit_scheme option" where
  "sleep_until wake final_ticks c =
     (if ticks c < final_ticks then sleep_until wake final_ticks (wake c) else Some c)"

definition sleep_ms ::
  "(('d, 'a) pit_scheme \<Rightarrow> ('d, 'a) pit_scheme) \<Rightarrow> u64 \<Rightarrow> ('d, 'a) pit_scheme \<Rightarrow> ('d, 'a) pit_scheme option" where
  "sleep_ms wake ms c =
     (if PIT_FREQUENCY = 0 then Some c
      else sleep_until wake (ticks c + safe_div (ms * PIT_FREQUENCY) 1000) c)"

definition ns_elapsed_time :: "('d, 'a) pit_scheme \<Rightarrow> u64" where
  "ns_elapsed_time c = ticks c * 10000000"

lemma ticks_pit_handler [simp]: "ticks (pit_handler hw c) = ticks c + 1"
  by (simp add: pit_handler_def outb_def)

text \<open>
  Waiting ends when every wake-up is a timer interrupt, after exactly the ticks asked for,
  unless the counter would pass the end of its range.
\<close>

lemma sleep_until_reaches:
  assumes "unat (ticks c) + n < 2 ^ 64"
  shows "\<exists>c'. sleep_until (pit_handler hw) (ticks c + of_nat n) c = Some c' \<and> ticks c' = ticks c + of_nat n"
  using assms
proof (induction n arbitrary: c)
  case 0
  then show ?case by (simp add: sleep_until.simps)
next
  case (Suc n)
  have "unat (ticks c + of_nat (Suc n)) = unat (ticks c) + Suc n"
    using Suc.prems by (rule unat_add_of_nat)
  then have less: "ticks c < ticks c + of_nat (Suc n)" unfolding word_less_nat_alt by linarith
  have one: "unat (ticks (pit_handler hw c)) = unat (ticks c) + 1"
    using unat_add_of_nat [of "ticks c" 1] Suc.prems by simp
  have "sleep_until (pit_handler hw) (ticks c + of_nat (Suc n)) c =
      sleep_until (pit_handler hw) (ticks (pit_handler hw c) + of_nat n) (pit_handler hw c)"
    using less by (subst sleep_until.simps) (simp add: add.commute add.left_commute)
  moreover have "unat (ticks (pit_handler hw c)) + n < 2 ^ 64" using Suc.prems one by simp
  ultimately show ?case using Suc.IH [of "pit_handler hw c"] by (simp add: add.commute add.left_commute)
qed

lemma sleep_ms_returns:
  assumes "unat ms * 300 < 2 ^ 64" and "unat (ticks c) + unat ms * 300 div 1000 < 2 ^ 64"
  shows "\<exists>c'. sleep_ms (pit_handler hw) ms c = Some c' \<and>
    unat (ticks c') = unat (ticks c) + unat ms * 300 div 1000"
proof -
  have "unat (ms * 300) = unat ms * 300" using assms(1) by (simp add: unat_word_ariths)
  then have "safe_div (ms * PIT_FREQUENCY) 1000 = of_nat (unat ms * 300 div 1000)"
    using unat_of_nat64 [of "unat ms * 300 div 1000"] assms(2)
    unfolding safe_div_def PIT_FREQUENCY_def word_unat_eq_iff by (simp add: unat_div)
  then show ?thesis
    using sleep_until_reaches [OF assms(2), of hw] unat_add_of_nat [OF assms(2)]
    by (fastforce simp: sleep_ms_def PIT_FREQUENCY_def)
qed

end
