(* ===== verification/Keycodes.thy ===== *)
theory Keycodes
  imports Prelude
begin

text \<open>
  The tables of the keyboard: the key codes and \<open>check_printable\<close> of
  \<open>kernel/src/drivers/input/ps2k/ps2k_keycodes.hpp\<close> and the scan code tables of
  \<open>ps2k_scancode_map.hpp\<close>. The enumeration has the underlying type \<open>uint16_t\<close> and the
  code computes with its values, so an enumerator is a 16 bit constant.
\<close>

section \<open>Key codes\<close>

type_synonym keycode = u16

definition KEY_NONE :: keycode where "KEY_NONE = 0"
definition KEY_ESC :: keycode where "KEY_ESC = 1"
definition KEY_1 :: keycode where "KEY_1 = 2"
definition KEY_2 :: keycode where "KEY_2 = 3"
definition KEY_3 :: keycode where "KEY_3 = 4"
definition KEY_4 :: keycode where "KEY_4 = 5"
definition KEY_5 :: keycode where "KEY_5 = 6"
definition KEY_6 :: keycode where "KEY_6 = 7"
definition KEY_7 :: keycode where "KEY_7 = 8"
definition KEY_8 :: keycode where "KEY_8 = 9"
definition KEY_9 :: keycode where "KEY_9 = 10"
definition KEY_0 :: keycode where "KEY_0 = 11"
definition KEY_MINUS :: keycode where "KEY_MINUS = 12"
definition KEY_EQUAL :: keycode where "KEY_EQUAL = 13"
definition KEY_BACKSPACE :: keycode where "KEY_BACKSPACE = 14"
definition KEY_TAB :: keycode where "KEY_TAB = 15"
definition KEY_Q :: keycode where "KEY_Q = 16"
definition KEY_W :: keycode where "KEY_W = 17"
definition KEY_E :: keycode where "KEY_E = 18"
definition KEY_R :: keycode where "KEY_R = 19"
definition KEY_T :: keycode where "KEY_T = 20"
definition KEY_Y :: keycode where "KEY_Y = 21"
definition KEY_U :: keycode where "KEY_U = 22"
definition KEY_I :: keycode where "KEY_I = 23"
definition KEY_O :: keycode where "KEY_O = 24"
definition KEY_P :: keycode where "KEY_P = 25"
definition KEY_LEFTBRACE :: keycode where "KEY_LEFTBRACE = 26"
definition KEY_RIGHTBRACE :: keycode where "KEY_RIGHTBRACE = 27"
definition KEY_ENTER :: keycode where "KEY_ENTER = 28"
definition KEY_LEFTCTRL :: keycode where "KEY_LEFTCTRL = 29"
definition KEY_A :: keycode where "KEY_A = 30"
definition KEY_S :: keycode where "KEY_S = 31"
definition KEY_D :: keycode where "KEY_D = 32"
definition KEY_F :: keycode where "KEY_F = 33"
definition KEY_G :: keycode where "KEY_G = 34"
definition KEY_H :: keycode where "KEY_H = 35"
definition KEY_J :: keycode where "KEY_J = 36"
definition KEY_K :: keycode where "KEY_K = 37"
definition KEY_L :: keycode where "KEY_L = 38"
definition KEY_SEMICOLON :: keycode where "KEY_SEMICOLON = 39"
definition KEY_APOSTROPHE :: keycode where "KEY_APOSTROPHE = 40"
definition KEY_GRAVE :: keycode where "KEY_GRAVE = 41"
definition KEY_LEFTSHIFT :: keycode where "KEY_LEFTSHIFT = 42"
definition KEY_BACKSLASH :: keycode where "KEY_BACKSLASH = 43"
definition KEY_Z :: keycode where "KEY_Z = 44"
definition KEY_X :: keycode where "KEY_X = 45"
definition KEY_C :: keycode where "KEY_C = 46"
definition KEY_V :: keycode where "KEY_V = 47"
definition KEY_B :: keycode where "KEY_B = 48"
definition KEY_N :: keycode where "KEY_N = 49"
definition KEY_M :: keycode where "KEY_M = 50"
definition KEY_COMMA :: keycode where "KEY_COMMA = 51"
definition KEY_DOT :: keycode where "KEY_DOT = 52"
definition KEY_SLASH :: keycode where "KEY_SLASH = 53"
definition KEY_RIGHTSHIFT :: keycode where "KEY_RIGHTSHIFT = 54"
definition KEY_KPASTERISK :: keycode where "KEY_KPASTERISK = 55"
definition KEY_LEFTALT :: keycode where "KEY_LEFTALT = 56"
definition KEY_SPACE :: keycode where "KEY_SPACE = 57"
definition KEY_CAPSLOCK :: keycode where "KEY_CAPSLOCK = 58"
definition KEY_F1 :: keycode where "KEY_F1 = 59"
definition KEY_F2 :: keycode where "KEY_F2 = 60"
definition KEY_F3 :: keycode where "KEY_F3 = 61"
definition KEY_F4 :: keycode where "KEY_F4 = 62"
definition KEY_F5 :: keycode where "KEY_F5 = 63"
definition KEY_F6 :: keycode where "KEY_F6 = 64"
definition KEY_F7 :: keycode where "KEY_F7 = 65"
definition KEY_F8 :: keycode where "KEY_F8 = 66"
definition KEY_F9 :: keycode where "KEY_F9 = 67"
definition KEY_F10 :: keycode where "KEY_F10 = 68"
definition KEY_F11 :: keycode where "KEY_F11 = 69"
definition KEY_F12 :: keycode where "KEY_F12 = 70"
definition KEY_NUMLOCK :: keycode where "KEY_NUMLOCK = 71"
definition KEY_SCROLLLOCK :: keycode where "KEY_SCROLLLOCK = 72"
definition KEY_KP7 :: keycode where "KEY_KP7 = 73"
definition KEY_KP8 :: keycode where "KEY_KP8 = 74"
definition KEY_KP9 :: keycode where "KEY_KP9 = 75"
definition KEY_KPMINUS :: keycode where "KEY_KPMINUS = 76"
definition KEY_KP4 :: keycode where "KEY_KP4 = 77"
definition KEY_KP5 :: keycode where "KEY_KP5 = 78"
definition KEY_KP6 :: keycode where "KEY_KP6 = 79"
definition KEY_KPPLUS :: keycode where "KEY_KPPLUS = 80"
definition KEY_KP1 :: keycode where "KEY_KP1 = 81"
definition KEY_KP2 :: keycode where "KEY_KP2 = 82"
definition KEY_KP3 :: keycode where "KEY_KP3 = 83"
definition KEY_KP0 :: keycode where "KEY_KP0 = 84"
definition KEY_KPDOT :: keycode where "KEY_KPDOT = 85"
definition KEY_KPENTER :: keycode where "KEY_KPENTER = 86"
definition KEY_RIGHTCTRL :: keycode where "KEY_RIGHTCTRL = 87"
definition KEY_KPSLASH :: keycode where "KEY_KPSLASH = 88"
definition KEY_RIGHTALT :: keycode where "KEY_RIGHTALT = 89"
definition KEY_HOME :: keycode where "KEY_HOME = 90"
definition KEY_UP :: keycode where "KEY_UP = 91"
definition KEY_PAGEUP :: keycode where "KEY_PAGEUP = 92"
definition KEY_LEFT :: keycode where "KEY_LEFT = 93"
definition KEY_RIGHT :: keycode where "KEY_RIGHT = 94"
definition KEY_END :: keycode where "KEY_END = 95"
definition KEY_DOWN :: keycode where "KEY_DOWN = 96"
definition KEY_PAGEDOWN :: keycode where "KEY_PAGEDOWN = 97"
definition KEY_INSERT :: keycode where "KEY_INSERT = 98"
definition KEY_DELETE :: keycode where "KEY_DELETE = 99"
definition KEY_MUTE :: keycode where "KEY_MUTE = 100"
definition KEY_VOLUMEDOWN :: keycode where "KEY_VOLUMEDOWN = 101"
definition KEY_VOLUMEUP :: keycode where "KEY_VOLUMEUP = 102"
definition KEY_POWER :: keycode where "KEY_POWER = 103"
definition KEY_KPEQUAL :: keycode where "KEY_KPEQUAL = 104"
definition KEY_PAUSE :: keycode where "KEY_PAUSE = 105"
definition KEY_KPCOMMA :: keycode where "KEY_KPCOMMA = 106"
definition KEY_LEFTMETA :: keycode where "KEY_LEFTMETA = 107"
definition KEY_RIGHTMETA :: keycode where "KEY_RIGHTMETA = 108"
definition KEY_COMPOSE :: keycode where "KEY_COMPOSE = 109"
definition KEY_SLEEP :: keycode where "KEY_SLEEP = 110"
definition KEY_WAKEUP :: keycode where "KEY_WAKEUP = 111"
definition KEY_MEDIA_PLAYPAUSE :: keycode where "KEY_MEDIA_PLAYPAUSE = 112"
definition KEY_MEDIA_STOP :: keycode where "KEY_MEDIA_STOP = 113"
definition KEY_MEDIA_PREV :: keycode where "KEY_MEDIA_PREV = 114"
definition KEY_MEDIA_NEXT :: keycode where "KEY_MEDIA_NEXT = 115"
definition KEY_MEDIA_MUTE :: keycode where "KEY_MEDIA_MUTE = 116"
definition KEY_MEDIA_VOLUMEUP :: keycode where "KEY_MEDIA_VOLUMEUP = 117"
definition KEY_MEDIA_VOLUMEDOWN :: keycode where "KEY_MEDIA_VOLUMEDOWN = 118"

lemmas keycode_defs =
  KEY_NONE_def KEY_ESC_def KEY_1_def KEY_2_def KEY_3_def KEY_4_def KEY_5_def KEY_6_def KEY_7_def
  KEY_8_def KEY_9_def KEY_0_def KEY_MINUS_def KEY_EQUAL_def KEY_BACKSPACE_def KEY_TAB_def
  KEY_Q_def KEY_W_def KEY_E_def KEY_R_def KEY_T_def KEY_Y_def KEY_U_def KEY_I_def KEY_O_def
  KEY_P_def KEY_LEFTBRACE_def KEY_RIGHTBRACE_def KEY_ENTER_def KEY_LEFTCTRL_def KEY_A_def
  KEY_S_def KEY_D_def KEY_F_def KEY_G_def KEY_H_def KEY_J_def KEY_K_def KEY_L_def
  KEY_SEMICOLON_def KEY_APOSTROPHE_def KEY_GRAVE_def KEY_LEFTSHIFT_def KEY_BACKSLASH_def
  KEY_Z_def KEY_X_def KEY_C_def KEY_V_def KEY_B_def KEY_N_def KEY_M_def KEY_COMMA_def
  KEY_DOT_def KEY_SLASH_def KEY_RIGHTSHIFT_def KEY_KPASTERISK_def KEY_LEFTALT_def KEY_SPACE_def
  KEY_CAPSLOCK_def KEY_F1_def KEY_F2_def KEY_F3_def KEY_F4_def KEY_F5_def KEY_F6_def KEY_F7_def
  KEY_F8_def KEY_F9_def KEY_F10_def KEY_F11_def KEY_F12_def KEY_NUMLOCK_def KEY_SCROLLLOCK_def
  KEY_KP7_def KEY_KP8_def KEY_KP9_def KEY_KPMINUS_def KEY_KP4_def KEY_KP5_def KEY_KP6_def
  KEY_KPPLUS_def KEY_KP1_def KEY_KP2_def KEY_KP3_def KEY_KP0_def KEY_KPDOT_def KEY_KPENTER_def
  KEY_RIGHTCTRL_def KEY_KPSLASH_def KEY_RIGHTALT_def KEY_HOME_def KEY_UP_def KEY_PAGEUP_def
  KEY_LEFT_def KEY_RIGHT_def KEY_END_def KEY_DOWN_def KEY_PAGEDOWN_def KEY_INSERT_def
  KEY_DELETE_def KEY_MUTE_def KEY_VOLUMEDOWN_def KEY_VOLUMEUP_def KEY_POWER_def KEY_KPEQUAL_def
  KEY_PAUSE_def KEY_KPCOMMA_def KEY_LEFTMETA_def KEY_RIGHTMETA_def KEY_COMPOSE_def KEY_SLEEP_def
  KEY_WAKEUP_def KEY_MEDIA_PLAYPAUSE_def KEY_MEDIA_STOP_def KEY_MEDIA_PREV_def
  KEY_MEDIA_NEXT_def KEY_MEDIA_MUTE_def KEY_MEDIA_VOLUMEUP_def KEY_MEDIA_VOLUMEDOWN_def

definition check_printable :: "u16 \<Rightarrow> bool" where
  "check_printable kc \<longleftrightarrow> kc \<in> set
     [KEY_1, KEY_2, KEY_3, KEY_4, KEY_5, KEY_6, KEY_7, KEY_8, KEY_9, KEY_0, KEY_MINUS,
     KEY_EQUAL, KEY_BACKSPACE, KEY_TAB, KEY_Q, KEY_W, KEY_E, KEY_R, KEY_T, KEY_Y, KEY_U, KEY_I,
     KEY_O, KEY_P, KEY_LEFTBRACE, KEY_RIGHTBRACE, KEY_ENTER, KEY_A, KEY_S, KEY_D, KEY_F, KEY_G,
     KEY_H, KEY_J, KEY_K, KEY_L, KEY_SEMICOLON, KEY_APOSTROPHE, KEY_GRAVE, KEY_BACKSLASH, KEY_Z,
     KEY_X, KEY_C, KEY_V, KEY_B, KEY_N, KEY_M, KEY_COMMA, KEY_DOT, KEY_SLASH, KEY_KPASTERISK,
     KEY_SPACE, KEY_KP7, KEY_KP8, KEY_KP9, KEY_KPMINUS, KEY_KP4, KEY_KP5, KEY_KP6, KEY_KPPLUS,
     KEY_KP1, KEY_KP2, KEY_KP3, KEY_KP0, KEY_KPDOT, KEY_KPENTER, KEY_KPSLASH]"

section \<open>Scan codes\<close>

text \<open>The assignments of \<open>init_scancode_map\<close> in their order; a later one replaces an earlier one.\<close>

definition scancode_assignments :: "(nat \<times> keycode) list" where
  "scancode_assignments =
     [(0x1E, KEY_A), (0x30, KEY_B), (0x2E, KEY_C), (0x20, KEY_D), (0x12, KEY_E), (0x21, KEY_F),
     (0x22, KEY_G), (0x23, KEY_H), (0x17, KEY_I), (0x24, KEY_J), (0x25, KEY_K), (0x26, KEY_L),
     (0x32, KEY_M), (0x31, KEY_N), (0x18, KEY_O), (0x19, KEY_P), (0x10, KEY_Q), (0x13, KEY_R),
     (0x1F, KEY_S), (0x14, KEY_T), (0x16, KEY_U), (0x2F, KEY_V), (0x11, KEY_W), (0x2D, KEY_X),
     (0x15, KEY_Y), (0x2C, KEY_Z), (0x0B, KEY_0), (0x02, KEY_1), (0x03, KEY_2), (0x04, KEY_3),
     (0x05, KEY_4), (0x06, KEY_5), (0x07, KEY_6), (0x08, KEY_7), (0x09, KEY_8), (0x0A, KEY_9),
     (0x3B, KEY_F1), (0x3C, KEY_F2), (0x3D, KEY_F3), (0x3E, KEY_F4), (0x3F, KEY_F5),
     (0x40, KEY_F6), (0x41, KEY_F7), (0x42, KEY_F8), (0x43, KEY_F9), (0x44, KEY_F10),
     (0x57, KEY_F11), (0x58, KEY_F12), (0x01, KEY_ESC), (0x0E, KEY_BACKSPACE), (0x0F, KEY_TAB),
     (0x1C, KEY_ENTER), (0x39, KEY_SPACE), (0x1D, KEY_LEFTCTRL), (0x2A, KEY_LEFTSHIFT),
     (0x36, KEY_RIGHTSHIFT), (0x38, KEY_LEFTALT), (0x3A, KEY_CAPSLOCK), (0x45, KEY_NUMLOCK),
     (0x46, KEY_SCROLLLOCK), (0x0C, KEY_MINUS), (0x0D, KEY_EQUAL), (0x1A, KEY_LEFTBRACE),
     (0x1B, KEY_RIGHTBRACE), (0x27, KEY_SEMICOLON), (0x28, KEY_APOSTROPHE), (0x29, KEY_GRAVE),
     (0x2B, KEY_BACKSLASH), (0x33, KEY_COMMA), (0x34, KEY_DOT), (0x35, KEY_SLASH),
     (0x47, KEY_KP7), (0x48, KEY_KP8), (0x49, KEY_KP9), (0x4A, KEY_KPMINUS), (0x4B, KEY_KP4),
     (0x4C, KEY_KP5), (0x4D, KEY_KP6), (0x4E, KEY_KPPLUS), (0x4F, KEY_KP1), (0x50, KEY_KP2),
     (0x51, KEY_KP3), (0x52, KEY_KP0), (0x53, KEY_KPDOT)]"

definition extended_assignments :: "(nat \<times> keycode) list" where
  "extended_assignments =
     [(0x48, KEY_UP), (0x50, KEY_DOWN), (0x4B, KEY_LEFT), (0x4D, KEY_RIGHT), (0x47, KEY_HOME),
     (0x4F, KEY_END), (0x49, KEY_PAGEUP), (0x51, KEY_PAGEDOWN), (0x52, KEY_INSERT),
     (0x53, KEY_DELETE), (0x1D, KEY_RIGHTCTRL), (0x38, KEY_RIGHTALT), (0x5B, KEY_LEFTMETA),
     (0x5C, KEY_RIGHTMETA), (0x5D, KEY_COMPOSE), (0x35, KEY_KPSLASH), (0x1C, KEY_KPENTER),
     (0x22, KEY_MUTE), (0x24, KEY_VOLUMEDOWN), (0x2E, KEY_VOLUMEUP), (0x20, KEY_MEDIA_MUTE),
     (0x30, KEY_MEDIA_VOLUMEUP), (0x2E, KEY_MEDIA_VOLUMEDOWN), (0x19, KEY_MEDIA_NEXT),
     (0x10, KEY_MEDIA_PREV), (0x24, KEY_MEDIA_STOP), (0x22, KEY_MEDIA_PLAYPAUSE),
     (0x5E, KEY_POWER), (0x5F, KEY_SLEEP), (0x63, KEY_WAKEUP)]"

definition assign_all :: "(nat \<times> keycode) list \<Rightarrow> keycode list \<Rightarrow> keycode list" where
  "assign_all as t = fold (\<lambda>(i, k) t. t[i := k]) as t"

definition init_scancode_map :: "keycode list \<times> keycode list" where
  "init_scancode_map = (assign_all scancode_assignments (replicate 128 KEY_NONE),
     assign_all extended_assignments (replicate 128 KEY_NONE))"

end
