(* ===== verification/Heap.thy ===== *)
theory Heap
  imports Vmm
begin

text \<open>
  The kernel heap, \<open>kernel/src/mem/heap.cpp\<close>: a doubly linked list of block headers kept
  in the heap's own memory, each followed by the bytes it describes. This theory holds the
  model, on the byte memory, and the facts about single headers. A loop over the list is a
  \<open>partial_function\<close>: on a list with a cycle it does not return.
\<close>

section \<open>State and block headers\<close>

record heap = vmm +
  heap_base :: u64
  heap_size :: u64

record heap_block =
  hb_base :: u64
  hb_length :: u64
  hb_is_free :: bool
  hb_prev :: u64
  hb_next :: u64

text \<open>\<open>sizeof(heap_block)\<close>; the fields are at offsets 0, 8, 16, 24 and 32.\<close>

definition block_size :: u64 where "block_size = 40"

definition get_block :: "memory \<Rightarrow> u64 \<Rightarrow> heap_block" where
  "get_block m p = \<lparr>hb_base = read64 m p, hb_length = read64 m (p + 8), hb_is_free = (m (p + 16) \<noteq> 0),
     hb_prev = read64 m (p + 24), hb_next = read64 m (p + 32)\<rparr>"

definition set_base :: "u64 \<Rightarrow> u64 \<Rightarrow> memory \<Rightarrow> memory" where
  "set_base p v m = write64 m p v"

definition set_length :: "u64 \<Rightarrow> u64 \<Rightarrow> memory \<Rightarrow> memory" where
  "set_length p v m = write64 m (p + 8) v"

definition set_is_free :: "u64 \<Rightarrow> bool \<Rightarrow> memory \<Rightarrow> memory" where
  "set_is_free p v m = m(p + 16 := if v then 1 else 0)"

definition set_prev :: "u64 \<Rightarrow> u64 \<Rightarrow> memory \<Rightarrow> memory" where
  "set_prev p v m = write64 m (p + 24) v"

definition set_next :: "u64 \<Rightarrow> u64 \<Rightarrow> memory \<Rightarrow> memory" where
  "set_next p v m = write64 m (p + 32) v"

section \<open>Operations\<close>

text \<open>\<open>initialise\<close>: the halving requests, then the header of the first block.\<close>

definition initial_size :: u64 where "initial_size = 0x100000000"
definition min_heap_size :: u64 where "min_heap_size = 0x100000"

lemma divisor_halves:
  assumes "min_heap_size \<le> initial_size div divisor"
  shows "unat (initial_size div (divisor * 2)) < unat (initial_size div divisor)"
proof -
  have i: "unat initial_size = 2 ^ 32" by (simp add: initial_size_def)
  have q: "2 ^ 20 \<le> 2 ^ 32 div unat divisor"
    using assms by (simp add: word_le_nat_alt unat_div i min_heap_size_def)
  have "divisor \<noteq> 0" using q by (auto simp: unat_gt_0)
  then have d: "0 < unat divisor" by (simp add: unat_gt_0)
  have "unat divisor * 2 ^ 20 \<le> unat divisor * (2 ^ 32 div unat divisor)"
    by (rule mult_le_mono2 [OF q])
  also have "\<dots> \<le> 2 ^ 32" by (rule times_div_less_eq_dividend)
  finally have "unat divisor * 2 ^ 20 \<le> 2 ^ 32" .
  then have "unat (divisor * 2) = unat divisor * 2"
    by (simp add: unat_word_ariths)
  moreover have "2 ^ 32 div (unat divisor * 2) < (2 ^ 32 :: nat) div unat divisor"
    using q by (simp add: div_mult2_eq)
  ultimately show ?thesis by (simp add: unat_div i)
qed

function reserve_loop :: "u64 \<Rightarrow> 'a heap_scheme \<Rightarrow> 'a heap_scheme" where
  "reserve_loop divisor s =
     (if heap_base s = 0 \<and> min_heap_size \<le> initial_size div divisor
      then let s1 = s\<lparr>heap_size := initial_size div divisor\<rparr>
           in case reserve_heap (heap_size s1 div 0x1000) s1 of (p, s2) \<Rightarrow>
                reserve_loop (divisor * 2) (s2\<lparr>heap_base := p\<rparr>)
      else s)"
  by pat_completeness auto
termination
  by (relation "measure (\<lambda>(d, s). unat (initial_size div d))") (auto simp: divisor_halves)

definition heap_initialise :: "'a heap_scheme \<Rightarrow> 'a heap_scheme" where
  "heap_initialise s =
     (let s1 = reserve_loop 1 (s\<lparr>heap_base := 0\<rparr>);
          s2 = s1\<lparr>heap_base := pa_to_va (heap_base s1)\<rparr>;
          first_block = heap_base s2;
          m1 = set_base first_block (first_block + block_size) (mem s2);
          m2 = set_length first_block (heap_size s2 - block_size) m1;
          m3 = set_is_free first_block True m2;
          m4 = set_prev first_block 0 m3;
          m5 = set_next first_block 0 m4
      in s2\<lparr>mem := m5\<rparr>)"

text \<open>Absorbing the next block, as \<open>defragment\<close> and \<open>free\<close> do it.\<close>

definition absorb_next :: "u64 \<Rightarrow> memory \<Rightarrow> memory" where
  "absorb_next current m =
     (let next_block = hb_next (get_block m current);
          m1 = set_length current
                 (hb_length (get_block m current) + (hb_length (get_block m next_block) + block_size)) m;
          m2 = set_next current (hb_next (get_block m1 (hb_next (get_block m1 current)))) m1
      in if hb_next (get_block m2 current) \<noteq> 0
         then set_prev (hb_next (get_block m2 current)) current m2 else m2)"

partial_function (option) defragment_loop :: "u64 \<Rightarrow> memory \<Rightarrow> memory option" where
  "defragment_loop current m =
     (if current = 0 then Some m
      else if hb_is_free (get_block m current) \<and> hb_next (get_block m current) \<noteq> 0 \<and>
              hb_is_free (get_block m (hb_next (get_block m current)))
      then defragment_loop current (absorb_next current m)
      else defragment_loop (hb_next (get_block m current)) m)"

definition defragment :: "'a heap_scheme \<Rightarrow> 'a heap_scheme option" where
  "defragment s =
     (if heap_base s = 0 then Some s
      else map_option (\<lambda>m. s\<lparr>mem := m\<rparr>) (defragment_loop (heap_base s) (mem s)))"

text \<open>The search for the smallest free block of at least \<open>n\<close> bytes.\<close>

partial_function (option) best_fit_loop :: "memory \<Rightarrow> u64 \<Rightarrow> u64 \<Rightarrow> u64 \<Rightarrow> u64 option" where
  "best_fit_loop m n current best_fit =
     (if current = 0 then Some best_fit
      else best_fit_loop m n (hb_next (get_block m current))
             (if hb_is_free (get_block m current) \<and> n \<le> hb_length (get_block m current) \<and>
                 (best_fit = 0 \<or> hb_length (get_block m current) < hb_length (get_block m best_fit))
              then current else best_fit))"

definition split_block :: "u64 \<Rightarrow> u64 \<Rightarrow> memory \<Rightarrow> memory" where
  "split_block best_fit n m =
     (let new_block = best_fit + block_size + n;
          m1 = set_base new_block (new_block + block_size) m;
          m2 = set_length new_block (hb_length (get_block m1 best_fit) - n - block_size) m1;
          m3 = set_is_free new_block True m2;
          m4 = set_next new_block (hb_next (get_block m3 best_fit)) m3;
          m5 = (if hb_next (get_block m4 best_fit) \<noteq> 0
                then set_prev (hb_next (get_block m4 best_fit)) new_block m4 else m4);
          m6 = set_next best_fit new_block m5;
          m7 = set_prev new_block best_fit m6
      in set_length best_fit n m7)"

definition malloc :: "u64 \<Rightarrow> 'a heap_scheme \<Rightarrow> (u64 \<times> 'a heap_scheme) option" where
  "malloc n s =
     (case best_fit_loop (mem s) n (heap_base s) 0 of
        None \<Rightarrow> None
      | Some best_fit \<Rightarrow>
          if best_fit = 0 then Some (0, s)
          else
            let m1 = (if n + block_size < hb_length (get_block (mem s) best_fit)
                      then split_block best_fit n (mem s) else mem s);
                m2 = set_is_free best_fit False m1
            in Some (hb_base (get_block m2 best_fit), s\<lparr>mem := m2\<rparr>))"

text \<open>The two splits of \<open>malloc_aligned\<close>: off the padding in front, off the rest behind.\<close>

definition split_padding :: "u64 \<Rightarrow> u64 \<Rightarrow> memory \<Rightarrow> memory" where
  "split_padding best_fit padding m =
     (let pad_block = best_fit + block_size + padding;
          m1 = set_base pad_block (pad_block + block_size) m;
          m2 = set_length pad_block (hb_length (get_block m1 best_fit) - padding - block_size) m1;
          m3 = set_is_free pad_block True m2;
          m4 = set_next pad_block (hb_next (get_block m3 best_fit)) m3;
          m5 = (if hb_next (get_block m4 best_fit) \<noteq> 0
                then set_prev (hb_next (get_block m4 best_fit)) pad_block m4 else m4);
          m6 = set_prev pad_block best_fit m5;
          m7 = set_length best_fit padding m6
      in set_next best_fit pad_block m7)"

definition split_rest :: "u64 \<Rightarrow> u64 \<Rightarrow> memory \<Rightarrow> memory" where
  "split_rest best_fit n m =
     (let new_block = best_fit + block_size + n;
          m1 = set_base new_block (new_block + block_size) m;
          m2 = set_length new_block (hb_length (get_block m1 best_fit) - n - block_size) m1;
          m3 = set_is_free new_block True m2;
          m4 = set_next new_block (hb_next (get_block m3 best_fit)) m3;
          m5 = (if hb_next (get_block m4 best_fit) \<noteq> 0
                then set_prev (hb_next (get_block m4 new_block)) new_block m4 else m4);
          m6 = set_prev new_block best_fit m5;
          m7 = set_next best_fit new_block m6
      in set_length best_fit n m7)"

definition finish_aligned :: "u64 \<Rightarrow> u64 \<Rightarrow> memory \<Rightarrow> u64 \<times> memory" where
  "finish_aligned best_fit n m =
     (let m1 = (if n + block_size < hb_length (get_block m best_fit)
                then split_rest best_fit n m else m);
          m2 = set_is_free best_fit False m1
      in (hb_base (get_block m2 best_fit), m2))"

definition malloc_aligned :: "u64 \<Rightarrow> u64 \<Rightarrow> 'a heap_scheme \<Rightarrow> (u64 \<times> 'a heap_scheme) option" where
  "malloc_aligned n alignment s =
     (if alignment AND (alignment - 1) \<noteq> 0 then Some (0, s)
      else case best_fit_loop (mem s) (n + alignment) (heap_base s) 0 of
        None \<Rightarrow> None
      | Some best_fit \<Rightarrow>
          if best_fit = 0 then Some (0, s)
          else
            let raw_addr = hb_base (get_block (mem s) best_fit);
                aligned_addr = (raw_addr + alignment - 1) AND NOT (alignment - 1);
                padding = aligned_addr - raw_addr
            in if 0 < padding
               then if hb_length (get_block (mem s) best_fit) \<le> padding + block_size then Some (0, s)
                    else case finish_aligned (best_fit + block_size + padding) n
                                (split_padding best_fit padding (mem s)) of
                           (p, m) \<Rightarrow> Some (p, s\<lparr>mem := m\<rparr>)
               else case finish_aligned best_fit n (mem s) of (p, m) \<Rightarrow> Some (p, s\<lparr>mem := m\<rparr>))"

text \<open>The search of \<open>free\<close> and \<open>realloc\<close> for the block of a pointer.\<close>

partial_function (option) find_block :: "memory \<Rightarrow> u64 \<Rightarrow> u64 \<Rightarrow> u64 option" where
  "find_block m ptr current =
     (if current = 0 then Some 0
      else if hb_base (get_block m current) = ptr then Some current
      else find_block m ptr (hb_next (get_block m current)))"

text \<open>Merging with the previous block.\<close>

definition absorb_into_prev :: "u64 \<Rightarrow> memory \<Rightarrow> memory" where
  "absorb_into_prev current m =
     (let prev_block = hb_prev (get_block m current);
          m1 = set_length prev_block
                 (hb_length (get_block m prev_block) + (hb_length (get_block m current) + block_size)) m;
          m2 = set_next (hb_prev (get_block m1 current)) (hb_next (get_block m1 current)) m1
      in if hb_next (get_block m2 current) \<noteq> 0
         then set_prev (hb_next (get_block m2 current)) (hb_prev (get_block m2 current)) m2 else m2)"

definition free_block :: "u64 \<Rightarrow> memory \<Rightarrow> memory" where
  "free_block current m =
     (let m1 = set_is_free current True m;
          m2 = (if hb_next (get_block m1 current) \<noteq> 0 \<and>
                   hb_is_free (get_block m1 (hb_next (get_block m1 current)))
                then absorb_next current m1 else m1)
      in if hb_prev (get_block m2 current) \<noteq> 0 \<and>
            hb_is_free (get_block m2 (hb_prev (get_block m2 current)))
         then absorb_into_prev current m2 else m2)"

definition heap_free :: "u64 \<Rightarrow> 'a heap_scheme \<Rightarrow> 'a heap_scheme option" where
  "heap_free ptr s =
     (if ptr = 0 then Some s
      else case find_block (mem s) ptr (heap_base s) of
             None \<Rightarrow> None
           | Some current \<Rightarrow>
               if current = 0 then Some s else Some (s\<lparr>mem := free_block current (mem s)\<rparr>))"

definition realloc :: "u64 \<Rightarrow> u64 \<Rightarrow> 'a heap_scheme \<Rightarrow> (u64 \<times> 'a heap_scheme) option" where
  "realloc ptr n s =
     (if ptr = 0 then malloc n s
      else if n = 0 then map_option (\<lambda>s'. (0, s')) (heap_free ptr s)
      else case find_block (mem s) ptr (heap_base s) of
        None \<Rightarrow> None
      | Some current \<Rightarrow>
          if current = 0 then Some (0, s)
          else if n \<le> hb_length (get_block (mem s) current)
          then Some (hb_base (get_block (set_length current n (mem s)) current),
                     s\<lparr>mem := set_length current n (mem s)\<rparr>)
          else case malloc n s of
            None \<Rightarrow> None
          | Some (new_ptr, s1) \<Rightarrow>
              if new_ptr = 0 then Some (0, s1)
              else
                let s2 = s1\<lparr>mem := snd (memcpy (mem s1) new_ptr ptr
                              (hb_length (get_block (mem s1) current)))\<rparr>
                in map_option (\<lambda>s3. (new_ptr, s3)) (heap_free ptr s2))"

definition calloc :: "u64 \<Rightarrow> u64 \<Rightarrow> 'a heap_scheme \<Rightarrow> (u64 \<times> 'a heap_scheme) option" where
  "calloc n sz s =
     (case malloc (n * sz) s of
        None \<Rightarrow> None
      | Some (ptr, s1) \<Rightarrow>
          Some (ptr, if ptr \<noteq> 0 then s1\<lparr>mem := snd (memset (mem s1) ptr 0 (n * sz))\<rparr> else s1))"

text \<open>
  \<open>operator new\<close> and \<open>operator delete\<close> of \<open>other.cpp\<close>; a failed \<open>new\<close> panics.
\<close>

datatype 'a outcome = Returns 'a | Panics

definition operator_new :: "u64 \<Rightarrow> 'a heap_scheme \<Rightarrow> (u64 \<times> 'a heap_scheme) outcome option" where
  "operator_new n s =
     (case malloc n s of
        None \<Rightarrow> None
      | Some (ptr, s1) \<Rightarrow> Some (if ptr = 0 then Panics else Returns (ptr, s1)))"

definition operator_delete :: "u64 \<Rightarrow> 'a heap_scheme \<Rightarrow> 'a heap_scheme option" where
  "operator_delete ptr s = heap_free ptr s"

declare reserve_loop.simps [simp del]

section \<open>Headers as records\<close>

lemma sep_offset:
  assumes "i < j" and "i + n \<le> j" and "j + k \<le> 64"
  shows "sep (p + of_nat i) (of_nat n) (p + of_nat j) (of_nat k :: u64)"
proof -
  obtain d where d: "j = i + d" "0 < d" using assms(1) less_imp_add_positive by blast
  then have "n \<le> d" "d + k \<le> 64" using assms by auto
  moreover have u: "unat (of_nat d :: u64) = d" "unat (of_nat n :: u64) = n" "unat (of_nat k :: u64) = k"
    using assms d by (simp_all add: unat_of_nat64)
  moreover have "unat (- of_nat d :: u64) = 2 ^ 64 - d"
    using d(2) u(1) unat_sub_if' [of 0 "of_nat d :: u64"] by (simp add: word_le_nat_alt)
  ultimately have "of_nat n \<le> (of_nat d :: u64)" "of_nat k \<le> (- of_nat d :: u64)"
    by (simp_all add: word_le_nat_alt)
  then show ?thesis by (simp add: sep_def d(1))
qed

lemma header_seps:
  "sep p 8 (p + 8) 8" "sep p 8 (p + 16) 1" "sep p 8 (p + 24) 8" "sep p 8 (p + 32) 8"
  "sep (p + 8) 8 (p + 16) 1" "sep (p + 8) 8 (p + 24) 8" "sep (p + 8) 8 (p + 32) 8"
  "sep (p + 16) 1 (p + 24) 8" "sep (p + 16) 1 (p + 32) 8" "sep (p + 24) 8 (p + 32) 8"
  using sep_offset [of 0 8 8 8 p] sep_offset [of 0 16 8 1 p] sep_offset [of 0 24 8 8 p]
    sep_offset [of 0 32 8 8 p] sep_offset [of 8 16 8 1 p] sep_offset [of 8 24 8 8 p]
    sep_offset [of 8 32 8 8 p] sep_offset [of 16 24 1 8 p] sep_offset [of 16 32 1 8 p]
    sep_offset [of 24 32 8 8 p] by simp_all

lemma read64_upd: "sep p 1 q 8 \<Longrightarrow> read64 (m(p := v)) q = read64 m q"
proof -
  assume s: "sep p 1 q 8"
  have "q + of_nat i \<noteq> p" if "i < 8" for i
  proof -
    have "in_region q 8 (q + of_nat i)" using that by (simp add: word_less_nat_alt unat_of_nat64)
    moreover have "in_region p 1 p" by (simp add: in_region_def)
    ultimately show ?thesis using sepD [OF s] by metis
  qed
  then show ?thesis unfolding read64_def by (intro read_le_cong) auto
qed

lemma write64_apart: "sep p 8 q 1 \<Longrightarrow> write64 m p v q = m q"
proof -
  assume s: "sep p 8 q 1"
  have "in_region q 1 q" by (simp add: in_region_def)
  then have "\<not> in_region p 8 q" using sepD [of q 1 p 8 q] s by (simp add: sep_sym)
  then show ?thesis by (rule write64_outside)
qed

lemmas field_simps = read64_write64_same read64_write64_sep read64_upd write64_apart
  header_seps header_seps [THEN sep_sym [THEN iffD1]]

lemma get_set_same [simp]:
  "get_block (set_base p v m) p = (get_block m p)\<lparr>hb_base := v\<rparr>"
  "get_block (set_length p v m) p = (get_block m p)\<lparr>hb_length := v\<rparr>"
  "get_block (set_is_free p b m) p = (get_block m p)\<lparr>hb_is_free := b\<rparr>"
  "get_block (set_prev p v m) p = (get_block m p)\<lparr>hb_prev := v\<rparr>"
  "get_block (set_next p v m) p = (get_block m p)\<lparr>hb_next := v\<rparr>"
  by (simp_all add: get_block_def set_base_def set_length_def set_is_free_def set_prev_def
      set_next_def field_simps)

text \<open>A write to a header touches the forty bytes of that header only.\<close>

lemma in_header:
  assumes "in_region (p + of_nat i) (of_nat n) x" and "i + n \<le> 40"
  shows "in_region p block_size x"
proof -
  obtain k where k: "k < of_nat n" "x = p + of_nat i + k" using assms(1) by (rule in_regionE)
  have "unat k < n" using k(1) assms(2) by (simp add: word_less_nat_alt unat_of_nat64)
  then have "unat (of_nat i + k) = i + unat k"
    using assms(2) unat_add_nowrap [of "of_nat i" k] by (simp add: unat_of_nat64)
  then show ?thesis
    using k(2) \<open>unat k < n\<close> assms(2) by (simp add: block_size_def add.assoc word_less_nat_alt)
qed

lemma set_outside [simp]:
  assumes "\<not> in_region p block_size x"
  shows "set_base p v m x = m x" "set_length p v m x = m x" "set_is_free p b m x = m x"
    "set_prev p v m x = m x" "set_next p v m x = m x"
proof -
  have n: "\<not> in_region (p + of_nat i) (of_nat n) x" if "i + n \<le> 40" for i n
    using in_header [of p i n x] that assms by blast
  have "x \<noteq> p + 16" using n [of 16 1] by (auto simp: in_region_def)
  then show "set_base p v m x = m x" "set_length p v m x = m x" "set_is_free p b m x = m x"
    "set_prev p v m x = m x" "set_next p v m x = m x"
    using n [of 0 8] n [of 8 8] n [of 24 8] n [of 32 8]
    by (simp_all add: set_base_def set_length_def set_is_free_def set_prev_def set_next_def write64_outside)
qed

lemma get_block_cong:
  assumes "\<And>x. in_region q block_size x \<Longrightarrow> m' x = m x"
  shows "get_block m' q = get_block m q"
proof -
  have "m' (q + of_nat i + of_nat j) = m (q + of_nat i + of_nat j)" if "j < n" "i + n \<le> 40" for i j n
  proof (rule assms, rule in_header [of q i n])
    show "in_region (q + of_nat i) (of_nat n) (q + of_nat i + of_nat j)"
      using that by (simp add: word_less_nat_alt unat_of_nat64)
  qed (fact that(2))
  then have "read64 m' (q + of_nat i) = read64 m (q + of_nat i)" if "i + 8 \<le> 40" for i
    unfolding read64_def using that by (intro read_le_cong) blast
  from this [of 0] this [of 8] this [of 24] this [of 32]
  have "read64 m' q = read64 m q" "read64 m' (q + 8) = read64 m (q + 8)"
    "read64 m' (q + 24) = read64 m (q + 24)" "read64 m' (q + 32) = read64 m (q + 32)" by simp_all
  moreover have "m' (q + 16) = m (q + 16)" by (rule assms) (simp add: block_size_def)
  ultimately show ?thesis by (simp add: get_block_def)
qed

lemma get_set_other [simp]:
  assumes "sep p block_size q block_size"
  shows "get_block (set_base p v m) q = get_block m q" "get_block (set_length p v m) q = get_block m q"
    "get_block (set_is_free p b m) q = get_block m q" "get_block (set_prev p v m) q = get_block m q"
    "get_block (set_next p v m) q = get_block m q"
proof -
  have "\<not> in_region p block_size x" if "in_region q block_size x" for x
    using sepD [of q block_size p block_size x] assms that by (simp add: sep_sym)
  then show "get_block (set_base p v m) q = get_block m q"
    "get_block (set_length p v m) q = get_block m q" "get_block (set_is_free p b m) q = get_block m q"
    "get_block (set_prev p v m) q = get_block m q" "get_block (set_next p v m) q = get_block m q"
    by (auto intro!: get_block_cong)
qed

end
