(* ===== verification/Heap_Chain.thy ===== *)
theory Heap_Chain
  imports Heap
begin

text \<open>
  The block list of the heap in memory and as a list: \<open>seg\<close> says that the headers of a
  list of blocks are in memory and doubly linked, \<open>laid\<close> that they lie in order in the
  heap, \<open>heap_inv\<close> combines both. The lemmas give the effect of the steps the heap
  operations are made of: the search for the best block, the split of a block, the change of
  a flag, the merge of two blocks.
\<close>

section \<open>The chain of blocks\<close>

text \<open>
  A block as the list level sees it: the address of its header, its length, whether it is free.
  \<open>seg m q bs r\<close>: the headers of \<open>bs\<close> are in memory, doubly linked, with \<open>q\<close> before
  the first and \<open>r\<close> after the last.
\<close>

type_synonym blk = "u64 \<times> u64 \<times> bool"

fun nxt :: "blk list \<Rightarrow> u64 \<Rightarrow> u64" where
  "nxt [] r = r"
| "nxt ((a, l, f) # bs) r = a"

fun lst :: "u64 \<Rightarrow> blk list \<Rightarrow> u64" where
  "lst q [] = q"
| "lst q ((a, l, f) # bs) = lst a bs"

fun seg :: "memory \<Rightarrow> u64 \<Rightarrow> blk list \<Rightarrow> u64 \<Rightarrow> bool" where
  "seg m q [] r \<longleftrightarrow> True"
| "seg m q ((a, l, f) # bs) r \<longleftrightarrow> a \<noteq> 0 \<and>
     get_block m a = \<lparr>hb_base = a + block_size, hb_length = l, hb_is_free = f, hb_prev = q,
       hb_next = nxt bs r\<rparr> \<and> seg m a bs r"

lemma nxt_append [simp]: "nxt (xs @ ys) r = nxt xs (nxt ys r)"
  by (cases xs) auto

lemma lst_append [simp]: "lst q (xs @ ys) = lst (lst q xs) ys"
  by (induction xs arbitrary: q) auto

lemma seg_append [simp]: "seg m q (xs @ ys) r \<longleftrightarrow> seg m q xs (nxt ys r) \<and> seg m (lst q xs) ys r"
  by (induction xs arbitrary: q) auto

lemma seg_cong:
  assumes "\<forall>b \<in> set bs. get_block m' (fst b) = get_block m (fst b)"
  shows "seg m' q bs r = seg m q bs r"
  using assms by (induction bs arbitrary: q) auto

text \<open>The blocks lie in order between \<open>lo\<close> and \<open>hi\<close>; gaps are allowed.\<close>

fun laid :: "nat \<Rightarrow> nat \<Rightarrow> blk list \<Rightarrow> bool" where
  "laid lo hi [] \<longleftrightarrow> lo \<le> hi"
| "laid lo hi ((a, l, f) # bs) \<longleftrightarrow> lo \<le> unat a \<and> laid (unat a + 40 + unat l) hi bs"

lemma laid_weaken: "laid lo hi bs \<Longrightarrow> lo' \<le> lo \<Longrightarrow> laid lo' hi bs"
  by (cases bs) auto

lemma laid_le: "laid lo hi bs \<Longrightarrow> lo \<le> hi"
  by (induction bs arbitrary: lo) (force, fastforce)

lemma laid_split:
  "laid lo hi (xs @ (a, l, f) # ys) \<longleftrightarrow>
     laid lo (unat a) xs \<and> laid (unat a + 40 + unat l) hi ys"
  by (induction xs arbitrary: lo) auto

lemma laid_mem:
  assumes "laid lo hi bs" and "(a, l, f) \<in> set bs"
  shows "lo \<le> unat a" and "unat a + 40 + unat l \<le> hi"
proof -
  obtain xs ys where bs: "bs = xs @ (a, l, f) # ys" using assms(2) by (auto dest: split_list)
  show "lo \<le> unat a" "unat a + 40 + unat l \<le> hi"
    using assms(1) laid_le by (auto simp: bs laid_split)
qed

lemma laid_hi: "laid lo hi bs \<Longrightarrow> hi \<le> hi' \<Longrightarrow> laid lo hi' bs"
  by (induction bs arbitrary: lo) auto

text \<open>Headers that do not overlap.\<close>

lemma header_sep:
  assumes "unat p + 40 \<le> unat q" and "unat q + 40 \<le> 2 ^ 64"
  shows "sep p block_size q block_size" and "sep q block_size p block_size"
  using sep_nat [of p block_size q block_size] assms sep_sym by (auto simp: block_size_def)

lemma distinct_headers:
  assumes "laid lo hi (xs @ (a, l, f) # ys)" and "hi < 2 ^ 64" and "(b, l', f') \<in> set xs \<union> set ys"
  shows "sep a block_size b block_size" and "a \<noteq> b"
proof -
  have "unat b + 40 \<le> unat a \<and> unat a + 40 \<le> hi \<or> unat a + 40 \<le> unat b \<and> unat b + 40 \<le> hi"
    using assms laid_mem [of lo "unat a" xs b l' f'] laid_mem [of "unat a + 40 + unat l" hi ys b l' f']
      laid_le by (fastforce simp: laid_split)
  then show "sep a block_size b block_size" "a \<noteq> b"
    using header_sep [of a b] header_sep [of b a] assms(2) by auto
qed

section \<open>Splitting a block\<close>

text \<open>What all three splits of the source leave in memory.\<close>

definition did_split :: "u64 \<Rightarrow> u64 \<Rightarrow> memory \<Rightarrow> memory \<Rightarrow> bool" where
  "did_split a n m m' \<longleftrightarrow>
    (let b = get_block m a; new = a + block_size + n; after = hb_next b in
     get_block m' a = b\<lparr>hb_length := n, hb_next := new\<rparr> \<and>
     get_block m' new = \<lparr>hb_base = new + block_size, hb_length = hb_length b - n - block_size,
       hb_is_free = True, hb_prev = a, hb_next = after\<rparr> \<and>
     (after \<noteq> 0 \<longrightarrow> get_block m' after = (get_block m after)\<lparr>hb_prev := new\<rparr>) \<and>
     (\<forall>x. \<not> in_region a block_size x \<and> \<not> in_region new block_size x \<and>
          \<not> (after \<noteq> 0 \<and> in_region after block_size x) \<longrightarrow> m' x = m x))"

lemma splits_done:
  assumes "sep a block_size (a + block_size + n) block_size"
    and "hb_next (get_block m a) \<noteq> 0 \<Longrightarrow> sep a block_size (hb_next (get_block m a)) block_size"
    and "hb_next (get_block m a) \<noteq> 0 \<Longrightarrow>
       sep (a + block_size + n) block_size (hb_next (get_block m a)) block_size"
  shows "did_split a n m (split_block a n m)" "did_split a n m (split_padding a n m)"
    "did_split a n m (split_rest a n m)"
proof -
  note s = assms assms [THEN sep_sym [THEN iffD1]]
  show "did_split a n m (split_block a n m)" "did_split a n m (split_padding a n m)"
    "did_split a n m (split_rest a n m)"
    using s by (simp_all add: did_split_def split_block_def split_padding_def split_rest_def Let_def)
qed

text \<open>Two headers below \<open>2^64\<close>, one ending where the other has not begun.\<close>

definition apart :: "u64 \<Rightarrow> u64 \<Rightarrow> bool" where
  "apart p q \<longleftrightarrow> unat p + 40 \<le> unat q \<and> unat q + 40 \<le> 2 ^ 64 \<or>
                 unat q + 40 \<le> unat p \<and> unat p + 40 \<le> 2 ^ 64"

lemma apart_sym: "apart p q \<Longrightarrow> apart q p"
  by (auto simp: apart_def)

lemma apart_sep: "apart p q \<Longrightarrow> sep p block_size q block_size"
  using header_sep [of p q] header_sep [of q p] by (auto simp: apart_def)

lemma laid_before:
  assumes "laid lo (unat a) xs" and "c \<in> set xs" shows "unat (fst c) + 40 \<le> unat a"
  using laid_mem(2) [OF assms(1), of "fst c" "fst (snd c)" "snd (snd c)"] assms(2) by simp

lemma laid_after:
  assumes "laid lo hi ys" and "c \<in> set ys" shows "lo \<le> unat (fst c)" and "unat (fst c) + 40 \<le> hi"
  using laid_mem [OF assms(1), of "fst c" "fst (snd c)" "snd (snd c)"] assms(2) by simp_all

lemma laid_apart:
  assumes "laid lo hi (xs @ (a, l, f) # ys)" and "hi < 2 ^ 64" and "c \<in> set xs \<union> set ys"
  shows "apart a (fst c)"
proof -
  have l: "laid lo (unat a) xs" "laid (unat a + 40 + unat l) hi ys" using assms(1) by (simp_all add: laid_split)
  have "unat a + 40 \<le> hi" using laid_le [OF l(2)] by simp
  with assms(2) have top: "unat a + 40 \<le> 2 ^ 64" by simp
  from assms(3) show ?thesis
  proof
    assume "c \<in> set xs"
    from laid_before [OF l(1) this] top show ?thesis by (simp add: apart_def)
  next
    assume "c \<in> set ys"
    from laid_after [OF l(2) this] assms(2) show ?thesis by (simp add: apart_def)
  qed
qed

lemma seg_mem:
  assumes "seg m q (xs @ (a, l, f) # ys) r"
  shows "get_block m a = \<lparr>hb_base = a + block_size, hb_length = l, hb_is_free = f,
    hb_prev = lst q xs, hb_next = nxt ys r\<rparr>" and "a \<noteq> 0"
  using assms by simp_all

text \<open>The address of the remainder of a split.\<close>

lemma remainder_addr:
  assumes "unat a + 40 + unat l < 2 ^ 64" and "n + block_size < l" and "n \<le> l"
  shows "unat (a + block_size + n) = unat a + 40 + unat n" and "unat n + 40 < unat l"
    and "unat (l - n - block_size) = unat l - unat n - 40"
proof -
  have n: "unat n \<le> unat l" using assms(3) by (simp add: word_le_nat_alt)
  then have "unat (n + block_size) = unat n + 40"
    using assms(1) unat_add_nowrap [of n block_size] by (simp add: block_size_def)
  then show lt: "unat n + 40 < unat l" using assms(2) by (simp add: word_less_nat_alt)
  have "unat (a + block_size) = unat a + 40"
    using assms(1) unat_add_nowrap [of a block_size] by (simp add: block_size_def)
  then show "unat (a + block_size + n) = unat a + 40 + unat n"
    using assms(1) n unat_add_nowrap [of "a + block_size" n] by simp
  have "unat (l - n) = unat l - unat n" using assms(3) by (simp add: unat_sub)
  then show "unat (l - n - block_size) = unat l - unat n - 40"
    using lt unat_sub [of block_size "l - n"] by (simp add: word_le_nat_alt block_size_def)
qed

lemma laid_split_block:
  assumes "laid lo hi (xs @ (a, l, f) # ys)" and "hi < 2 ^ 64" and "n + block_size < l" and "n \<le> l"
  shows "laid lo hi (xs @ (a, n, g) # (a + block_size + n, l - n - block_size, True) # ys)"
proof -
  have l: "laid lo (unat a) xs" "laid (unat a + 40 + unat l) hi ys" using assms(1) by (simp_all add: laid_split)
  have "unat a + 40 + unat l < 2 ^ 64" using laid_le [OF l(2)] assms(2) by simp
  note r = remainder_addr [OF this assms(3,4)]
  show ?thesis using l r by (simp add: laid_split add.commute add.left_commute)
qed

lemma did_split_other:
  assumes "did_split a n m m'" and "apart a c" and "apart (a + block_size + n) c"
    and "hb_next (get_block m a) \<noteq> 0 \<Longrightarrow> apart (hb_next (get_block m a)) c"
  shows "get_block m' c = get_block m c"
proof (rule get_block_cong)
  fix x assume x: "in_region c block_size x"
  have "\<not> in_region p block_size x" if "apart p c" for p
    using sepD [OF apart_sep [OF apart_sym [OF that]] x] .
  then show "m' x = m x" using assms by (auto simp: did_split_def Let_def)
qed

lemma seg_split:
  assumes sg: "seg m 0 (xs @ (a, l, f) # ys) 0" and ld: "laid lo hi (xs @ (a, l, f) # ys)"
    and hi: "hi < 2 ^ 64" and n: "n + block_size < l" "n \<le> l" and m': "did_split a n m m'"
  shows "seg m' 0 (xs @ (a, n, f) # (a + block_size + n, l - n - block_size, True) # ys) 0"
proof -
  let ?N = "a + block_size + n"
  note ld' = laid_split_block [OF ld hi n, of f]
  have top: "unat a + 40 + unat l < 2 ^ 64"
    using ld laid_le [of "unat a + 40 + unat l" hi ys] hi by (simp add: laid_split)
  note r = remainder_addr [OF top n]
  note h = seg_mem [OF sg]
  have Nx: "apart ?N (fst c)" if "c \<in> set xs \<union> set ys" for c
    using laid_apart [of lo hi "xs @ [(a, n, f)]" ?N _ True ys c] ld' hi that by simp
  have ax: "apart a (fst c)" if "c \<in> set xs \<union> set ys" for c using laid_apart [OF ld hi that] .
  have other: "get_block m' (fst c) = get_block m (fst c)" if "c \<in> set xs \<union> set ys" "ys \<noteq> [] \<Longrightarrow> apart (nxt ys 0) (fst c)" for c
    using did_split_other [OF m' ax Nx] that h by (cases ys) auto
  have "seg m' 0 xs a"
  proof -
    have "apart (nxt ys 0) (fst c)" if "c \<in> set xs" "ys \<noteq> []" for c
    proof -
      obtain b lb fb ys' where ys: "ys = (b, lb, fb) # ys'" using \<open>ys \<noteq> []\<close> by (cases ys) auto
      show ?thesis
        using laid_apart [of lo hi "xs @ [(a, l, f)]" b lb fb ys' c] ld hi that(1) by (simp add: ys)
    qed
    then have "\<forall>c \<in> set xs. get_block m' (fst c) = get_block m (fst c)" using other by blast
    then show ?thesis using seg_cong [of xs m' m 0 a] sg by simp
  qed
  moreover have "seg m' ?N ys 0"
  proof (cases ys)
    case (Cons y ys')
    obtain b lb fb where y: "y = (b, lb, fb)" by (cases y)
    have "apart b (fst c)" if "c \<in> set ys'" for c
      using laid_apart [of lo hi "xs @ [(a, l, f)]" b lb fb ys' c] ld hi that by (simp add: Cons y)
    then have "\<forall>c \<in> set ys'. get_block m' (fst c) = get_block m (fst c)" using other by (simp add: Cons y)
    then have "seg m' b ys' 0" using seg_cong [of ys' m' m b 0] sg by (simp add: Cons y)
    moreover have "get_block m' b = (get_block m b)\<lparr>hb_prev := ?N\<rparr>"
      using m' h sg by (simp add: did_split_def Let_def Cons y)
    ultimately show ?thesis using sg by (simp add: Cons y)
  qed simp
  moreover have "?N \<noteq> 0" using r(1) by (metis add_is_0 unat_0 zero_neq_numeral)
  moreover have "get_block m' a = (get_block m a)\<lparr>hb_length := n, hb_next := ?N\<rparr>"
    "get_block m' ?N = \<lparr>hb_base = ?N + block_size, hb_length = l - n - block_size,
       hb_is_free = True, hb_prev = a, hb_next = nxt ys 0\<rparr>"
    using m' h by (simp_all add: did_split_def Let_def)
  ultimately show ?thesis using h by simp
qed

lemma in_region_nat:
  assumes "unat a + unat n \<le> 2 ^ 64"
  shows "in_region a n x \<longleftrightarrow> unat a \<le> unat x \<and> unat x < unat a + unat n"
proof (cases "a \<le> x")
  case True
  then show ?thesis by (auto simp: in_region_def word_less_nat_alt word_le_nat_alt unat_sub)
next
  case False
  then have "unat (x - a) = unat x + 2 ^ 64 - unat a"
    by (simp add: unat_sub_if' word_le_nat_alt)
  then show ?thesis
    using False assms unat_lt64 [of x] by (auto simp: in_region_def word_less_nat_alt word_le_nat_alt)
qed

section \<open>The heap invariant\<close>

definition heap_inv :: "'a heap_scheme \<Rightarrow> blk list \<Rightarrow> bool" where
  "heap_inv s bs \<longleftrightarrow> bs \<noteq> [] \<and> nxt bs 0 = heap_base s \<and> seg (mem s) 0 bs 0 \<and>
     laid (unat (heap_base s)) (unat (heap_base s) + unat (heap_size s)) bs \<and>
     unat (heap_base s) + unat (heap_size s) < 2 ^ 64"

text \<open>
  What every heap operation may write: headers and the payload of free blocks. So the bytes
  of allocated blocks and everything outside the heap are kept.
\<close>

definition heap_writes :: "blk list \<Rightarrow> memory \<Rightarrow> memory \<Rightarrow> bool" where
  "heap_writes bs m m' \<longleftrightarrow>
     (\<forall>x. (\<forall>a l f. (a, l, f) \<in> set bs \<longrightarrow> \<not> in_region a block_size x \<and> (f \<longrightarrow> \<not> in_region (a + block_size) l x)) \<longrightarrow>
        m' x = m x)"

definition payload_kept :: "blk list \<Rightarrow> memory \<Rightarrow> memory \<Rightarrow> bool" where
  "payload_kept bs m m' \<longleftrightarrow>
     (\<forall>a l f. (a, l, f) \<in> set bs \<longrightarrow> \<not> f \<longrightarrow> (\<forall>x. in_region (a + block_size) l x \<longrightarrow> m' x = m x))"

lemma block_nat:
  assumes "laid lo hi bs" and "hi < 2 ^ 64" and "(a, l, f) \<in> set bs"
  shows "in_region a block_size x \<longleftrightarrow> unat a \<le> unat x \<and> unat x < unat a + 40"
    and "in_region (a + block_size) l x \<longleftrightarrow> unat a + 40 \<le> unat x \<and> unat x < unat a + 40 + unat l"
proof -
  have top: "unat a + 40 + unat l \<le> hi" using laid_mem [OF assms(1,3)] by simp
  then have "unat (a + block_size) = unat a + 40"
    using assms(2) unat_add_nowrap [of a block_size] by (simp add: block_size_def)
  then show "in_region a block_size x \<longleftrightarrow> unat a \<le> unat x \<and> unat x < unat a + 40"
    "in_region (a + block_size) l x \<longleftrightarrow> unat a + 40 \<le> unat x \<and> unat x < unat a + 40 + unat l"
    using top assms(2) in_region_nat [of a block_size x] in_region_nat [of "a + block_size" l x]
    by (simp_all add: block_size_def)
qed

lemma laid_two:
  assumes "laid lo hi bs" and "(a, l, f) \<in> set bs" and "(b, k, g) \<in> set bs"
  shows "(a, l, f) = (b, k, g) \<or> unat a + 40 + unat l \<le> unat b \<or> unat b + 40 + unat k \<le> unat a"
proof -
  obtain xs ys where bs: "bs = xs @ (a, l, f) # ys" using assms(2) by (auto dest: split_list)
  have l: "laid lo (unat a) xs" "laid (unat a + 40 + unat l) hi ys" using assms(1) by (simp_all add: bs laid_split)
  consider "(b, k, g) \<in> set xs" | "(b, k, g) = (a, l, f)" | "(b, k, g) \<in> set ys" using assms(3) by (auto simp: bs)
  then show ?thesis
    by cases (use laid_mem(2) [OF l(1)] laid_mem(1) [OF l(2)] in auto)
qed

lemma heap_writes_kept:
  assumes "laid lo hi bs" and "hi < 2 ^ 64" and "heap_writes bs m m'"
  shows "payload_kept bs m m'" and "unat x < lo \<or> hi \<le> unat x \<Longrightarrow> m' x = m x"
proof -
  show "payload_kept bs m m'"
    unfolding payload_kept_def
  proof (clarify)
    fix a l f x assume a: "(a, l, f) \<in> set bs" "\<not> f" "in_region (a + block_size) l x"
    have x: "unat a + 40 \<le> unat x" "unat x < unat a + 40 + unat l"
      using block_nat(2) [OF assms(1,2) a(1)] a(3) by auto
    have "\<not> in_region b block_size x \<and> (g \<longrightarrow> \<not> in_region (b + block_size) k x)"
      if b: "(b, k, g) \<in> set bs" for b k g
      using laid_two [OF assms(1) a(1) b] x a(2) block_nat [OF assms(1,2) b, of x] by auto
    then show "m' x = m x" using assms(3) unfolding heap_writes_def by blast
  qed
  show "m' x = m x" if "unat x < lo \<or> hi \<le> unat x"
  proof -
    have "\<not> in_region b block_size x \<and> \<not> in_region (b + block_size) k x" if "(b, k, g) \<in> set bs" for b k g
      using laid_mem [OF assms(1) that] block_nat [OF assms(1,2) that, of x] \<open>unat x < lo \<or> hi \<le> unat x\<close> by auto
    then show ?thesis using assms(3) unfolding heap_writes_def by blast
  qed
qed

section \<open>Allocation on block lists\<close>

fun best_fit :: "u64 \<Rightarrow> blk list \<Rightarrow> blk option \<Rightarrow> blk option" where
  "best_fit n [] acc = acc"
| "best_fit n ((a, l, f) # bs) acc =
     best_fit n bs
       (if f \<and> n \<le> l \<and> (case acc of None \<Rightarrow> True | Some (_, k, _) \<Rightarrow> l < k) then Some (a, l, f) else acc)"

fun replace_block :: "u64 \<Rightarrow> blk list \<Rightarrow> blk list \<Rightarrow> blk list" where
  "replace_block a new [] = []"
| "replace_block a new ((b, l, f) # bs) =
     (if a = b then new @ bs else (b, l, f) # replace_block a new bs)"

definition taken :: "u64 \<Rightarrow> u64 \<Rightarrow> u64 \<Rightarrow> blk list" where
  "taken n a l =
     (if n + block_size < l
      then [(a, n, False), (a + block_size + n, l - n - block_size, True)] else [(a, l, False)])"

definition spec_malloc :: "u64 \<Rightarrow> blk list \<Rightarrow> u64 \<times> blk list" where
  "spec_malloc n bs =
     (case best_fit n bs None of
        None \<Rightarrow> (0, bs)
      | Some (a, l, f) \<Rightarrow> (a + block_size, replace_block a (taken n a l) bs))"

lemma replace_mid: "\<forall>c \<in> set xs. fst c \<noteq> a \<Longrightarrow> replace_block a new (xs @ (a, l, f) # ys) = xs @ new @ ys"
  by (induction xs) auto

definition acc_ptr :: "blk option \<Rightarrow> u64" where
  "acc_ptr acc = (case acc of None \<Rightarrow> 0 | Some (a, l, f) \<Rightarrow> a)"

lemma best_fit_loop_seg:
  assumes "seg m q bs 0"
    and "case acc of None \<Rightarrow> True | Some (a, l, f) \<Rightarrow> a \<noteq> 0 \<and> hb_length (get_block m a) = l"
  shows "best_fit_loop m n (nxt bs 0) (acc_ptr acc) = Some (acc_ptr (best_fit n bs acc))"
  using assms
proof (induction bs arbitrary: q acc)
  case Nil
  then show ?case by (simp add: best_fit_loop.simps)
next
  case (Cons b bs)
  obtain a l f where b: "b = (a, l, f)" by (cases b)
  let ?acc = "if f \<and> n \<le> l \<and> (case acc of None \<Rightarrow> True | Some (_, k, _) \<Rightarrow> l < k) then Some (a, l, f) else acc"
  have h: "a \<noteq> 0" "hb_is_free (get_block m a) = f" "hb_length (get_block m a) = l"
    "hb_next (get_block m a) = nxt bs 0" "seg m a bs 0"
    using Cons.prems(1) by (simp_all add: b)
  have "acc_ptr ?acc =
      (if f \<and> n \<le> l \<and> (acc_ptr acc = 0 \<or> l < hb_length (get_block m (acc_ptr acc))) then a else acc_ptr acc)"
    using Cons.prems(2) by (auto simp: acc_ptr_def split: option.splits)
  then have "best_fit_loop m n a (acc_ptr acc) = best_fit_loop m n (nxt bs 0) (acc_ptr ?acc)"
    using h by (subst best_fit_loop.simps) simp
  also have "\<dots> = Some (acc_ptr (best_fit n bs ?acc))"
    using Cons.prems(2) h by (intro Cons.IH [OF h(5)]) (auto split: option.splits)
  finally show ?case by (simp add: b)
qed

text \<open>The search returns a smallest free block that is large enough, if there is one.\<close>

definition fitting :: "u64 \<Rightarrow> blk \<Rightarrow> bool" where
  "fitting n b \<longleftrightarrow> snd (snd b) \<and> n \<le> fst (snd b)"

lemma best_fit_spec:
  assumes "\<forall>b. acc = Some b \<longrightarrow> fitting n b"
  shows "case best_fit n bs acc of
      None \<Rightarrow> acc = None \<and> (\<forall>b \<in> set bs. \<not> fitting n b)
    | Some b \<Rightarrow> fitting n b \<and> (b \<in> set bs \<or> acc = Some b) \<and>
        (\<forall>c \<in> set bs. fitting n c \<longrightarrow> fst (snd b) \<le> fst (snd c)) \<and>
        (\<forall>c. acc = Some c \<longrightarrow> fst (snd b) \<le> fst (snd c))"
  using assms
proof (induction bs arbitrary: acc)
  case Nil
  then show ?case by (simp split: option.split)
next
  case (Cons x bs)
  obtain a l f where x: "x = (a, l, f)" by (cases x)
  let ?acc = "if f \<and> n \<le> l \<and> (case acc of None \<Rightarrow> True | Some (_, k, _) \<Rightarrow> l < k) then Some (a, l, f) else acc"
  have "\<forall>b. ?acc = Some b \<longrightarrow> fitting n b" using Cons.prems by (auto simp: fitting_def)
  note IH = Cons.IH [OF this]
  have eq: "best_fit n (x # bs) acc = best_fit n bs ?acc" by (simp add: x)
  show ?case
  proof (cases "f \<and> n \<le> l \<and> (case acc of None \<Rightarrow> True | Some (_, k, _) \<Rightarrow> l < k)")
    case True
    then have acc: "?acc = Some x" "fitting n x" by (simp_all add: x fitting_def)
    have lt: "l < fst (snd c)" if "acc = Some c" for c using True that by (auto split: prod.splits)
    obtain b where b: "best_fit n bs (Some x) = Some b" using IH acc(1) by (cases "best_fit n bs (Some x)") auto
    have "fitting n b" "b \<in> set bs \<or> x = b" "\<forall>c \<in> set bs. fitting n c \<longrightarrow> fst (snd b) \<le> fst (snd c)"
      "fst (snd b) \<le> l"
      using IH unfolding acc(1) b by (simp_all add: x) 
    then show ?thesis unfolding eq acc(1) b using lt by (fastforce simp: x)
  next
    case False
    then have acc: "?acc = acc" by (rule if_not_P)
    have le: "\<exists>c. acc = Some c \<and> fst (snd c) \<le> l" if "fitting n x"
      using False that by (auto simp: x fitting_def split: option.splits)
    show ?thesis
    proof (cases "best_fit n bs acc")
      case None
      then show ?thesis using IH le unfolding eq acc by auto
    next
      case (Some b)
      then have b: "fitting n b" "b \<in> set bs \<or> acc = Some b"
        "\<forall>c \<in> set bs. fitting n c \<longrightarrow> fst (snd b) \<le> fst (snd c)"
        "\<forall>c. acc = Some c \<longrightarrow> fst (snd b) \<le> fst (snd c)"
        using IH unfolding acc by simp_all
      have "fst (snd b) \<le> fst (snd x)" if "fitting n x" using le [OF that] b(4) by (auto simp: x)
      then show ?thesis unfolding eq acc Some using b by auto
    qed
  qed
qed

section \<open>malloc\<close>

lemma seg_update:
  assumes "seg m q (xs @ (a, l, f) # ys) r"
    and "\<forall>c \<in> set xs \<union> set ys. get_block m' (fst c) = get_block m (fst c)"
    and "get_block m' a = (get_block m a)\<lparr>hb_length := l', hb_is_free := f'\<rparr>"
  shows "seg m' q (xs @ (a, l', f') # ys) r"
  using assms seg_cong [of xs m' m] seg_cong [of ys m' m] by simp

lemma apart_get:
  assumes "apart a c"
  shows "get_block (set_is_free a g m) c = get_block m c" "get_block (set_length a v m) c = get_block m c"
  using apart_sep [OF assms] by simp_all

lemma seg_set_free:
  assumes "seg m q (xs @ (a, l, f) # ys) r" and "laid lo hi (xs @ (a, l, f) # ys)" and "hi < 2 ^ 64"
  shows "seg (set_is_free a g m) q (xs @ (a, l, g) # ys) r"
    and "seg (set_length a k m) q (xs @ (a, k, f) # ys) r"
proof -
  have "\<forall>c \<in> set xs \<union> set ys. get_block (set_is_free a g m) (fst c) = get_block m (fst c)"
    "\<forall>c \<in> set xs \<union> set ys. get_block (set_length a k m) (fst c) = get_block m (fst c)"
    using laid_apart [OF assms(2,3)] apart_get by blast+
  note others = this
  show "seg (set_is_free a g m) q (xs @ (a, l, g) # ys) r"
    by (rule seg_update [OF assms(1) others(1)]) (simp add: seg_mem(1) [OF assms(1)])
  show "seg (set_length a k m) q (xs @ (a, k, f) # ys) r"
    by (rule seg_update [OF assms(1) others(2)]) (simp add: seg_mem(1) [OF assms(1)])
qed

lemma did_split_now:
  assumes sg: "seg m 0 (xs @ (a, l, f) # ys) 0" and ld: "laid lo hi (xs @ (a, l, f) # ys)"
    and hi: "hi < 2 ^ 64" and n: "n + block_size < l" "n \<le> l"
  shows "did_split a n m (split_block a n m)" "did_split a n m (split_padding a n m)"
    "did_split a n m (split_rest a n m)"
proof -
  note ld' = laid_split_block [OF ld hi n, of f]
  have 1: "apart a (a + block_size + n)"
    using laid_apart [of lo hi xs a n f "(a + block_size + n, l - n - block_size, True) # ys"
        "(a + block_size + n, l - n - block_size, True)"] ld' hi by simp
  have nx: "hb_next (get_block m a) = nxt ys 0" using seg_mem(1) [OF sg] by simp
  have 2: "apart a (nxt ys 0)" "apart (a + block_size + n) (nxt ys 0)" if nz: "nxt ys 0 \<noteq> 0"
  proof -
    obtain b k g ys' where ys: "ys = (b, k, g) # ys'" using nz by (cases ys) auto
    show "apart a (nxt ys 0)" using laid_apart [OF ld hi, of "(b, k, g)"] by (simp add: ys)
    show "apart (a + block_size + n) (nxt ys 0)"
      using laid_apart [of lo hi "xs @ [(a, n, f)]" "a + block_size + n" "l - n - block_size" True ys "(b, k, g)"]
        ld' hi by (simp add: ys)
  qed
  show "did_split a n m (split_block a n m)" "did_split a n m (split_padding a n m)"
    "did_split a n m (split_rest a n m)"
    using splits_done [of a n m] apart_sep 1 2 by (simp_all add: nx)
qed

lemma did_split_writes:
  assumes sg: "seg m 0 (xs @ (a, l, True) # ys) 0" and ld: "laid lo hi (xs @ (a, l, True) # ys)"
    and hi: "hi < 2 ^ 64" and n: "n + block_size < l" "n \<le> l" and m': "did_split a n m m'"
  shows "heap_writes (xs @ (a, l, True) # ys) m m'"
  unfolding heap_writes_def
proof (intro allI impI)
  fix x
  assume h: "\<forall>b k g. (b, k, g) \<in> set (xs @ (a, l, True) # ys) \<longrightarrow>
    \<not> in_region b block_size x \<and> (g \<longrightarrow> \<not> in_region (b + block_size) k x)"
  have a: "\<not> in_region a block_size x" "\<not> in_region (a + block_size) l x" using h [rule_format, of a l True] by simp_all
  have top: "unat a + 40 + unat l < 2 ^ 64"
    using ld laid_le [of "unat a + 40 + unat l" hi ys] hi by (simp add: laid_split)
  note r = remainder_addr [OF top n]
  have e1: "in_region (a + block_size + n) block_size x \<longleftrightarrow>
      unat a + 40 + unat n \<le> unat x \<and> unat x < unat a + 40 + unat n + 40"
    using in_region_nat [of "a + block_size + n" block_size x] r top by (simp add: block_size_def)
  have e2: "in_region (a + block_size) l x \<longleftrightarrow> unat a + 40 \<le> unat x \<and> unat x < unat a + 40 + unat l"
    by (rule block_nat(2) [OF ld hi, of _ _ True]) simp
  have "\<not> in_region (a + block_size + n) block_size x"
  proof
    assume "in_region (a + block_size + n) block_size x"
    then have "unat a + 40 + unat n \<le> unat x" "unat x < unat a + 40 + unat n + 40" using e1 by blast+
    then have "in_region (a + block_size) l x" unfolding e2 using r(2) by linarith
    with a(2) show False by blast
  qed
  moreover have "\<not> in_region (nxt ys 0) block_size x" if nz: "nxt ys 0 \<noteq> 0"
  proof -
    obtain b k g ys' where ys: "ys = (b, k, g) # ys'" using nz by (cases ys) auto
    show ?thesis using h [rule_format, of b k g] by (simp add: ys)
  qed
  ultimately show "m' x = m x"
    using m' a(1) seg_mem(1) [OF sg] by (simp add: did_split_def Let_def) blast
qed

lemma set_free_writes:
  assumes "heap_writes bs m m'" and "(a, l, f) \<in> set bs"
  shows "heap_writes bs m (set_is_free a g m')"
  using assms unfolding heap_writes_def by (metis set_outside(3))

lemma inv_update_mem [simp]:
  "heap_inv (s\<lparr>mem := m\<rparr>) bs \<longleftrightarrow> bs \<noteq> [] \<and> nxt bs 0 = heap_base s \<and> seg m 0 bs 0 \<and>
     laid (unat (heap_base s)) (unat (heap_base s) + unat (heap_size s)) bs \<and>
     unat (heap_base s) + unat (heap_size s) < 2 ^ 64"
  by (simp add: heap_inv_def)

lemma malloc_none:
  assumes "heap_inv s bs" and "best_fit n bs None = None"
  shows "malloc n s = Some (0, s)"
  using best_fit_loop_seg [of "mem s" 0 bs None n] assms
  by (simp add: malloc_def heap_inv_def acc_ptr_def)

lemma malloc_some:
  assumes inv: "heap_inv s bs" and best: "best_fit n bs None = Some (a, l, f)"
  obtains xs ys m' where "bs = xs @ (a, l, True) # ys" "n \<le> l" "\<forall>c \<in> set xs. fst c \<noteq> a"
    "malloc n s = Some (a + block_size, s\<lparr>mem := m'\<rparr>)" "heap_writes bs (mem s) m'"
    "heap_inv (s\<lparr>mem := m'\<rparr>) (xs @ taken n a l @ ys)"
proof -
  let ?lo = "unat (heap_base s)" and ?hi = "unat (heap_base s) + unat (heap_size s)"
  have fit: "f" "n \<le> l" "(a, l, f) \<in> set bs"
    using best_fit_spec [of None n bs] best by (auto simp: fitting_def)
  then obtain xs ys where bs: "bs = xs @ (a, l, True) # ys" by (auto dest: split_list)
  have sg: "seg (mem s) 0 (xs @ (a, l, True) # ys) 0" and ld: "laid ?lo ?hi (xs @ (a, l, True) # ys)"
    and hi: "?hi < 2 ^ 64" and nx: "nxt bs 0 = heap_base s"
    using inv by (auto simp: heap_inv_def bs)
  have ne: "\<forall>c \<in> set xs. fst c \<noteq> a" using laid_apart [OF ld hi] by (fastforce simp: apart_def)
  note h = seg_mem [OF sg]
  have loop: "best_fit_loop (mem s) n (heap_base s) 0 = Some a"
    using best_fit_loop_seg [of "mem s" 0 bs None n] inv best nx by (simp add: heap_inv_def acc_ptr_def)
  let ?m1 = "if n + block_size < l then split_block a n (mem s) else mem s"
  let ?m2 = "set_is_free a False ?m1"
  show thesis
  proof (cases "n + block_size < l")
    case True
    note sp = did_split_now(1) [OF sg ld hi True fit(2)]
    note sg1 = seg_split [OF sg ld hi True fit(2) sp] and ld1 = laid_split_block [OF ld hi True fit(2)]
    have sg2: "seg ?m2 0 (xs @ (a, n, False) # (a + block_size + n, l - n - block_size, True) # ys) 0"
      using seg_set_free(1) [OF sg1 ld1 hi] True by simp
    show thesis
    proof (rule that [of xs ys ?m2])
      show "malloc n s = Some (a + block_size, s\<lparr>mem := ?m2\<rparr>)"
        using loop h seg_mem(1) [OF sg1] True by (simp add: malloc_def Let_def)
      show "heap_writes bs (mem s) ?m2"
        using set_free_writes [OF did_split_writes [OF sg ld hi True fit(2) sp], of a l True] True
        by (simp add: bs)
      show "heap_inv (s\<lparr>mem := ?m2\<rparr>) (xs @ taken n a l @ ys)"
        using sg2 ld1 hi nx True by (simp add: taken_def bs)
    qed (fact bs fit(2) ne)+
  next
    case False
    have sg2: "seg ?m2 0 (xs @ (a, l, False) # ys) 0" using seg_set_free(1) [OF sg ld hi] False by simp
    show thesis
    proof (rule that [of xs ys ?m2])
      show "malloc n s = Some (a + block_size, s\<lparr>mem := ?m2\<rparr>)"
        using loop h False by (simp add: malloc_def Let_def)
      have "heap_writes bs (mem s) (mem s)" by (simp add: heap_writes_def)
      then show "heap_writes bs (mem s) ?m2" using set_free_writes [of bs _ _ a l True] False by (simp add: bs)
      show "heap_inv (s\<lparr>mem := ?m2\<rparr>) (xs @ taken n a l @ ys)"
        using sg2 ld hi nx False by (simp add: taken_def bs laid_split)
    qed (fact bs fit(2) ne)+
  qed
qed

section \<open>Merging blocks\<close>

text \<open>What \<open>absorb_next\<close> and \<open>absorb_into_prev\<close> leave in memory.\<close>

definition did_absorb :: "u64 \<Rightarrow> memory \<Rightarrow> memory \<Rightarrow> bool" where
  "did_absorb a m m' \<longleftrightarrow>
    (let A = get_block m a; B = get_block m (hb_next A); after = hb_next B in
     get_block m' a = A\<lparr>hb_length := hb_length A + (hb_length B + block_size), hb_next := after\<rparr> \<and>
     (after \<noteq> 0 \<longrightarrow> get_block m' after = (get_block m after)\<lparr>hb_prev := a\<rparr>) \<and>
     (\<forall>x. \<not> in_region a block_size x \<and> \<not> (after \<noteq> 0 \<and> in_region after block_size x) \<longrightarrow> m' x = m x))"

lemma absorb_done:
  assumes "hb_next (get_block m a) = b" and "hb_next (get_block m b) = c"
    and "sep a block_size b block_size" and "c \<noteq> 0 \<Longrightarrow> sep a block_size c block_size"
  shows "did_absorb a m (absorb_next a m)"
    and "hb_prev (get_block m b) = a \<Longrightarrow> did_absorb a m (absorb_into_prev b m)"
  using assms assms(3,4) [THEN sep_sym [THEN iffD1]]
  by (simp_all add: did_absorb_def absorb_next_def absorb_into_prev_def Let_def)

lemma merged_length:
  assumes "unat a + 40 + unat l \<le> unat b" and "unat b + 40 + unat k < 2 ^ 64"
  shows "unat (l + (k + block_size)) = unat l + unat k + 40"
proof -
  have "unat (k + block_size) = unat k + 40"
    using assms unat_add_nowrap [of k block_size] by (simp add: block_size_def)
  then show ?thesis using assms unat_add_nowrap [of l "k + block_size"] by simp
qed

lemma laid_absorb:
  assumes "laid lo hi (xs @ (a, l, f) # (b, k, g) # ys)" and "hi < 2 ^ 64"
  shows "laid lo hi (xs @ (a, l + (k + block_size), f) # ys)"
proof -
  have l: "laid lo (unat a) xs" "unat a + 40 + unat l \<le> unat b" "laid (unat b + 40 + unat k) hi ys"
    using assms(1) by (simp_all add: laid_split)
  have "unat b + 40 + unat k < 2 ^ 64" using laid_le [OF l(3)] assms(2) by simp
  then have "unat a + 40 + unat (l + (k + block_size)) \<le> unat b + 40 + unat k"
    using merged_length [OF l(2)] l(2) by simp
  then show ?thesis using l laid_weaken by (auto simp: laid_split)
qed

lemma seg_absorb:
  assumes sg: "seg m 0 (xs @ (a, l, f) # (b, k, g) # ys) 0"
    and ld: "laid lo hi (xs @ (a, l, f) # (b, k, g) # ys)" and hi: "hi < 2 ^ 64"
    and m': "did_absorb a m m'"
  shows "seg m' 0 (xs @ (a, l + (k + block_size), f) # ys) 0"
proof -
  note ha = seg_mem [OF sg]
  have hb: "hb_next (get_block m b) = nxt ys 0" "hb_length (get_block m b) = k" using sg by simp_all
  have ax: "apart a (fst c)" if "c \<in> set xs \<union> set ys" for c
    using laid_apart [OF ld hi, of c] that by auto
  have other: "get_block m' (fst c) = get_block m (fst c)"
    if c: "c \<in> set xs \<union> set ys" "nxt ys 0 \<noteq> 0 \<Longrightarrow> apart (nxt ys 0) (fst c)" for c
  proof (rule get_block_cong)
    fix x assume x: "in_region (fst c) block_size x"
    have "\<not> in_region p block_size x" if "apart p (fst c)" for p
      using sepD [OF apart_sep [OF apart_sym [OF that]] x] .
    then have "\<not> in_region a block_size x" "\<not> (nxt ys 0 \<noteq> 0 \<and> in_region (nxt ys 0) block_size x)"
      using ax [OF c(1)] c(2) by blast+
    then show "m' x = m x" using m' ha hb by (simp add: did_absorb_def Let_def)
  qed
  have "seg m' 0 xs a"
  proof -
    have "apart (nxt ys 0) (fst c)" if c: "c \<in> set xs" and nz: "nxt ys 0 \<noteq> 0" for c
    proof -
      obtain d ld fd ys' where ys: "ys = (d, ld, fd) # ys'" using nz by (cases ys) auto
      show ?thesis
        using laid_apart [of lo hi "xs @ [(a, l, f), (b, k, g)]" d ld fd ys' c] ld hi c by (simp add: ys)
    qed
    then have "\<forall>c \<in> set xs. get_block m' (fst c) = get_block m (fst c)" using other by blast
    then show ?thesis using seg_cong [of xs m' m 0 a] sg by simp
  qed
  moreover have "seg m' a ys 0"
  proof (cases ys)
    case (Cons y ys')
    obtain d ld' fd where y: "y = (d, ld', fd)" by (cases y)
    have "apart d (fst c)" if "c \<in> set ys'" for c
      using laid_apart [of lo hi "xs @ [(a, l, f), (b, k, g)]" d ld' fd ys' c] ld hi that by (simp add: Cons y)
    then have "\<forall>c \<in> set ys'. get_block m' (fst c) = get_block m (fst c)" using other by (simp add: Cons y)
    then have "seg m' d ys' 0" using seg_cong [of ys' m' m d 0] sg by (simp add: Cons y)
    moreover have "get_block m' d = (get_block m d)\<lparr>hb_prev := a\<rparr>"
      using m' ha hb sg by (simp add: did_absorb_def Let_def Cons y)
    ultimately show ?thesis using sg by (simp add: Cons y)
  qed simp
  moreover have "get_block m' a = (get_block m a)\<lparr>hb_length := l + (k + block_size), hb_next := nxt ys 0\<rparr>"
    using m' ha hb by (simp add: did_absorb_def Let_def)
  ultimately show ?thesis using ha by simp
qed

text \<open>Merging and freeing write headers only.\<close>

definition header_writes :: "blk list \<Rightarrow> memory \<Rightarrow> memory \<Rightarrow> bool" where
  "header_writes bs m m' \<longleftrightarrow> (\<forall>x. (\<forall>c \<in> set bs. \<not> in_region (fst c) block_size x) \<longrightarrow> m' x = m x)"

lemma header_writes_refl [simp]: "header_writes bs m m"
  by (simp add: header_writes_def)

lemma header_writes_trans:
  assumes "header_writes bs m m1" and "header_writes bs1 m1 m2" and "fst ` set bs1 \<subseteq> fst ` set bs"
  shows "header_writes bs m m2"
  unfolding header_writes_def
proof (intro allI impI)
  fix x assume x: "\<forall>c \<in> set bs. \<not> in_region (fst c) block_size x"
  have "\<not> in_region (fst c) block_size x" if "c \<in> set bs1" for c
  proof -
    have "fst c \<in> fst ` set bs" using assms(3) that by blast
    then obtain d where "d \<in> set bs" "fst d = fst c" by force
    then show ?thesis using x by metis
  qed
  then show "m2 x = m x" using assms(1,2) x by (simp add: header_writes_def)
qed

lemma header_writes_heap: "header_writes bs m m' \<Longrightarrow> heap_writes bs m m'"
  unfolding header_writes_def heap_writes_def by (metis prod.collapse)

lemma absorb_step:
  assumes sg: "seg m 0 (xs @ (a, l, f) # (b, k, g) # ys) 0"
    and ld: "laid lo hi (xs @ (a, l, f) # (b, k, g) # ys)" and hi: "hi < 2 ^ 64"
    and m': "m' = absorb_next a m \<or> m' = absorb_into_prev b m"
  shows "seg m' 0 (xs @ (a, l + (k + block_size), f) # ys) 0"
    and "header_writes (xs @ (a, l, f) # (b, k, g) # ys) m m'"
proof -
  have h: "hb_next (get_block m a) = b" "hb_next (get_block m b) = nxt ys 0" "hb_prev (get_block m b) = a"
    using sg by simp_all
  have ab: "apart a b" using laid_apart [OF ld hi, of "(b, k, g)"] by simp
  have ac: "apart a (nxt ys 0)" if nz: "nxt ys 0 \<noteq> 0"
  proof -
    obtain d ld' fd ys' where ys: "ys = (d, ld', fd) # ys'" using nz by (cases ys) auto
    show ?thesis using laid_apart [OF ld hi, of "(d, ld', fd)"] by (simp add: ys)
  qed
  have d: "did_absorb a m m'"
    using absorb_done [OF h(1,2) apart_sep [OF ab] apart_sep [OF ac]] h(3) m' by auto
  show "seg m' 0 (xs @ (a, l + (k + block_size), f) # ys) 0" by (rule seg_absorb [OF sg ld hi d])
  show "header_writes (xs @ (a, l, f) # (b, k, g) # ys) m m'"
    unfolding header_writes_def
  proof (intro allI impI)
    fix x assume x: "\<forall>c \<in> set (xs @ (a, l, f) # (b, k, g) # ys). \<not> in_region (fst c) block_size x"
    have "\<not> in_region (nxt ys 0) block_size x" if nz: "nxt ys 0 \<noteq> 0" using x nz by (cases ys) auto
    then show "m' x = m x" using d x h(1,2) by (auto simp: did_absorb_def Let_def)
  qed
qed

end
