(* ===== verification/Heap_Props.thy ===== *)
theory Heap_Props
  imports Heap_Chain
begin

text \<open>
  What the heap promises: every operation returns on a well-formed heap, keeps it well formed
  and keeps the blocks it does not release with their content. The operations refine functions
  on the list of blocks; the locale \<open>block_store\<close> carries the per-call contract to
  sequences of calls.
\<close>

section \<open>free and defragment\<close>

fun merge_next :: "blk \<Rightarrow> blk list \<Rightarrow> blk list" where
  "merge_next (a, l, f) ((b, k, g) # ys) =
     (if g then (a, l + (k + block_size), f) # ys else (a, l, f) # (b, k, g) # ys)"
| "merge_next c [] = [c]"

definition join_prev :: "blk list \<Rightarrow> blk list \<Rightarrow> blk list" where
  "join_prev xs zs =
     (if xs \<noteq> [] \<and> snd (snd (last xs)) then butlast xs @ merge_next (last xs) zs else xs @ zs)"

definition spec_free :: "u64 \<Rightarrow> blk list \<Rightarrow> blk list" where
  "spec_free ptr bs =
     (case dropWhile (\<lambda>b. fst b + block_size \<noteq> ptr) bs of
        [] \<Rightarrow> bs
      | (a, l, f) # ys \<Rightarrow>
          join_prev (takeWhile (\<lambda>b. fst b + block_size \<noteq> ptr) bs) (merge_next (a, l, True) ys))"

lemma find_block_seg:
  "seg m q bs 0 \<Longrightarrow>
   find_block m ptr (nxt bs 0) =
     Some (case dropWhile (\<lambda>b. fst b + block_size \<noteq> ptr) bs of [] \<Rightarrow> 0 | b # _ \<Rightarrow> fst b)"
proof (induction bs arbitrary: q)
  case Nil
  then show ?case by (simp add: find_block.simps)
next
  case (Cons b bs)
  obtain a l f where b: "b = (a, l, f)" by (cases b)
  show ?case using Cons.prems Cons.IH [of a] by (simp add: b find_block.simps [of m ptr a])
qed

lemma set_header_writes:
  assumes "c \<in> set bs"
  shows "header_writes bs m (set_is_free (fst c) g m)" "header_writes bs m (set_length (fst c) k m)"
  using assms by (auto simp: header_writes_def)

lemma absorb_next_spec:
  assumes sg: "seg m 0 (xs @ (a, l, f) # ys) 0" and ld: "laid lo hi (xs @ (a, l, f) # ys)"
    and hi: "hi < 2 ^ 64"
  defines "m' \<equiv> (if hb_next (get_block m a) \<noteq> 0 \<and> hb_is_free (get_block m (hb_next (get_block m a)))
                  then absorb_next a m else m)"
  shows "seg m' 0 (xs @ merge_next (a, l, f) ys) 0" and "laid lo hi (xs @ merge_next (a, l, f) ys)"
    and "header_writes (xs @ (a, l, f) # ys) m m'"
proof -
  note h = seg_mem [OF sg]
  have "seg m' 0 (xs @ merge_next (a, l, f) ys) 0 \<and> laid lo hi (xs @ merge_next (a, l, f) ys) \<and>
    header_writes (xs @ (a, l, f) # ys) m m'"
  proof (cases ys)
    case Nil
    then show ?thesis using h sg ld by (simp add: m'_def)
  next
    case (Cons y ys')
    obtain b k g where y: "y = (b, k, g)" by (cases y)
    have hb: "hb_next (get_block m a) = b" "b \<noteq> 0" "hb_is_free (get_block m b) = g"
      using sg by (simp_all add: Cons y)
    show ?thesis
    proof (cases g)
      case True
      then have "m' = absorb_next a m" using hb by (simp add: m'_def)
      then show ?thesis
        using absorb_step [OF sg [unfolded Cons y] ld [unfolded Cons y] hi, of "absorb_next a m"]
          laid_absorb [OF ld [unfolded Cons y] hi] True by (simp add: Cons y)
    next
      case False
      then show ?thesis using sg ld hb by (simp add: m'_def Cons y)
    qed
  qed
  then show "seg m' 0 (xs @ merge_next (a, l, f) ys) 0" "laid lo hi (xs @ merge_next (a, l, f) ys)"
    "header_writes (xs @ (a, l, f) # ys) m m'" by simp_all
qed

lemma merge_next_head: "\<exists>l' ys'. merge_next (a, l, f) ys = (a, l', f) # ys' \<and> set ys' \<subseteq> set ys"
  by (cases ys) auto

lemma free_block_spec:
  assumes sg: "seg m 0 (xs @ (a, l, f) # ys) 0" and ld: "laid lo hi (xs @ (a, l, f) # ys)"
    and hi: "hi < 2 ^ 64"
  shows "seg (free_block a m) 0 (join_prev xs (merge_next (a, l, True) ys)) 0 \<and>
    laid lo hi (join_prev xs (merge_next (a, l, True) ys)) \<and>
    header_writes (xs @ (a, l, f) # ys) m (free_block a m)"
proof -
  let ?bs = "xs @ (a, l, f) # ys"
  let ?m1 = "set_is_free a True m"
  let ?m2 = "if hb_next (get_block ?m1 a) \<noteq> 0 \<and> hb_is_free (get_block ?m1 (hb_next (get_block ?m1 a)))
     then absorb_next a ?m1 else ?m1"
  have 1: "seg ?m1 0 (xs @ (a, l, True) # ys) 0" "laid lo hi (xs @ (a, l, True) # ys)"
    "header_writes ?bs m ?m1"
    using seg_set_free(1) [OF sg ld hi] ld set_header_writes(1) [of "(a, l, f)" ?bs m True]
    by (simp_all add: laid_split)
  note 2 = absorb_next_spec [OF 1(1,2) hi]
  obtain l2 ys2 where z: "merge_next (a, l, True) ys = (a, l2, True) # ys2" "set ys2 \<subseteq> set ys"
    using merge_next_head by blast
  have w2: "header_writes ?bs m ?m2" using header_writes_trans [OF 1(3) 2(3)] by force
  note 3 = 2(1,2) [unfolded z(1)]
  note h = seg_mem [OF 3(1)]
  have fb: "free_block a m = (if hb_prev (get_block ?m2 a) \<noteq> 0 \<and>
      hb_is_free (get_block ?m2 (hb_prev (get_block ?m2 a))) then absorb_into_prev a ?m2 else ?m2)"
    by (simp only: free_block_def Let_def)
  show ?thesis
  proof (cases xs rule: rev_cases)
    case Nil
    then have "free_block a m = ?m2" unfolding fb h(1) by simp
    then show ?thesis using 3 w2 Nil unfolding z(1) by (simp only: join_prev_def append.simps) simp
  next
    case (snoc xs' p)
    obtain b k g where p: "p = (b, k, g)" by (cases p)
    have hb: "hb_prev (get_block ?m2 a) = b" "b \<noteq> 0" "hb_is_free (get_block ?m2 b) = g"
      using h(1) 3(1) by (simp_all add: snoc p)
    have sg3: "seg ?m2 0 (xs' @ (b, k, g) # (a, l2, True) # ys2) 0"
      "laid lo hi (xs' @ (b, k, g) # (a, l2, True) # ys2)"
      using 3 by (simp_all add: snoc p)
    note ab = absorb_step [OF sg3 hi, of "absorb_into_prev a ?m2"]
    have sub: "fst ` set (xs' @ (b, k, g) # (a, l2, True) # ys2) \<subseteq> fst ` set ?bs"
      using z(2) by (auto simp: snoc p)
    show ?thesis
    proof (cases g)
      case True
      have "free_block a m = absorb_into_prev a ?m2" unfolding fb hb using hb(2) True by simp
      then show ?thesis
        using ab laid_absorb [OF sg3(2) hi] header_writes_trans [OF w2 _ sub] True
        unfolding z(1) by (simp add: join_prev_def snoc p)
    next
      case False
      have "free_block a m = ?m2" unfolding fb hb using False by simp
      then show ?thesis
        using sg3 w2 False unfolding z(1) by (simp add: join_prev_def snoc p)
    qed
  qed
qed

lemma nxt_join: "nxt (join_prev xs (merge_next (a, l, f) ys)) 0 = nxt (xs @ (a, l, g) # ys) 0"
  "join_prev xs (merge_next (a, l, f) ys) \<noteq> []"
proof -
  obtain l2 ys2 where z: "merge_next (a, l, f) ys = (a, l2, f) # ys2" using merge_next_head by blast
  have "nxt (join_prev xs (merge_next (a, l, f) ys)) 0 = nxt (xs @ (a, l, g) # ys) 0 \<and>
    join_prev xs (merge_next (a, l, f) ys) \<noteq> []"
  proof (cases xs rule: rev_cases)
    case Nil
    then show ?thesis by (simp add: z join_prev_def)
  next
    case (snoc xs' p)
    obtain b k h where "p = (b, k, h)" by (cases p)
    with snoc show ?thesis unfolding z by (simp add: join_prev_def)
  qed
  then show "nxt (join_prev xs (merge_next (a, l, f) ys)) 0 = nxt (xs @ (a, l, g) # ys) 0"
    "join_prev xs (merge_next (a, l, f) ys) \<noteq> []" by simp_all
qed

lemma heap_free_spec:
  assumes inv: "heap_inv s bs"
  shows "\<exists>m'. heap_free ptr s = Some (s\<lparr>mem := m'\<rparr>) \<and> header_writes bs (mem s) m' \<and>
    heap_inv (s\<lparr>mem := m'\<rparr>) (if ptr = 0 then bs else spec_free ptr bs)"
proof -
  let ?lo = "unat (heap_base s)" and ?hi = "unat (heap_base s) + unat (heap_size s)"
  let ?P = "\<lambda>b :: blk. fst b + block_size \<noteq> ptr"
  have sg: "seg (mem s) 0 bs 0" and ld: "laid ?lo ?hi bs" and hi: "?hi < 2 ^ 64"
    and nx: "nxt bs 0 = heap_base s" using inv by (auto simp: heap_inv_def)
  have same: ?thesis if "heap_free ptr s = Some s" "ptr = 0 \<or> spec_free ptr bs = bs"
    using that inv by (intro exI [of _ "mem s"]) auto
  show ?thesis
  proof (cases "ptr = 0 \<or> dropWhile ?P bs = []")
    case True
    then show ?thesis
      using find_block_seg [OF sg, of ptr] nx
      by (intro same) (auto simp: heap_free_def spec_free_def simp del: dropWhile_eq_Nil_conv)
  next
    case False
    then obtain a l f ys where d: "dropWhile ?P bs = (a, l, f) # ys" by (cases "dropWhile ?P bs") auto
    obtain xs where xs: "takeWhile ?P bs = xs" by blast
    have bs: "bs = xs @ (a, l, f) # ys" using takeWhile_dropWhile_id [of ?P bs] d xs by simp
    have a: "a \<noteq> 0" using sg bs by (metis seg_mem(2))
    have "heap_free ptr s = Some (s\<lparr>mem := free_block a (mem s)\<rparr>)"
      using find_block_seg [OF sg, of ptr] nx d a False by (simp add: heap_free_def)
    moreover note free_block_spec [OF sg [unfolded bs] ld [unfolded bs] hi]
    moreover have "spec_free ptr bs = join_prev xs (merge_next (a, l, True) ys)"
      by (simp add: spec_free_def d xs)
    ultimately show ?thesis
      using nxt_join(1) [of xs a l True ys f] nxt_join(2) [of xs a l True ys] nx hi False unfolding bs
      by (intro exI [of _ "free_block a (mem s)"]) simp
  qed
qed

fun spec_defragment :: "blk list \<Rightarrow> blk list" where
  "spec_defragment [] = []"
| "spec_defragment [c] = [c]"
| "spec_defragment ((a, l, f) # (b, k, g) # bs) =
     (if f \<and> g then spec_defragment ((a, l + (k + block_size), f) # bs)
      else (a, l, f) # spec_defragment ((b, k, g) # bs))"

fun no_adjacent_free :: "blk list \<Rightarrow> bool" where
  "no_adjacent_free ((a, l, f) # (b, k, g) # bs) \<longleftrightarrow> \<not> (f \<and> g) \<and> no_adjacent_free ((b, k, g) # bs)"
| "no_adjacent_free _ \<longleftrightarrow> True"

lemma spec_defragment_head: "\<exists>l' bs'. spec_defragment ((a, l, f) # bs) = (a, l', f) # bs'"
  by (induction "(a, l, f) # bs" arbitrary: l bs rule: spec_defragment.induct) auto

lemma spec_defragment_done: "no_adjacent_free (spec_defragment bs)"
proof (induction bs rule: spec_defragment.induct)
  case (3 a l f b k g bs)
  obtain k' bs' where "spec_defragment ((b, k, g) # bs) = (b, k', g) # bs'"
    using spec_defragment_head by blast
  with 3 show ?case by (cases "f \<and> g") auto
qed auto

lemma spec_defragment_live:
  "filter (\<lambda>b. \<not> snd (snd b)) (spec_defragment bs) = filter (\<lambda>b. \<not> snd (snd b)) bs"
  by (induction bs rule: spec_defragment.induct) auto

lemma spec_defragment_addrs: "fst ` set (spec_defragment bs) \<subseteq> fst ` set bs"
  by (induction bs rule: spec_defragment.induct) (auto split: if_splits)

lemma defragment_loop_spec:
  assumes "seg m 0 (xs @ ys) 0" and "laid lo hi (xs @ ys)" and "hi < 2 ^ 64"
  shows "\<exists>m'. defragment_loop (nxt ys 0) m = Some m' \<and> seg m' 0 (xs @ spec_defragment ys) 0 \<and>
    laid lo hi (xs @ spec_defragment ys) \<and> header_writes (xs @ ys) m m'"
  using assms
proof (induction ys arbitrary: xs m rule: spec_defragment.induct)
  case 1
  then show ?case by (simp add: defragment_loop.simps)
next
  case (2 c)
  obtain a l f where c: "c = (a, l, f)" by (cases c)
  have "a \<noteq> 0" "hb_next (get_block m a) = 0" using 2(1) by (simp_all add: c)
  then have "defragment_loop a m = Some m"
    by (simp add: defragment_loop.simps [of a] defragment_loop.simps [of 0])
  then show ?case using 2 by (simp add: c)
next
  case (3 a l f b k g bs)
  note sg = 3(3) and ld = 3(4) and hi = 3(5)
  have h: "a \<noteq> 0" "b \<noteq> 0" "hb_next (get_block m a) = b" "hb_is_free (get_block m a) = f"
    "hb_is_free (get_block m b) = g" using sg by simp_all
  show ?case
  proof (cases "f \<and> g")
    case True
    note ab = absorb_step [OF sg ld hi, of "absorb_next a m"]
    note ld' = laid_absorb [OF ld hi]
    obtain m' where m': "defragment_loop a (absorb_next a m) = Some m'"
      "seg m' 0 (xs @ spec_defragment ((a, l + (k + block_size), f) # bs)) 0"
      "laid lo hi (xs @ spec_defragment ((a, l + (k + block_size), f) # bs))"
      "header_writes (xs @ (a, l + (k + block_size), f) # bs) (absorb_next a m) m'"
      using 3(1) [OF True, of "absorb_next a m" xs] ab(1) ld' hi by auto
    have "header_writes (xs @ (a, l, f) # (b, k, g) # bs) m m'"
      using header_writes_trans [OF ab(2) m'(4)] by (simp add: subset_insertI2 image_Un)
    moreover have "defragment_loop a m = defragment_loop a (absorb_next a m)"
      using h True by (subst defragment_loop.simps) simp
    ultimately show ?thesis using m' True by simp
  next
    case False
    obtain m' where m': "defragment_loop b m = Some m'"
      "seg m' 0 ((xs @ [(a, l, f)]) @ spec_defragment ((b, k, g) # bs)) 0"
      "laid lo hi ((xs @ [(a, l, f)]) @ spec_defragment ((b, k, g) # bs))"
      "header_writes ((xs @ [(a, l, f)]) @ (b, k, g) # bs) m m'"
      using 3(2) [OF False, of m "xs @ [(a, l, f)]"] sg ld hi by auto
    have "defragment_loop a m = defragment_loop b m"
      using h False by (subst defragment_loop.simps) auto
    moreover have "spec_defragment ((a, l, f) # (b, k, g) # bs) = (a, l, f) # spec_defragment ((b, k, g) # bs)"
      using False by auto
    ultimately show ?thesis using m' by simp
  qed
qed

lemma defragment_spec:
  assumes inv: "heap_inv s bs"
  shows "\<exists>m'. defragment s = Some (s\<lparr>mem := m'\<rparr>) \<and> header_writes bs (mem s) m' \<and>
    heap_inv (s\<lparr>mem := m'\<rparr>) (spec_defragment bs)"
proof -
  obtain a l f bs' where bs: "bs = (a, l, f) # bs'" using inv by (cases bs) (auto simp: heap_inv_def)
  have i: "seg (mem s) 0 ([] @ bs) 0"
    "laid (unat (heap_base s)) (unat (heap_base s) + unat (heap_size s)) ([] @ bs)"
    "unat (heap_base s) + unat (heap_size s) < 2 ^ 64" "nxt bs 0 = heap_base s"
    using inv by (simp_all add: heap_inv_def)
  obtain l2 bs2 where h: "spec_defragment bs = (a, l2, f) # bs2" unfolding bs using spec_defragment_head by blast
  have "heap_base s \<noteq> 0" using i(1,4) by (auto simp: bs)
  then show ?thesis
    using defragment_loop_spec [OF i(1-3)] i(3,4) h by (auto simp: defragment_def bs)
qed

section \<open>Writes to a payload\<close>

lemma payload_write:
  assumes inv: "heap_inv s bs" and b: "(a, l, f) \<in> set bs"
    and m': "\<And>x. \<not> in_region (a + block_size) l x \<Longrightarrow> m' x = mem s x"
  shows "heap_inv (s\<lparr>mem := m'\<rparr>) bs"
    and "(c, k, g) \<in> set bs \<Longrightarrow> c \<noteq> a \<Longrightarrow> in_region (c + block_size) k x \<Longrightarrow> m' x = mem s x"
proof -
  let ?lo = "unat (heap_base s)" and ?hi = "unat (heap_base s) + unat (heap_size s)"
  have ld: "laid ?lo ?hi bs" and hi: "?hi < 2 ^ 64" using inv by (auto simp: heap_inv_def)
  have apart: "\<not> in_region (a + block_size) l x"
    if "(c, k, g) \<in> set bs" "in_region c block_size x \<or> c \<noteq> a \<and> in_region (c + block_size) k x" for c k g x
    using laid_two [OF ld b that(1)] block_nat [OF ld hi that(1), of x] block_nat [OF ld hi b, of x] that(2) by auto
  have "\<forall>c \<in> set bs. get_block m' (fst c) = get_block (mem s) (fst c)"
    using apart m' by (auto intro!: get_block_cong)
  then have "seg m' 0 bs 0 = seg (mem s) 0 bs 0" by (rule seg_cong)
  then show "heap_inv (s\<lparr>mem := m'\<rparr>) bs" using inv by (simp add: heap_inv_def)
  show "m' x = mem s x" if "(c, k, g) \<in> set bs" "c \<noteq> a" "in_region (c + block_size) k x"
    using apart [OF that(1)] that(2,3) m' by blast
qed

section \<open>Allocated blocks\<close>

definition live :: "blk list \<Rightarrow> (u64 \<times> u64) set" where
  "live bs = {(a, l). (a, l, False) \<in> set bs}"

lemma live_append [simp]: "live (xs @ ys) = live xs \<union> live ys"
  by (auto simp: live_def)

lemma live_Cons: "live ((a, l, f) # bs) = (if f then live bs else insert (a, l) (live bs))"
  by (auto simp: live_def)

lemma live_Nil [simp]: "live [] = {}"
  by (simp add: live_def)

lemma live_merge [simp]: "live (merge_next (a, l, f) ys) = (if f then live ys else (if ys \<noteq> [] \<and> snd (snd (hd ys)) then insert (a, l + (fst (snd (hd ys)) + block_size)) (live ys) else insert (a, l) (live ys)))"
  by (cases ys) (auto simp: live_Cons)

lemma live_taken: "live (taken n a l) = {(a, if n + block_size < l then n else l)}"
  by (simp add: taken_def live_Cons)

lemma live_join: "zs \<noteq> [] \<Longrightarrow> live (join_prev xs zs) = live xs \<union> live zs"
proof (cases xs rule: rev_cases)
  case (snoc xs' p)
  obtain b k g where "p = (b, k, g)" by (cases p)
  with snoc show ?thesis by (auto simp: join_prev_def live_Cons)
qed (simp add: join_prev_def)

lemma live_spec_free:
  assumes "laid lo hi bs" and "hi < 2 ^ 64"
  shows "live (spec_free ptr bs) = {(a, l) \<in> live bs. a + block_size \<noteq> ptr}"
proof -
  let ?P = "\<lambda>b :: blk. fst b + block_size \<noteq> ptr"
  have all: "{(a, l) \<in> live zs. a + block_size \<noteq> ptr} = live zs" if "\<forall>b \<in> set zs. ?P b" for zs
    using that by (force simp: live_def)
  show ?thesis
  proof (cases "dropWhile ?P bs")
    case Nil
    then have "\<forall>b \<in> set bs. ?P b" by simp
    then show ?thesis using all [of bs] by (simp add: spec_free_def Nil del: dropWhile_eq_Nil_conv)
  next
    case (Cons c ys)
    obtain a l f where c: "c = (a, l, f)" by (cases c)
    obtain xs where xs: "takeWhile ?P bs = xs" by blast
    have bs: "bs = xs @ (a, l, f) # ys" using takeWhile_dropWhile_id [of ?P bs] Cons c xs by simp
    have a: "a + block_size = ptr" using hd_dropWhile [of ?P bs] unfolding Cons c by simp
    have "fst b \<noteq> a" if "b \<in> set xs \<union> set ys" for b
      using laid_apart [OF assms(1) [unfolded bs] assms(2) that] by (auto simp: apart_def)
    then have "\<forall>b \<in> set xs \<union> set ys. ?P b" unfolding a [symmetric] by (metis add_right_cancel)
    moreover have "{(a, l) \<in> live bs. a + block_size \<noteq> ptr} =
        {(a, l) \<in> live xs. a + block_size \<noteq> ptr} \<union> {(a, l) \<in> live ys. a + block_size \<noteq> ptr}"
      using a by (auto simp: bs live_Cons)
    moreover have "merge_next (a, l, True) ys \<noteq> []" using merge_next_head [of a l True ys] by auto
    ultimately show ?thesis
      using all [of xs] all [of ys] by (simp add: spec_free_def Cons c xs live_join)
  qed
qed

text \<open>Every allocated block of \<open>bs\<close> not at \<open>ptr\<close> is still there, with its content.\<close>

definition intact :: "u64 \<Rightarrow> blk list \<Rightarrow> memory \<Rightarrow> blk list \<Rightarrow> memory \<Rightarrow> bool" where
  "intact ptr bs m bs' m' \<longleftrightarrow>
     (\<forall>a l. (a, l) \<in> live bs \<and> a + block_size \<noteq> ptr \<longrightarrow>
        (a, l) \<in> live bs' \<and> (\<forall>x. in_region (a + block_size) l x \<longrightarrow> m' x = m x))"

lemma intact_refl [simp]: "intact p bs m bs m"
  by (simp add: intact_def)

lemma intact_trans: "intact p bs m bs1 m1 \<Longrightarrow> intact p bs1 m1 bs2 m2 \<Longrightarrow> intact p bs m bs2 m2"
  unfolding intact_def by metis

lemma intact_any: "intact 0 bs m bs' m' \<Longrightarrow> \<forall>a l. (a, l) \<in> live bs \<longrightarrow> a + block_size \<noteq> 0 \<Longrightarrow> intact p bs m bs' m'"
  by (auto simp: intact_def)

lemma heap_base_ptr:
  assumes "heap_inv s bs" and "(a, l, f) \<in> set bs"
  shows "unat (a + block_size) = unat a + 40" and "a + block_size \<noteq> 0"
proof -
  have "unat a + 40 + unat l < 2 ^ 64"
    using assms laid_mem(2) [of "unat (heap_base s)" "unat (heap_base s) + unat (heap_size s)" bs a l f]
    by (simp add: heap_inv_def)
  then show u: "unat (a + block_size) = unat a + 40"
    using unat_add_nowrap [of a block_size] by (simp add: block_size_def)
  then show "a + block_size \<noteq> 0" by auto
qed

lemma inv_addr_inj:
  assumes "heap_inv s bs" and "(a, l, f) \<in> set bs" and "(a, k, g) \<in> set bs"
  shows "l = k" and "f = g"
  using laid_two [of "unat (heap_base s)" "unat (heap_base s) + unat (heap_size s)" bs a l f a k g] assms
  by (auto simp: heap_inv_def)

lemma payload_kept_intact:
  assumes "heap_inv s bs" and "heap_writes bs (mem s) m'" and "\<And>a l. (a, l) \<in> live bs \<Longrightarrow> a + block_size \<noteq> p \<Longrightarrow> (a, l) \<in> live bs'"
  shows "intact p bs (mem s) bs' m'"
proof -
  have "payload_kept bs (mem s) m'"
    using assms(1) heap_writes_kept(1) [OF _ _ assms(2)] by (auto simp: heap_inv_def)
  then show ?thesis using assms(3) by (auto simp: intact_def payload_kept_def live_def)
qed

definition fresh_block :: "u64 \<Rightarrow> u64 \<Rightarrow> blk list \<Rightarrow> blk list \<Rightarrow> bool" where
  "fresh_block n p bs bs' \<longleftrightarrow> (\<exists>a l. p = a + block_size \<and> n \<le> l \<and> (a, l, False) \<in> set bs' \<and>
     a \<notin> fst ` live bs \<and> live bs' = insert (a, l) (live bs))"

lemma fresh_taken:
  assumes inv: "heap_inv s (xs @ (a, l, True) # ys)" and "n \<le> l"
  shows "fresh_block n (a + block_size) (xs @ (a, l, True) # ys) (xs @ taken n a l @ ys)"
proof -
  let ?bs = "xs @ (a, l, True) # ys" and ?l = "if n + block_size < l then n else l"
  have mem: "(a, l, True) \<in> set ?bs" by simp
  have "a \<notin> fst ` live ?bs"
    using inv_addr_inj(2) [OF inv mem] by (auto simp: live_def simp del: set_append set_simps)
  moreover have "live (xs @ taken n a l @ ys) = insert (a, ?l) (live ?bs)"
    by (auto simp: live_Cons live_taken)
  moreover have "(a, ?l, False) \<in> set (xs @ taken n a l @ ys)" by (simp add: taken_def)
  moreover have "n \<le> ?l" using assms(2) by simp
  ultimately show ?thesis unfolding fresh_block_def by blast
qed

lemma malloc_live:
  assumes inv: "heap_inv s bs"
  shows "\<exists>p m' bs'. malloc n s = Some (p, s\<lparr>mem := m'\<rparr>) \<and> heap_inv (s\<lparr>mem := m'\<rparr>) bs' \<and>
    heap_writes bs (mem s) m' \<and>
    (if p = 0 then m' = mem s \<and> bs' = bs \<and> (\<forall>b \<in> set bs. \<not> fitting n b) else fresh_block n p bs bs')"
proof (cases "best_fit n bs None")
  case None
  have "\<forall>b \<in> set bs. \<not> fitting n b" using best_fit_spec [of None n bs] None by simp
  then show ?thesis
    using malloc_none [OF inv None] inv
    by (intro exI [of _ 0] exI [of _ "mem s"] exI [of _ bs]) (simp add: heap_writes_def)
next
  case (Some b)
  obtain a l f where b: "b = (a, l, f)" by (cases b)
  obtain xs ys m' where r: "bs = xs @ (a, l, True) # ys" "n \<le> l" "\<forall>c \<in> set xs. fst c \<noteq> a"
    "malloc n s = Some (a + block_size, s\<lparr>mem := m'\<rparr>)" "heap_writes bs (mem s) m'"
    "heap_inv (s\<lparr>mem := m'\<rparr>) (xs @ taken n a l @ ys)"
    using malloc_some [OF inv Some [unfolded b]] by blast
  have mem: "(a, l, True) \<in> set bs" by (simp add: r(1))
  have "a + block_size \<noteq> 0" by (rule heap_base_ptr(2) [OF inv mem])
  moreover have "fresh_block n (a + block_size) bs (xs @ taken n a l @ ys)"
    using fresh_taken [OF inv [unfolded r(1)] r(2)] by (simp add: r(1))
  ultimately show ?thesis using r(4-6) by (metis (no_types, lifting))
qed

text \<open>A free block from which \<open>k\<close> allocations of \<open>n\<close> bytes can be cut.\<close>

definition has_room :: "u64 \<Rightarrow> nat \<Rightarrow> blk list \<Rightarrow> bool" where
  "has_room n k bs \<longleftrightarrow> k = 0 \<or> (\<exists>a l. (a, l, True) \<in> set bs \<and> k * (unat n + 40) \<le> unat l)"

lemma taken_room:
  assumes "Suc k * (unat n + 40) \<le> unat l" "0 < k"
  shows "\<exists>a'. (a', l - n - block_size, True) \<in> set (taken n a l) \<and> k * (unat n + 40) \<le> unat (l - n - block_size)"
proof -
  have "unat n + 40 \<le> k * (unat n + 40)" using assms(2) by (cases k) simp_all
  moreover have "unat n + 40 + k * (unat n + 40) \<le> unat l" using assms(1) by simp
  ultimately have b: "unat n + 40 < unat l" "k * (unat n + 40) + unat n + 40 \<le> unat l"
    by linarith+
  then have nb: "unat (n + block_size) = unat n + 40"
    using unat_add_nowrap [of n block_size] unat_lt64 [of l] by (simp add: block_size_def)
  have "n + block_size < l" using b(1) by (simp add: word_less_nat_alt nb)
  moreover have "unat (l - n - block_size) = unat l - (unat n + 40)"
    using \<open>n + block_size < l\<close> by (simp add: diff_diff_eq unat_sub nb)
  ultimately show ?thesis using b(2) by (simp add: taken_def)
qed

lemma malloc_room:
  assumes inv: "heap_inv s bs" and room: "has_room n (Suc k) bs"
  obtains p m' bs' where "malloc n s = Some (p, s\<lparr>mem := m'\<rparr>)" "p \<noteq> 0" "heap_inv (s\<lparr>mem := m'\<rparr>) bs'"
    "has_room n k bs'" "fresh_block n p bs bs'"
proof -
  obtain a0 l0 where big: "(a0, l0, True) \<in> set bs" "Suc k * (unat n + 40) \<le> unat l0"
    using room by (auto simp: has_room_def)
  then have fit: "fitting n (a0, l0, True)" by (simp add: fitting_def word_le_nat_alt)
  then obtain a l f where best: "best_fit n bs None = Some (a, l, f)"
    using best_fit_spec [of None n bs] big(1) by (cases "best_fit n bs None") auto
  obtain xs ys m' where r: "bs = xs @ (a, l, True) # ys" "n \<le> l" "\<forall>c \<in> set xs. fst c \<noteq> a"
    "malloc n s = Some (a + block_size, s\<lparr>mem := m'\<rparr>)" "heap_inv (s\<lparr>mem := m'\<rparr>) (xs @ taken n a l @ ys)"
    by (rule malloc_some [OF inv best])
  have "has_room n k (xs @ taken n a l @ ys)"
  proof (cases "k = 0 \<or> (a0, l0, True) \<noteq> (a, l, True)")
    case True
    then show ?thesis using big r(1) by (fastforce simp: has_room_def)
  next
    case False
    then show ?thesis using taken_room [of k n l a] big(2) by (auto simp: has_room_def)
  qed
  moreover have mem: "(a, l, True) \<in> set bs" by (simp add: r(1))
  moreover have "fresh_block n (a + block_size) bs (xs @ taken n a l @ ys)"
    using fresh_taken [OF inv [unfolded r(1)] r(2)] by (simp add: r(1))
  ultimately show thesis using that [OF r(4) heap_base_ptr(2) [OF inv mem] r(5)] by blast
qed

lemma fresh_block_intact:
  assumes "heap_inv s bs" and "heap_writes bs (mem s) m'" and "fresh_block n p bs bs'"
  shows "intact q bs (mem s) bs' m'"
  using assms by (intro payload_kept_intact) (auto simp: fresh_block_def)

lemma free_live:
  assumes inv: "heap_inv s bs" and "ptr \<noteq> 0"
  shows "\<exists>m' bs'. heap_free ptr s = Some (s\<lparr>mem := m'\<rparr>) \<and> heap_inv (s\<lparr>mem := m'\<rparr>) bs' \<and>
    header_writes bs (mem s) m' \<and> intact ptr bs (mem s) bs' m' \<and>
    live bs' = {(a, l) \<in> live bs. a + block_size \<noteq> ptr}"
proof -
  obtain m' where m': "heap_free ptr s = Some (s\<lparr>mem := m'\<rparr>)" "header_writes bs (mem s) m'"
    "heap_inv (s\<lparr>mem := m'\<rparr>) (spec_free ptr bs)"
    using heap_free_spec [OF inv, of ptr] assms(2) by auto
  have l: "live (spec_free ptr bs) = {(a, l) \<in> live bs. a + block_size \<noteq> ptr}"
    using live_spec_free [of "unat (heap_base s)" "unat (heap_base s) + unat (heap_size s)" bs ptr] inv
    by (simp add: heap_inv_def)
  have "intact ptr bs (mem s) (spec_free ptr bs) m'"
    using l by (intro payload_kept_intact [OF inv header_writes_heap [OF m'(2)]]) auto
  then show ?thesis using m' l by blast
qed

section \<open>calloc and realloc\<close>

lemma fill_outside: "\<not> in_region p n x \<Longrightarrow> filled m p v n x = m x"
  by (simp add: filled_def)

lemma in_region_mono: "n \<le> k \<Longrightarrow> in_region p n x \<Longrightarrow> in_region p k x"
  by (auto simp: in_region_def)

lemma payload_write_intact:
  assumes inv: "heap_inv s bs" and b: "(a, l, f) \<in> set bs" and n: "n \<le> l"
    and m': "\<And>x. \<not> in_region (a + block_size) n x \<Longrightarrow> m' x = mem s x"
  shows "heap_inv (s\<lparr>mem := m'\<rparr>) bs" and "intact (a + block_size) bs (mem s) bs m'"
proof -
  have "\<not> in_region (a + block_size) l x \<Longrightarrow> m' x = mem s x" for x
    using m' in_region_mono [OF n] by blast
  note w = payload_write [OF inv b this]
  show "heap_inv (s\<lparr>mem := m'\<rparr>) bs" by (rule w(1))
  show "intact (a + block_size) bs (mem s) bs m'"
    using w(2) by (auto simp: intact_def live_def)
qed

lemma calloc_live:
  assumes inv: "heap_inv s bs"
  shows "\<exists>p m' bs'. calloc n k s = Some (p, s\<lparr>mem := m'\<rparr>) \<and> heap_inv (s\<lparr>mem := m'\<rparr>) bs' \<and>
    intact q bs (mem s) bs' m' \<and>
    (p \<noteq> 0 \<longrightarrow> fresh_block (n * k) p bs bs' \<and> (\<forall>x. in_region p (n * k) x \<longrightarrow> m' x = 0))"
proof -
  obtain p m1 bs' where r: "malloc (n * k) s = Some (p, s\<lparr>mem := m1\<rparr>)" "heap_inv (s\<lparr>mem := m1\<rparr>) bs'"
    "heap_writes bs (mem s) m1"
    "if p = 0 then m1 = mem s \<and> bs' = bs \<and> (\<forall>b \<in> set bs. \<not> fitting (n * k) b) else fresh_block (n * k) p bs bs'"
    using malloc_live [OF inv, of "n * k"] by blast
  show ?thesis
  proof (cases "p = 0")
    case True
    then have "calloc n k s = Some (0, s\<lparr>mem := m1\<rparr>)" "m1 = mem s" "bs' = bs"
      using r by (simp_all add: calloc_def)
    then show ?thesis using r(2) True by (intro exI [of _ 0] exI [of _ m1] exI [of _ bs]) simp
  next
    case False
    then have fb: "fresh_block (n * k) p bs bs'" using r(4) by simp
    then obtain a l where a: "p = a + block_size" "n * k \<le> l" "(a, l, False) \<in> set bs'" "a \<notin> fst ` live bs"
      by (auto simp: fresh_block_def)
    let ?m = "filled m1 p 0 (n * k)"
    have c: "calloc n k s = Some (p, s\<lparr>mem := ?m\<rparr>)" using r(1) False by (simp add: calloc_def memset_fill)
    have "heap_inv (s\<lparr>mem := m1, mem := ?m\<rparr>) bs'" "intact p bs' m1 bs' ?m"
      using payload_write_intact [OF r(2) a(3,2), of ?m] by (simp_all add: a(1) fill_outside)
    note w = this
    have "intact q bs (mem s) bs' m1" by (rule fresh_block_intact [OF inv r(3) fb])
    moreover have "a' + block_size \<noteq> p" if "(a', l') \<in> live bs" for a' l'
      using that a(1,4) by (auto simp: image_iff)
    ultimately have "intact q bs (mem s) bs' ?m"
      using w(2) unfolding intact_def by metis
    then show ?thesis using c w(1) fb False
      by (intro exI [of _ p] exI [of _ ?m] exI [of _ bs']) (auto simp: filled_def)
  qed
qed

lemma find_block_at:
  assumes inv: "heap_inv s bs" and b: "(a, l, f) \<in> set bs"
  shows "find_block (mem s) (a + block_size) (heap_base s) = Some a"
proof -
  obtain xs ys where bs: "bs = xs @ (a, l, f) # ys" using b by (auto dest: split_list)
  let ?P = "\<lambda>c :: blk. fst c + block_size \<noteq> a + block_size"
  have i: "seg (mem s) 0 bs 0" "nxt bs 0 = heap_base s"
    "laid (unat (heap_base s)) (unat (heap_base s) + unat (heap_size s)) bs"
    "unat (heap_base s) + unat (heap_size s) < 2 ^ 64" using inv by (auto simp: heap_inv_def)
  have "\<forall>c \<in> set xs. ?P c" using laid_apart [OF i(3) [unfolded bs] i(4)] by (fastforce simp: apart_def)
  then have "dropWhile ?P bs = (a, l, f) # ys" unfolding bs by (subst dropWhile_append2) auto
  then show ?thesis using find_block_seg [OF i(1), of "a + block_size"] i(2) by simp
qed

lemma block_of:
  assumes "heap_inv s bs" and "(a, l, f) \<in> set bs"
  shows "hb_length (get_block (mem s) a) = l" "hb_base (get_block (mem s) a) = a + block_size" "a \<noteq> 0"
proof -
  obtain xs ys where "bs = xs @ (a, l, f) # ys" using assms(2) by (auto dest: split_list)
  then have "seg (mem s) 0 (xs @ (a, l, f) # ys) 0" using assms(1) by (simp add: heap_inv_def)
  from seg_mem [OF this] show "hb_length (get_block (mem s) a) = l"
    "hb_base (get_block (mem s) a) = a + block_size" "a \<noteq> 0" by simp_all
qed

lemma shrink_inv:
  assumes inv: "heap_inv s bs" and b: "(a, l, False) \<in> set bs" and n: "n \<le> l"
  shows "\<exists>bs'. heap_inv (s\<lparr>mem := set_length a n (mem s)\<rparr>) bs' \<and>
    live bs' = insert (a, n) {(c, k) \<in> live bs. c \<noteq> a}"
proof -
  obtain xs ys where bs: "bs = xs @ (a, l, False) # ys" using b by (auto dest: split_list)
  let ?lo = "unat (heap_base s)" and ?hi = "unat (heap_base s) + unat (heap_size s)"
  have i: "seg (mem s) 0 (xs @ (a, l, False) # ys) 0" "laid ?lo ?hi (xs @ (a, l, False) # ys)" "?hi < 2 ^ 64"
    "nxt bs 0 = heap_base s" using inv by (auto simp: heap_inv_def bs)
  have "laid ?lo ?hi (xs @ (a, n, False) # ys)"
    using i(2) n laid_weaken [of "unat a + 40 + unat l" _ ys "unat a + 40 + unat n"]
    by (simp add: laid_split word_le_nat_alt)
  then have inv': "heap_inv (s\<lparr>mem := set_length a n (mem s)\<rparr>) (xs @ (a, n, False) # ys)"
    using seg_set_free(2) [OF i(1-3)] i(3,4) by (simp add: bs)
  have ne: "fst c \<noteq> a" if "c \<in> set xs \<union> set ys" for c
    using laid_apart [OF i(2,3) that] by (auto simp: apart_def)
  have "live xs \<union> live ys = {(c, k) \<in> live bs. c \<noteq> a}"
    using ne by (fastforce simp: bs live_def)
  then have "live (xs @ (a, n, False) # ys) = insert (a, n) {(c, k) \<in> live bs. c \<noteq> a}"
    by (simp add: live_Cons)
  then show ?thesis using inv' by blast
qed

lemma header_length_writes: "(a, l, f) \<in> set bs \<Longrightarrow> header_writes bs m (set_length a n m)"
  using set_header_writes(2) [of "(a, l, f)" bs m n] by simp

lemma live_mem: "(a, l) \<in> live bs \<longleftrightarrow> (a, l, False) \<in> set bs"
  by (simp add: live_def)

lemma realloc_shrink:
  assumes inv: "heap_inv s bs" and b: "(a, l, False) \<in> set bs" and n: "n \<noteq> 0" "n \<le> l"
  shows "\<exists>m' bs'. realloc (a + block_size) n s = Some (a + block_size, s\<lparr>mem := m'\<rparr>) \<and>
    heap_inv (s\<lparr>mem := m'\<rparr>) bs' \<and> intact (a + block_size) bs (mem s) bs' m' \<and> (a, n) \<in> live bs' \<and>
    (\<forall>i<l. m' (a + block_size + i) = mem s (a + block_size + i))"
proof -
  let ?m = "set_length a n (mem s)"
  have r: "realloc (a + block_size) n s = Some (a + block_size, s\<lparr>mem := ?m\<rparr>)"
    using find_block_at [OF inv b] block_of [OF inv b] heap_base_ptr(2) [OF inv b] n by (simp add: realloc_def)
  obtain bs' where bs': "heap_inv (s\<lparr>mem := ?m\<rparr>) bs'" "live bs' = insert (a, n) {(c, k) \<in> live bs. c \<noteq> a}"
    using shrink_inv [OF inv b n(2)] by blast
  note w = header_writes_heap [OF header_length_writes [OF b]]
  have "intact (a + block_size) bs (mem s) bs' ?m"
    by (rule payload_kept_intact [OF inv w]) (auto simp: bs'(2))
  moreover have "?m (a + block_size + i) = mem s (a + block_size + i)" if "i < l" for i
  proof -
    have "payload_kept bs (mem s) ?m" using inv heap_writes_kept(1) [OF _ _ w] by (auto simp: heap_inv_def)
    then show ?thesis using b that by (simp add: payload_kept_def)
  qed
  ultimately show ?thesis using r bs' by blast
qed

lemma payload_distance:
  assumes inv: "heap_inv s bs" and a: "(a, l, f) \<in> set bs" and b: "(b, k, g) \<in> set bs" and ne: "a \<noteq> b"
  shows "l \<le> b + block_size - (a + block_size)"
proof -
  let ?lo = "unat (heap_base s)" and ?hi = "unat (heap_base s) + unat (heap_size s)"
  have ld: "laid ?lo ?hi bs" "?hi < 2 ^ 64" using inv by (auto simp: heap_inv_def)
  have "unat a + 40 + unat l < 2 ^ 64" using laid_mem(2) [OF ld(1) a] ld(2) by simp
  moreover have "unat a + 40 + unat l \<le> unat b \<or> unat b + 40 + unat k \<le> unat a"
    using laid_two [OF ld(1) a b] ne by auto
  ultimately have "unat l \<le> unat (b - a)"
    unfolding unat_sub_if' by (auto simp: word_le_nat_alt)
  then show ?thesis by (simp add: word_le_nat_alt)
qed

lemma realloc_grow:
  assumes inv: "heap_inv s bs" and b: "(a, l, False) \<in> set bs" and n: "l < n"
  shows "\<exists>p m' bs'. realloc (a + block_size) n s = Some (p, s\<lparr>mem := m'\<rparr>) \<and>
    heap_inv (s\<lparr>mem := m'\<rparr>) bs' \<and> intact (a + block_size) bs (mem s) bs' m' \<and>
    (if p = 0 then m' = mem s \<and> bs' = bs
     else (\<exists>k \<ge> n. (p - block_size, k) \<in> live bs') \<and> (\<forall>i<l. m' (p + i) = mem s (a + block_size + i)))"
proof -
  let ?p = "a + block_size"
  note ptr = heap_base_ptr(2) [OF inv b] and fnd = find_block_at [OF inv b] and blk = block_of [OF inv b]
  have n': "n \<noteq> 0" "\<not> n \<le> l" using n by auto
  obtain q m1 bs1 where r: "malloc n s = Some (q, s\<lparr>mem := m1\<rparr>)" "heap_inv (s\<lparr>mem := m1\<rparr>) bs1"
    "heap_writes bs (mem s) m1"
    "if q = 0 then m1 = mem s \<and> bs1 = bs \<and> (\<forall>b \<in> set bs. \<not> fitting n b) else fresh_block n q bs bs1"
    using malloc_live [OF inv, of n] by blast
  show ?thesis
  proof (cases "q = 0")
    case True
    then have "realloc ?p n s = Some (0, s\<lparr>mem := mem s\<rparr>)"
      using r ptr fnd blk n' by (simp add: realloc_def)
    then show ?thesis using inv by (intro exI [of _ 0] exI [of _ "mem s"] exI [of _ bs]) simp
  next
    case False
    then have fb: "fresh_block n q bs bs1" using r(4) by simp
    then obtain c k where c: "q = c + block_size" "n \<le> k" "(c, k, False) \<in> set bs1" "c \<notin> fst ` live bs"
      "live bs1 = insert (c, k) (live bs)" by (auto simp: fresh_block_def)
    have ca: "c \<noteq> a" using c(4) b by (force simp: live_def)
    have b1: "(a, l, False) \<in> set bs1" using c(5) b by (simp add: live_mem [symmetric])
    let ?s1 = "s\<lparr>mem := m1\<rparr>" and ?m2 = "copied m1 q ?p l"
    have lk: "l \<le> k" using n c(2) by simp
    have d: "l \<le> q - ?p" unfolding c(1) by (rule payload_distance [OF r(2) b1 c(3) ca [symmetric]])
    have w: "heap_inv (s\<lparr>mem := ?m2\<rparr>) bs1" "intact q bs1 m1 bs1 ?m2"
      using payload_write_intact [OF r(2) c(3) lk, of ?m2] by (simp_all add: c(1) copied_def)
    obtain m3 bs3 where f: "heap_free ?p (s\<lparr>mem := ?m2\<rparr>) = Some (s\<lparr>mem := m3\<rparr>)"
      "heap_inv (s\<lparr>mem := m3\<rparr>) bs3" "intact ?p bs1 ?m2 bs3 m3"
      using free_live [OF w(1) ptr] by auto
    have re: "realloc ?p n s = Some (q, s\<lparr>mem := m3\<rparr>)"
      using r(1) ptr fnd blk(1) block_of(1) [OF r(2) b1] n' False f(1) memcpy_copy [OF d, of m1]
      by (simp add: realloc_def blk(3))
    have i1: "intact ?p bs (mem s) bs1 m1" by (rule fresh_block_intact [OF inv r(3) fb])
    have "x + block_size \<noteq> q" if "(x, y) \<in> live bs" for x y using that c(1,4) by (auto simp: image_iff)
    then have "intact ?p bs (mem s) bs1 ?m2" using i1 w(2) unfolding intact_def by metis
    note int = intact_trans [OF this f(3)]
    have qk: "(c, k) \<in> live bs3" "\<And>x. in_region q k x \<Longrightarrow> m3 x = ?m2 x"
      using f(3) c ca unfolding intact_def by (auto simp: c(5))
    have "m3 (q + i) = mem s (?p + i)" if i: "i < l" for i
    proof -
      have "i < k" using i lk by simp
      then have "m3 (q + i) = m1 (?p + i)" using qk(2) [of "q + i"] i by (simp add: copied_def)
      also have "\<dots> = mem s (?p + i)"
        using heap_writes_kept(1) [OF _ _ r(3)] inv b i by (auto simp: heap_inv_def payload_kept_def)
      finally show ?thesis .
    qed
    moreover have "q - block_size = c" by (simp add: c(1))
    ultimately show ?thesis using re f(2) int qk(1) c(2) False by auto
  qed
qed

section \<open>malloc\_aligned\<close>

lemma align_padding:
  fixes raw al :: u64
  assumes "al = 2 ^ k" and "k < 64"
  shows "unat (((raw + al - 1) AND NOT (al - 1)) - raw) < unat al"
proof -
  let ?x = "raw + al - 1"
  have m: "al - 1 = mask k" using assms(1) by (simp add: mask_eq_exp_minus_1)
  have "take_bit k ?x + (?x AND NOT (mask k)) = take_bit k ?x OR (?x AND NOT (mask k))"
    by (rule disjunctive_add_eq_or) (auto intro!: bit_word_eqI simp: bit_simps)
  also have "\<dots> = ?x" by (auto intro!: bit_word_eqI simp: bit_simps)
  finally have "?x AND NOT (al - 1) = ?x - take_bit k ?x"
    unfolding m by (metis add_diff_cancel_left')
  then have e: "(?x AND NOT (al - 1)) - raw = al - 1 - take_bit k ?x" by simp
  have "(2 :: nat) ^ k < 2 ^ 64" using assms(2) by (rule power_strict_increasing) simp
  then have u: "unat al = 2 ^ k" using unat_of_nat64 [of "2 ^ k"] assms(1) by simp
  have "take_bit k ?x \<le> al - 1" unfolding m by (simp add: take_bit_eq_mask word_and_le1)
  then have "unat (al - 1 - take_bit k ?x) \<le> unat (al - 1)" by (simp add: unat_sub)
  also have "\<dots> < unat al" using u by (simp add: unat_sub word_le_nat_alt)
  finally show ?thesis unfolding e .
qed

lemma finish_aligned_spec:
  assumes inv: "heap_inv s (xs @ (a, l, True) # ys)" and n: "unat n + 40 < 2 ^ 64"
  shows "\<exists>m' bs'. finish_aligned a n (mem s) = (a + block_size, m') \<and> heap_inv (s\<lparr>mem := m'\<rparr>) bs' \<and>
    heap_writes (xs @ (a, l, True) # ys) (mem s) m' \<and> (\<exists>k. (a, k, False) \<in> set bs' \<and> k \<le> l) \<and>
    live (xs @ ys) \<subseteq> live bs'"
proof -
  let ?bs = "xs @ (a, l, True) # ys" and ?lo = "unat (heap_base s)"
    and ?hi = "unat (heap_base s) + unat (heap_size s)"
  have sg: "seg (mem s) 0 ?bs 0" and ld: "laid ?lo ?hi ?bs" and hi: "?hi < 2 ^ 64"
    and nx: "nxt ?bs 0 = heap_base s" using inv by (auto simp: heap_inv_def)
  note h = seg_mem [OF sg]
  show ?thesis
  proof (cases "n + block_size < l")
    case True
    have "unat (n + block_size) = unat n + 40"
      using n unat_add_nowrap [of n block_size] by (simp add: block_size_def)
    then have nl: "n \<le> l" using True by (simp add: word_le_nat_alt word_less_nat_alt)
    note sp = did_split_now(3) [OF sg ld hi True nl]
    let ?m1 = "split_rest a n (mem s)" and ?bs' = "xs @ (a, n, False) # (a + block_size + n, l - n - block_size, True) # ys"
    note sg1 = seg_split [OF sg ld hi True nl sp] and ld1 = laid_split_block [OF ld hi True nl]
    have "finish_aligned a n (mem s) = (a + block_size, set_is_free a False ?m1)"
      using True h seg_mem(1) [OF sg1] by (simp add: finish_aligned_def)
    moreover have "heap_inv (s\<lparr>mem := set_is_free a False ?m1\<rparr>) ?bs'"
      using seg_set_free(1) [OF sg1 ld1 hi] ld1 hi nx by simp
    moreover have "heap_writes ?bs (mem s) (set_is_free a False ?m1)"
      using set_free_writes [OF did_split_writes [OF sg ld hi True nl sp], of a l True] by simp
    ultimately show ?thesis using nl
      by (intro exI [of _ "set_is_free a False ?m1"] exI [of _ ?bs']) (auto simp: live_Cons)
  next
    case False
    have "finish_aligned a n (mem s) = (a + block_size, set_is_free a False (mem s))"
      using False h by (simp add: finish_aligned_def)
    moreover have "heap_inv (s\<lparr>mem := set_is_free a False (mem s)\<rparr>) (xs @ (a, l, False) # ys)"
      using seg_set_free(1) [OF sg ld hi] ld hi nx by (simp add: laid_split)
    moreover have "heap_writes ?bs (mem s) (set_is_free a False (mem s))"
      using set_free_writes [of ?bs "mem s" "mem s" a l True] by (simp add: heap_writes_def)
    ultimately show ?thesis
      by (intro exI [of _ "set_is_free a False (mem s)"] exI [of _ "xs @ (a, l, False) # ys"])
        (auto simp: live_Cons)
  qed
qed

lemma heap_writes_split:
  assumes ld: "laid lo hi (xs @ (a, l, True) # ys)" and hi: "hi < 2 ^ 64" and n: "n + block_size < l" "n \<le> l"
    and w1: "heap_writes (xs @ (a, l, True) # ys) m m1"
    and w2: "heap_writes (xs @ (a, n, True) # (a + block_size + n, l - n - block_size, True) # ys) m1 m2"
  shows "heap_writes (xs @ (a, l, True) # ys) m m2"
  unfolding heap_writes_def
proof (intro allI impI)
  fix x
  let ?N = "a + block_size + n" and ?k = "l - n - block_size"
  assume h: "\<forall>b k g. (b, k, g) \<in> set (xs @ (a, l, True) # ys) \<longrightarrow>
    \<not> in_region b block_size x \<and> (g \<longrightarrow> \<not> in_region (b + block_size) k x)"
  have a: "\<not> in_region a block_size x" "\<not> in_region (a + block_size) l x" using h [rule_format, of a l True] by simp_all
  have top: "unat a + 40 + unat l < 2 ^ 64"
    using ld laid_le [of "unat a + 40 + unat l" hi ys] hi by (simp add: laid_split)
  note r = remainder_addr [OF top n]
  note ld' = laid_split_block [OF ld hi n, of True]
  have e: "in_region (a + block_size) l x \<longleftrightarrow> unat a + 40 \<le> unat x \<and> unat x < unat a + 40 + unat l"
    by (rule block_nat(2) [OF ld hi, of _ _ True]) simp
  have e1: "in_region (a + block_size) n x \<longleftrightarrow> unat a + 40 \<le> unat x \<and> unat x < unat a + 40 + unat n"
    by (rule block_nat(2) [OF ld' hi, of _ _ True]) simp
  have e2: "in_region ?N block_size x \<longleftrightarrow> unat ?N \<le> unat x \<and> unat x < unat ?N + 40"
    by (rule block_nat(1) [OF ld' hi, of _ ?k True]) simp
  have e3: "in_region (?N + block_size) ?k x \<longleftrightarrow> unat ?N + 40 \<le> unat x \<and> unat x < unat ?N + 40 + unat ?k"
    by (rule block_nat(2) [OF ld' hi, of _ _ True]) simp
  have no: "\<not> (unat a + 40 \<le> unat x \<and> unat x < unat a + 40 + unat l)" using a(2) e by blast
  have "\<not> in_region (a + block_size) n x" using no r(2) unfolding e1 by linarith
  moreover have "\<not> in_region ?N block_size x" using no r unfolding e2 by linarith
  moreover have "\<not> in_region (?N + block_size) ?k x" using no r unfolding e3 by linarith
  moreover have "\<not> in_region b block_size x \<and> (g \<longrightarrow> \<not> in_region (b + block_size) k x)"
    if "(b, k, g) \<in> set xs \<union> set ys" for b k g using h [rule_format, of b k g] that by auto
  ultimately have "\<forall>b k g. (b, k, g) \<in> set (xs @ (a, n, True) # (?N, ?k, True) # ys) \<longrightarrow>
    \<not> in_region b block_size x \<and> (g \<longrightarrow> \<not> in_region (b + block_size) k x)"
    using a(1) by auto
  then have "m2 x = m1 x" using w2 unfolding heap_writes_def by blast
  moreover have "m1 x = m x" using w1 h unfolding heap_writes_def by blast
  ultimately show "m2 x = m x" by simp
qed

lemma power_of_two_test: "(2 ^ k :: u64) AND (2 ^ k - 1) = 0"
proof -
  have "(2 ^ k :: u64) AND mask k = 0"
    by (intro bit_word_eqI) (auto simp: bit_simps)
  then show ?thesis by (simp add: mask_eq_exp_minus_1)
qed

text \<open>The pointer \<open>malloc_aligned\<close> returns: behind the header of the padding block when there is padding.\<close>

definition aligned_result :: "u64 \<Rightarrow> u64 \<Rightarrow> blk list \<Rightarrow> u64" where
  "aligned_result n al bs =
     (case best_fit (n + al) bs None of
        None \<Rightarrow> 0
      | Some (a, l, f) \<Rightarrow>
          let raw = a + block_size; up = (raw + al - 1) AND NOT (al - 1) in
          if up - raw = 0 then raw
          else if l \<le> up - raw + block_size then 0
          else up + block_size)"

lemma malloc_aligned_live:
  assumes inv: "heap_inv s bs" and al: "al = 2 ^ k" "k < 64" and n: "unat n + 40 < 2 ^ 64"
  shows "\<exists>p m' bs'. malloc_aligned n al s = Some (p, s\<lparr>mem := m'\<rparr>) \<and> heap_inv (s\<lparr>mem := m'\<rparr>) bs' \<and>
    heap_writes bs (mem s) m' \<and> live bs \<subseteq> live bs' \<and> p = aligned_result n al bs"
proof -
  let ?lo = "unat (heap_base s)" and ?hi = "unat (heap_base s) + unat (heap_size s)"
  have ok: "\<not> al AND (al - 1) \<noteq> 0" using power_of_two_test al(1) by simp
  have finish: ?thesis if "malloc_aligned n al s = Some (p, s\<lparr>mem := m'\<rparr>)" "heap_inv (s\<lparr>mem := m'\<rparr>) bs'"
    "heap_writes bs (mem s) m'" "live bs \<subseteq> live bs'" "p = aligned_result n al bs" for p m' bs'
    by (intro exI conjI) (rule that)+
  have none: ?thesis if "malloc_aligned n al s = Some (0, s)" "aligned_result n al bs = 0"
    using that inv by (intro exI [of _ 0] exI [of _ "mem s"] exI [of _ bs]) (simp add: heap_writes_def)
  have loop: "best_fit_loop (mem s) (n + al) (heap_base s) 0 = Some (acc_ptr (best_fit (n + al) bs None))"
    using best_fit_loop_seg [of "mem s" 0 bs None "n + al"] inv by (simp add: heap_inv_def acc_ptr_def)
  show ?thesis
  proof (cases "best_fit (n + al) bs None")
    case None
    then show ?thesis using ok loop by (intro none) (simp_all add: malloc_aligned_def aligned_result_def acc_ptr_def)
  next
    case (Some b)
    obtain a l f where b: "b = (a, l, f)" by (cases b)
    have fit: "f" "(a, l, f) \<in> set bs"
      using best_fit_spec [of None "n + al" bs] Some b by (auto simp: fitting_def)
    then obtain xs ys where bs: "bs = xs @ (a, l, True) # ys" by (auto dest: split_list)
    have sg: "seg (mem s) 0 (xs @ (a, l, True) # ys) 0" and ld: "laid ?lo ?hi (xs @ (a, l, True) # ys)"
      and hi: "?hi < 2 ^ 64" and nx: "nxt bs 0 = heap_base s" using inv by (auto simp: heap_inv_def bs)
    note h = seg_mem [OF sg]
    let ?raw = "a + block_size"
    let ?pad = "((?raw + al - 1) AND NOT (al - 1)) - ?raw"
    have loop': "best_fit_loop (mem s) (n + al) (heap_base s) 0 = Some a" using loop Some b by (simp add: acc_ptr_def)
    have lv: "live bs = live (xs @ ys)" by (simp add: bs live_Cons)
    consider "?pad = 0" | "?pad \<noteq> 0" "l \<le> ?pad + block_size" | "?pad \<noteq> 0" "?pad + block_size < l" by fastforce
    then show ?thesis
    proof cases
      case 1
      then have r: "malloc_aligned n al s =
          (case finish_aligned a n (mem s) of (p, m) \<Rightarrow> Some (p, s\<lparr>mem := m\<rparr>))"
        using ok loop' h by (simp add: malloc_aligned_def Let_def)
      obtain m' bs' where f: "finish_aligned a n (mem s) = (a + block_size, m')" "heap_inv (s\<lparr>mem := m'\<rparr>) bs'"
        "heap_writes (xs @ (a, l, True) # ys) (mem s) m'" "live (xs @ ys) \<subseteq> live bs'"
        using finish_aligned_spec [OF inv [unfolded bs] n] by blast
      show ?thesis
      proof (rule finish)
        show "a + block_size = aligned_result n al bs" using 1 Some b by (simp add: aligned_result_def)
        show "malloc_aligned n al s = Some (a + block_size, s\<lparr>mem := m'\<rparr>)" using r f(1) by simp
        show "heap_inv (s\<lparr>mem := m'\<rparr>) bs'" by (rule f(2))
        show "heap_writes bs (mem s) m'" using f(3) unfolding bs .
        show "live bs \<subseteq> live bs'" using f(4) lv by simp
      qed
    next
      case 2
      have "0 < ?pad" unfolding word_gt_0 by (rule 2(1) [symmetric])
      then have "malloc_aligned n al s = Some (0, s)"
        using ok loop' h 2(2) by (simp add: malloc_aligned_def Let_def)
      moreover have "aligned_result n al bs = 0" using 2 Some b by (simp add: aligned_result_def Let_def)
      ultimately show ?thesis by (rule none)
    next
      case 3
      have pos: "0 < ?pad" unfolding word_gt_0 by (rule 3(1) [symmetric])
      have pl: "?pad \<le> l"
      proof -
        have "unat ?pad < unat al" by (rule align_padding [OF al])
        moreover have "unat al \<le> 2 ^ 63"
        proof -
          have "(2 :: nat) ^ k \<le> 2 ^ 63" using al(2) by (intro power_increasing) auto
          then show ?thesis using unat_of_nat64 [of "2 ^ k"] al(1) by simp
        qed
        ultimately have "unat (?pad + block_size) = unat ?pad + 40"
          using unat_add_nowrap [of ?pad block_size] by (simp add: block_size_def)
        then show ?thesis using 3(2) by (simp add: word_le_nat_alt word_less_nat_alt)
      qed
      let ?N = "?raw + ?pad" and ?m1 = "split_padding a ?pad (mem s)"
      note sp = did_split_now(2) [OF sg ld hi 3(2) pl]
      note ld1 = laid_split_block [OF ld hi 3(2) pl, of True] and sg1 = seg_split [OF sg ld hi 3(2) pl sp]
      have inv1: "heap_inv (s\<lparr>mem := ?m1\<rparr>) ((xs @ [(a, ?pad, True)]) @ (?N, l - ?pad - block_size, True) # ys)"
        using sg1 ld1 hi nx by (simp add: bs)
      have r: "malloc_aligned n al s =
          (case finish_aligned ?N n ?m1 of (p, m) \<Rightarrow> Some (p, s\<lparr>mem := m\<rparr>))"
        using ok loop' h pos 3(2) by (simp add: malloc_aligned_def Let_def not_le [symmetric])
      obtain m' bs' where f: "finish_aligned ?N n ?m1 = (?N + block_size, m')" "heap_inv (s\<lparr>mem := m'\<rparr>) bs'"
        "heap_writes ((xs @ [(a, ?pad, True)]) @ (?N, l - ?pad - block_size, True) # ys) ?m1 m'"
        "live ((xs @ [(a, ?pad, True)]) @ ys) \<subseteq> live bs'"
        using finish_aligned_spec [OF inv1 n] by (simp del: inv_update_mem) blast
      show ?thesis
      proof (rule finish)
        show "?N + block_size = aligned_result n al bs"
          using 3 Some b by (simp add: aligned_result_def Let_def not_le [symmetric])
        show "malloc_aligned n al s = Some (?N + block_size, s\<lparr>mem := m'\<rparr>)" using r f(1) by simp
        show "heap_inv (s\<lparr>mem := m'\<rparr>) bs'" by (rule f(2))
        show "heap_writes bs (mem s) m'"
          unfolding bs using heap_writes_split [OF ld hi 3(2) pl did_split_writes [OF sg ld hi 3(2) pl sp]] f(3) by simp
        show "live bs \<subseteq> live bs'" using f(4) by (simp add: lv live_Cons)
      qed
    qed
  qed
qed

section \<open>Sequences of heap calls\<close>

text \<open>
  A store of blocks: every step returns and keeps the content of each live block it does not
  release.
\<close>

fun run_steps :: "('c \<Rightarrow> 's \<Rightarrow> 's option) \<Rightarrow> 'c list \<Rightarrow> 's \<Rightarrow> 's option" where
  "run_steps step [] s = Some s"
| "run_steps step (c # cs) s = (case step c s of None \<Rightarrow> None | Some s' \<Rightarrow> run_steps step cs s')"

locale block_store =
  fixes step :: "'c \<Rightarrow> 's \<Rightarrow> 's option"
    and inv :: "'s \<Rightarrow> 'bs \<Rightarrow> bool"
    and blocks :: "'bs \<Rightarrow> 'b set"
    and data :: "'s \<Rightarrow> 'b \<Rightarrow> 'd"
    and allowed :: "'c \<Rightarrow> bool"
    and releases :: "'c \<Rightarrow> 'b \<Rightarrow> bool"
  assumes step_keeps: "inv s bs \<Longrightarrow> allowed c \<Longrightarrow>
    \<exists>s' bs'. step c s = Some s' \<and> inv s' bs' \<and>
      (\<forall>b \<in> blocks bs. \<not> releases c b \<longrightarrow> b \<in> blocks bs' \<and> data s' b = data s b)"
begin

lemma run_keeps:
  "inv s bs \<Longrightarrow> \<forall>c \<in> set cs. allowed c \<Longrightarrow>
   \<exists>s' bs'. run_steps step cs s = Some s' \<and> inv s' bs' \<and>
     (\<forall>b \<in> blocks bs. (\<forall>c \<in> set cs. \<not> releases c b) \<longrightarrow> b \<in> blocks bs' \<and> data s' b = data s b)"
proof (induction cs arbitrary: s bs)
  case (Cons c cs)
  obtain s1 bs1 where 1: "step c s = Some s1" "inv s1 bs1"
    "\<forall>b \<in> blocks bs. \<not> releases c b \<longrightarrow> b \<in> blocks bs1 \<and> data s1 b = data s b"
    using step_keeps [OF Cons.prems(1), of c] Cons.prems(2) by auto
  obtain s2 bs2 where 2: "run_steps step cs s1 = Some s2" "inv s2 bs2"
    "\<forall>b \<in> blocks bs1. (\<forall>c \<in> set cs. \<not> releases c b) \<longrightarrow> b \<in> blocks bs2 \<and> data s2 b = data s1 b"
    using Cons.IH [OF 1(2)] Cons.prems(2) by auto
  have "run_steps step (c # cs) s = Some s2" using 1(1) 2(1) by simp
  moreover have "b \<in> blocks bs2 \<and> data s2 b = data s b"
    if "b \<in> blocks bs" "\<forall>c' \<in> set (c # cs). \<not> releases c' b" for b
    using 1(3) 2(3) that by auto
  ultimately show ?case using 2(2) by blast
qed auto

end

datatype heap_call = Malloc u64 | Malloc_aligned u64 nat | Calloc u64 u64 | Free u64 | Defragment

fun heap_step :: "heap_call \<Rightarrow> 'a heap_scheme \<Rightarrow> 'a heap_scheme option" where
  "heap_step (Malloc n) s = map_option snd (malloc n s)"
| "heap_step (Malloc_aligned n k) s = map_option snd (malloc_aligned n (2 ^ k) s)"
| "heap_step (Calloc n k) s = map_option snd (calloc n k s)"
| "heap_step (Free p) s = heap_free p s"
| "heap_step Defragment s = defragment s"

text \<open>
  Any pointer may be freed, given out or not; the size of \<open>malloc_aligned\<close> must not wrap
  around and its alignment is a power of two.
\<close>

fun call_allowed :: "heap_call \<Rightarrow> bool" where
  "call_allowed (Malloc_aligned n k) \<longleftrightarrow> k < 64 \<and> unat n + 40 < 2 ^ 64"
| "call_allowed _ \<longleftrightarrow> True"

fun call_releases :: "heap_call \<Rightarrow> u64 \<times> u64 \<Rightarrow> bool" where
  "call_releases (Free p) b \<longleftrightarrow> fst b + block_size = p"
| "call_releases _ b \<longleftrightarrow> False"

definition block_data :: "'a heap_scheme \<Rightarrow> u64 \<times> u64 \<Rightarrow> u8 list" where
  "block_data s b = mem_bytes (mem s) (fst b + block_size) (unat (snd b))"

lemma block_data_eq:
  assumes "\<And>x. in_region (a + block_size) l x \<Longrightarrow> mem s' x = mem s x"
  shows "block_data s' (a, l) = block_data s (a, l)"
proof -
  have "in_region (a + block_size) l (a + block_size + of_nat i)" if "i < unat l" for i
    using that unat_lt64 [of l] by (simp add: word_less_nat_alt unat_of_nat64)
  then show ?thesis using assms by (simp add: block_data_def mem_bytes_def)
qed

lemma intact_data:
  assumes "intact p bs (mem s) bs' (mem s')" and "(a, l) \<in> live bs" and "a + block_size \<noteq> p"
  shows "(a, l) \<in> live bs'" and "block_data s' (a, l) = block_data s (a, l)"
  using assms block_data_eq [of a l s' s] by (auto simp: intact_def)

interpretation heap_store: block_store heap_step heap_inv live block_data call_allowed call_releases
proof
  fix s :: "'a heap_scheme" and bs c
  assume inv: "heap_inv s bs" and ok: "call_allowed c"
  have keep: "\<exists>s' bs'. heap_step c s = Some s' \<and> heap_inv s' bs' \<and>
      (\<forall>b \<in> live bs. \<not> call_releases c b \<longrightarrow> b \<in> live bs' \<and> block_data s' b = block_data s b)"
    if "heap_step c s = Some (s\<lparr>mem := m'\<rparr>)" "heap_inv (s\<lparr>mem := m'\<rparr>) bs'"
      "intact p bs (mem s) bs' m'" "\<And>b. b \<in> live bs \<Longrightarrow> fst b + block_size = p \<Longrightarrow> call_releases c b"
    for m' bs' p
  proof (intro exI conjI ballI impI)
    show "heap_step c s = Some (s\<lparr>mem := m'\<rparr>)" "heap_inv (s\<lparr>mem := m'\<rparr>) bs'" by (fact that)+
    fix b assume b: "b \<in> live bs" "\<not> call_releases c b"
    obtain a l where al: "b = (a, l)" by (cases b)
    have "a + block_size \<noteq> p" using that(4) [OF b(1)] b(2) al by auto
    then show "b \<in> live bs'" "block_data (s\<lparr>mem := m'\<rparr>) b = block_data s b"
      using intact_data [of p bs s bs' "s\<lparr>mem := m'\<rparr>" a l] that(3) b(1) al by simp_all
  qed
  have zero: "\<not> (b \<in> live bs \<and> fst b + block_size = 0)" for b
    using heap_base_ptr(2) [OF inv] by (auto simp: live_def)
  show "\<exists>s' bs'. heap_step c s = Some s' \<and> heap_inv s' bs' \<and>
      (\<forall>b \<in> live bs. \<not> call_releases c b \<longrightarrow> b \<in> live bs' \<and> block_data s' b = block_data s b)"
  proof (cases c)
    case (Malloc n)
    obtain p m' bs' where r: "malloc n s = Some (p, s\<lparr>mem := m'\<rparr>)" "heap_inv (s\<lparr>mem := m'\<rparr>) bs'"
      "heap_writes bs (mem s) m'" "if p = 0 then m' = mem s \<and> bs' = bs \<and> (\<forall>b \<in> set bs. \<not> fitting n b)
        else fresh_block n p bs bs'"
      using malloc_live [OF inv, of n] by blast
    have "intact 0 bs (mem s) bs' m'"
      using r fresh_block_intact [OF inv] by (cases "p = 0") auto
    then show ?thesis using r(1,2) zero by (intro keep) (auto simp: Malloc)
  next
    case (Malloc_aligned n k)
    obtain p m' bs' where r: "malloc_aligned n (2 ^ k) s = Some (p, s\<lparr>mem := m'\<rparr>)"
      "heap_inv (s\<lparr>mem := m'\<rparr>) bs'" "heap_writes bs (mem s) m'" "live bs \<subseteq> live bs'"
      using malloc_aligned_live [OF inv refl, of k n] ok by (auto simp: Malloc_aligned simp del: inv_update_mem)
    have "intact 0 bs (mem s) bs' m'" using r(4) by (intro payload_kept_intact [OF inv r(3)]) auto
    then show ?thesis using r(1,2) zero by (intro keep) (auto simp: Malloc_aligned)
  next
    case (Calloc n k)
    obtain p m' bs' where r: "calloc n k s = Some (p, s\<lparr>mem := m'\<rparr>)" "heap_inv (s\<lparr>mem := m'\<rparr>) bs'"
      "intact 0 bs (mem s) bs' m'"
      using calloc_live [OF inv] by blast
    then show ?thesis using zero by (intro keep) (auto simp: Calloc)
  next
    case (Free p)
    show ?thesis
    proof (cases "p = 0")
      case True
      then show ?thesis using inv zero by (intro keep [of "mem s" bs 0]) (auto simp: Free heap_free_def)
    next
      case False
      obtain m' bs' where r: "heap_free p s = Some (s\<lparr>mem := m'\<rparr>)" "heap_inv (s\<lparr>mem := m'\<rparr>) bs'"
        "intact p bs (mem s) bs' m'"
        using free_live [OF inv False] by blast
      then show ?thesis by (intro keep) (auto simp: Free)
    qed
  next
    case Defragment
    obtain m' where r: "defragment s = Some (s\<lparr>mem := m'\<rparr>)" "header_writes bs (mem s) m'"
      "heap_inv (s\<lparr>mem := m'\<rparr>) (spec_defragment bs)"
      using defragment_spec [OF inv] by blast
    have "(a, l) \<in> live (spec_defragment bs)" if "(a, l) \<in> live bs" for a l
    proof -
      have "(a, l, False) \<in> set (filter (\<lambda>b. \<not> snd (snd b)) (spec_defragment bs))"
        unfolding spec_defragment_live using that by (simp add: live_def)
      then show ?thesis by (simp add: live_def)
    qed
    then have "intact 0 bs (mem s) (spec_defragment bs) m'"
      by (intro payload_kept_intact [OF inv header_writes_heap [OF r(2)]])
    then show ?thesis using r(1,3) zero by (intro keep) (auto simp: Defragment)
  qed
qed

lemma first_header:
  "get_block (set_next p e (set_prev p d (set_is_free p c (set_length p b (set_base p a m))))) p =
     \<lparr>hb_base = a, hb_length = b, hb_is_free = c, hb_prev = d, hb_next = e\<rparr>"
  by simp

lemma no_adjacent_Cons:
  "no_adjacent_free ((a, l, f) # ys) \<longleftrightarrow> no_adjacent_free ys \<and> \<not> (ys \<noteq> [] \<and> f \<and> snd (snd (hd ys)))"
  by (cases ys) auto

lemma no_adjacent_append:
  "no_adjacent_free (xs @ ys) \<longleftrightarrow> no_adjacent_free xs \<and> no_adjacent_free ys \<and>
     \<not> (xs \<noteq> [] \<and> ys \<noteq> [] \<and> snd (snd (last xs)) \<and> snd (snd (hd ys)))"
proof (induction xs)
  case (Cons x xs)
  obtain a l f where x: "x = (a, l, f)" by (cases x)
  show ?case using Cons by (cases xs) (auto simp: no_adjacent_Cons x)
qed simp

lemma merge_next_no_adjacent:
  assumes "no_adjacent_free ys"
  shows "no_adjacent_free (merge_next (a, l, f) ys)"
  using assms by (cases ys) (auto simp: no_adjacent_Cons)

lemma free_no_adjacent:
  assumes "no_adjacent_free bs" shows "no_adjacent_free (spec_free ptr bs)"
proof (cases "dropWhile (\<lambda>b. fst b + block_size \<noteq> ptr) bs")
  case Nil
  then show ?thesis using assms by (simp add: spec_free_def del: dropWhile_eq_Nil_conv)
next
  case (Cons b ys)
  obtain a l f where b: "b = (a, l, f)" by (cases b)
  obtain xs where xs: "xs = takeWhile (\<lambda>b. fst b + block_size \<noteq> ptr) bs" by simp
  have bs: "bs = xs @ (a, l, f) # ys"
    using takeWhile_dropWhile_id [of "\<lambda>b. fst b + block_size \<noteq> ptr" bs] Cons xs b by simp
  have eq: "spec_free ptr bs = join_prev xs (merge_next (a, l, True) ys)"
    using Cons xs b by (simp add: spec_free_def)
  have n: "no_adjacent_free xs" "no_adjacent_free ys" using assms by (simp_all add: bs no_adjacent_append no_adjacent_Cons)
  obtain l' ys' where mg: "merge_next (a, l, True) ys = (a, l', True) # ys'"
    using merge_next_head by blast
  have m: "no_adjacent_free ((a, l', True) # ys')"
    using merge_next_no_adjacent [OF n(2), of a l True] mg by simp
  show ?thesis
  proof (cases "xs \<noteq> [] \<and> snd (snd (last xs))")
    case True
    obtain c k g where lst: "last xs = (c, k, g)" by (cases "last xs")
    have sp: "xs = butlast xs @ [(c, k, g)]" using True lst by (metis append_butlast_last_id)
    have nb: "no_adjacent_free (butlast xs @ [(c, k, True)])" using n(1) sp True lst by simp
    have "join_prev xs (merge_next (a, l, True) ys) = butlast xs @ (c, k + (l' + block_size), True) # ys'"
      using True lst by (simp add: join_prev_def mg)
    then show ?thesis unfolding eq using nb m by (auto simp: no_adjacent_append no_adjacent_Cons)
  next
    case False
    then show ?thesis unfolding eq mg using n(1) m by (auto simp: join_prev_def no_adjacent_append)
  qed
qed

lemma malloc_refines:
  assumes inv: "heap_inv s bs"
  shows "\<exists>m'. malloc n s = Some (fst (spec_malloc n bs), s\<lparr>mem := m'\<rparr>) \<and> heap_writes bs (mem s) m' \<and>
    heap_inv (s\<lparr>mem := m'\<rparr>) (snd (spec_malloc n bs))"
proof (cases "best_fit n bs None")
  case None
  have "heap_writes bs (mem s) (mem s)" by (simp add: heap_writes_def)
  then show ?thesis using malloc_none [OF inv None] inv None
    by (intro exI [of _ "mem s"]) (simp add: spec_malloc_def del: inv_update_mem)
next
  case (Some b)
  obtain a l f where b: "b = (a, l, f)" by (cases b)
  obtain xs ys m' where r: "bs = xs @ (a, l, True) # ys" "n \<le> l" "\<forall>c \<in> set xs. fst c \<noteq> a"
    "malloc n s = Some (a + block_size, s\<lparr>mem := m'\<rparr>)" "heap_writes bs (mem s) m'"
    "heap_inv (s\<lparr>mem := m'\<rparr>) (xs @ taken n a l @ ys)"
    using malloc_some [OF inv Some [unfolded b]] by blast
  have "spec_malloc n bs = (a + block_size, xs @ taken n a l @ ys)"
    using Some b replace_mid [OF r(3)] by (simp add: spec_malloc_def r(1))
  then show ?thesis using r(4-6) by (intro exI [of _ m']) (simp del: inv_update_mem)
qed

lemma malloc_no_adjacent:
  assumes inv: "heap_inv s bs" and na: "no_adjacent_free bs"
  shows "no_adjacent_free (snd (spec_malloc n bs))"
proof (cases "best_fit n bs None")
  case None
  then show ?thesis using na by (simp add: spec_malloc_def)
next
  case (Some b)
  obtain a l f where b: "b = (a, l, f)" by (cases b)
  obtain xs ys where r: "bs = xs @ (a, l, True) # ys" "\<forall>c \<in> set xs. fst c \<noteq> a"
    using malloc_some [OF inv Some [unfolded b]] by blast
  have "spec_malloc n bs = (a + block_size, xs @ taken n a l @ ys)"
    using Some b replace_mid [OF r(2)] by (simp add: spec_malloc_def r(1))
  then show ?thesis
    using na by (auto simp: r(1) taken_def no_adjacent_append no_adjacent_Cons)
qed

end
