(* ===== verification/Heap_Calls.thy ===== *)
theory Heap_Calls
  imports Heap_Props
begin

text \<open>
  The promises of the heap to its clients: \<open>initialise\<close> on top of the physical
  allocator, and the contract of every call, stated on the operations of the model.
\<close>

section \<open>initialise\<close>

text \<open>Memory the direct map reaches, with the last page of the address space left over.\<close>

definition below_top :: "'a pmm_scheme \<Rightarrow> bool" where
  "below_top s \<longleftrightarrow> mappable s \<and>
     (\<forall>i<MAX_SEGMENTS. seg_length (segments s ! i) \<noteq> 0 \<longrightarrow>
        unat (seg_base (segments s ! i)) + unat (seg_length (segments s ! i)) < 0x800000000000)"

lemma call_below_top:
  assumes "below_top s" and "pmm_call_run r s = (p, s1)"
  shows "below_top s1"
proof -
  have wf: "pmm_wf s" using assms(1) by (simp add: below_top_def mappable_def)
  note same = pmm_call_same [OF wf assms(2)]
  have "pmm_wf s1" by (rule pmm_src.request_wf [OF wf assms(2)])
  moreover have "length (segments s) = MAX_SEGMENTS" using wf by (simp add: pmm_wf_def segments_wf_def)
  ultimately show ?thesis
    using assms(1) same(2) seg_same_live(3,4) [OF same(1)] by (auto simp: below_top_def mappable_def)
qed

lemma granted_run_low:
  assumes "below_top s" and "pmm_call_run r s = (p, s1)" and "p \<noteq> 0"
  shows "unat p + 4096 * unat (pmm_call_pages r) < 0x800000000000"
proof -
  have wf: "pmm_wf s" using assms(1) by (simp add: below_top_def mappable_def)
  from wf assms(2) show ?thesis
  proof (cases rule: pmm_call_result)
    case (granted i k)
    let ?seg = "segments s ! i" and ?n = "unat (pmm_call_pages r)"
    have live: "i < MAX_SEGMENTS" "seg_live ?seg" "k + ?n \<le> seg_pages ?seg"
      using granted(1) by (auto simp: fits_def)
    have seg: "unat (seg_base ?seg) + unat (seg_length ?seg) < 0x800000000000"
      using assms(1) live(1,2) by (simp add: below_top_def seg_live_def)
    have "4096 * (k + ?n) \<le> unat (seg_length ?seg)" using live(3) by (simp add: seg_pages_def)
    moreover have "unat p = unat (seg_base ?seg) + 4096 * k"
    proof -
      have "unat (of_nat k * PAGE_SIZE) = 4096 * k"
        using calculation seg by (simp add: PAGE_SIZE_def unat_word_ariths unat_of_nat)
      then show ?thesis using granted(4) calculation seg by (simp add: unat_word_ariths)
    qed
    ultimately show ?thesis using seg by simp
  qed (use assms(3) in simp)
qed

lemma heap_fields_below_top [simp]:
  "below_top (s\<lparr>heap_base := x\<rparr>) = below_top s" "below_top (s\<lparr>heap_size := y\<rparr>) = below_top s"
  by (simp_all add: below_top_def mappable_def pmm_wf_def bitmap_wf_def)

lemma fits_fields [simp]:
  "fits (s\<lparr>heap_base := x\<rparr>) = fits (s :: 'a heap_scheme)" "fits (s\<lparr>heap_size := y\<rparr>) = fits s"
  "fits (t\<lparr>failed_allocation_count := c\<rparr>) = fits (t :: 'b pmm_scheme)"
  by (intro ext, simp add: fits_def run_free_def bitmap_test_def)+

lemma fits_fewer: "fits s n i k \<Longrightarrow> m \<le> n \<Longrightarrow> fits s m i k"
  by (auto simp: fits_def run_free_def)

lemma reserve_refused:
  assumes "below_top s" and "reserve_heap n s = (0, s1)" and "n \<noteq> 0"
  shows "\<not> fits s (unat n) i k" and "fits s1 = fits s"
proof -
  have wf: "pmm_wf s" "bitmap s \<noteq> 0" using assms(1) by (simp_all add: below_top_def mappable_def)
  then have sp: "alloc_spec 0 s n (0, s1)"
    using reserve_heap_spec [of s n] assms(2,3) by (simp add: pmm_wf_def)
  from alloc_spec_cases [OF wf(1) assms(3) sp]
  show "\<not> fits s (unat n) i k" "fits s1 = fits s" by (cases; simp)+
qed

lemma halvings:
  assumes "min_heap_size \<le> initial_size div 2 ^ j"
  shows "j \<le> 12" and "unat (initial_size div 2 ^ j) = 4096 * 2 ^ (20 - j)"
    and "unat (initial_size div 2 ^ j div 0x1000) = 2 ^ (20 - j)"
proof -
  have j64: "j < 64"
  proof (rule ccontr)
    assume "\<not> j < 64"
    then have "(2 ^ j :: u64) = 0" by (simp add: exp_eq_zero_iff)
    then have "min_heap_size \<le> initial_size div 0" using assms by metis
    then show False by (simp add: min_heap_size_def)
  qed
  have "(2 :: nat) ^ j < 2 ^ 64" using j64 by (rule power_strict_increasing) simp
  then have u: "unat (2 ^ j :: u64) = 2 ^ j" using unat_of_nat64 [of "2 ^ j"] by simp
  have e: "unat (initial_size div 2 ^ j) = 2 ^ 32 div 2 ^ j" by (simp add: unat_div u initial_size_def)
  show j: "j \<le> 12"
  proof (rule ccontr)
    assume "\<not> j \<le> 12"
    then have "(2 :: nat) ^ 13 \<le> 2 ^ j" by (intro power_increasing) simp_all
    then have "(2 :: nat) ^ 32 div 2 ^ j \<le> 2 ^ 32 div 2 ^ 13" by (intro div_le_mono2) simp_all
    then show False using assms e by (simp add: word_le_nat_alt min_heap_size_def)
  qed
  then have "(2 :: nat) ^ j * 2 ^ (32 - j) = 2 ^ 32" and "(2 :: nat) ^ 12 * 2 ^ (20 - j) = 2 ^ (32 - j)"
    by (simp_all only: power_add [symmetric]) simp_all
  moreover have "(2 :: nat) ^ j * 2 ^ (32 - j) div 2 ^ j = 2 ^ (32 - j)" by simp
  ultimately show f: "unat (initial_size div 2 ^ j) = 4096 * 2 ^ (20 - j)" using e by simp
  then show "unat (initial_size div 2 ^ j div 0x1000) = 2 ^ (20 - j)" by (simp add: unat_div)
qed

lemma few_halvings: "j < 13 \<Longrightarrow> min_heap_size \<le> initial_size div 2 ^ j"
proof -
  assume "j < 13"
  then have "j \<in> set [0..<13]" by simp
  moreover have "\<forall>j \<in> set [0..<13]. min_heap_size \<le> initial_size div 2 ^ j" by code_simp
  ultimately show ?thesis by blast
qed

lemma reserve_loop_spec:
  assumes "below_top s" and "heap_base s = 0" and "d = 2 ^ j" and "j \<le> 13"
    and "j = 13 \<Longrightarrow> \<forall>i k. \<not> fits s 256 i k"
  shows "below_top (reserve_loop d s) \<and>
    (if heap_base (reserve_loop d s) = 0 then \<forall>i k. \<not> fits s 256 i k
     else min_heap_size \<le> heap_size (reserve_loop d s) \<and>
       unat (heap_base (reserve_loop d s)) + unat (heap_size (reserve_loop d s)) < 0x800000000000)"
  using assms
proof (induction d s arbitrary: j rule: reserve_loop.induct)
  case (1 d s)
  show ?case
  proof (cases "min_heap_size \<le> initial_size div d")
    case False
    have "j = 13" using False few_halvings [of j] 1(4,5) by fastforce
    then show ?thesis using False 1(2,3,6) by (subst (1 2 3 4 5) reserve_loop.simps) simp
  next
    case True
    let ?s1 = "s\<lparr>heap_size := initial_size div d\<rparr>"
    note h = halvings [OF True [unfolded 1(4)]]
    obtain p s2 where r: "reserve_heap (initial_size div d div 0x1000) ?s1 = (p, s2)" by fastforce
    let ?s3 = "s2\<lparr>heap_base := p\<rparr>"
    have call: "pmm_call_run (Reserve_heap (initial_size div d div 0x1000)) ?s1 = (p, s2)" using r by simp
    have m1: "below_top ?s1" using 1(2) by simp
    have m2: "below_top ?s3" using call_below_top [OF m1 call] by simp
    have eq: "reserve_loop d s = reserve_loop (d * 2) ?s3"
      using True 1(3) r by (subst reserve_loop.simps) (simp add: Let_def)
    show ?thesis
    proof (cases "p = 0")
      case True': True
      have d2: "d * 2 = 2 ^ Suc j" using 1(4) by simp
      have nz: "initial_size div d div 0x1000 \<noteq> 0" using h(3) 1(4) by (auto simp: unat_eq_zero [symmetric])
      note ref = reserve_refused [OF m1 r [unfolded True'] nz]
      have none: "\<forall>i k. \<not> fits ?s3 256 i k" if "Suc j = 13"
        using ref h(3) 1(4) that by simp
      have "below_top (reserve_loop (d * 2) ?s3) \<and>
        (if heap_base (reserve_loop (d * 2) ?s3) = 0 then \<forall>i k. \<not> fits ?s3 256 i k
         else min_heap_size \<le> heap_size (reserve_loop (d * 2) ?s3) \<and>
           unat (heap_base (reserve_loop (d * 2) ?s3)) + unat (heap_size (reserve_loop (d * 2) ?s3)) < 0x800000000000)"
        using True' True 1(3) r m2 h(1) none d2
        by (intro 1(1) [of ?s1 p s2 "Suc j"]) simp_all
      then show ?thesis unfolding eq using ref(2) by (simp cong: if_cong)
    next
      case False
      have fin: "reserve_loop (d * 2) ?s3 = ?s3" using False by (subst reserve_loop.simps) simp
      have "unat p + unat (initial_size div d) < 0x800000000000"
        using granted_run_low [OF m1 call False] h(2,3) 1(4) by simp
      moreover have "heap_size s2 = initial_size div d"
        using pmm_call_form [OF _ call] m1 by (auto simp: below_top_def mappable_def)
      ultimately show ?thesis unfolding eq fin using m2 True False by simp
    qed
  qed
qed

lemma initialise_block:
  assumes "heap_base s \<noteq> 0" and "unat (heap_base s) + unat (heap_size s) < 0x800000000000"
    and "min_heap_size \<le> heap_size s"
  defines "p \<equiv> pa_to_va (heap_base s)"
  shows "heap_inv (s\<lparr>heap_base := p, mem := set_next p 0 (set_prev p 0 (set_is_free p True
           (set_length p (heap_size s - block_size) (set_base p (p + block_size) (mem s)))))\<rparr>)
       [(p, heap_size s - block_size, True)]"
proof -
  have p: "unat p = unat (heap_base s) + 0xFFFF800000000000"
    unfolding p_def using assms(2) by (intro pa_to_va_low(2)) simp
  have sz: "unat (heap_size s - block_size) = unat (heap_size s) - 40"
    using assms(3) by (simp add: unat_sub word_le_nat_alt min_heap_size_def block_size_def)
  have "p \<noteq> 0" using p by auto
  then show ?thesis
    using p sz assms(2,3)
    by (simp add: heap_inv_def word_le_nat_alt min_heap_size_def)
qed

text \<open>
  C24. \<open>initialise\<close> succeeds whenever the physical allocator still has one free run of
  256 frames (1 MiB): the halving requests then end with a region, and the heap is one free
  block that covers it.
\<close>

theorem heap_initialise_ready:
  assumes "below_top s" and "fits s 256 i k"
  shows "heap_inv (heap_initialise s)
      [(heap_base (heap_initialise s), heap_size (heap_initialise s) - block_size, True)] \<and>
    min_heap_size \<le> heap_size (heap_initialise s) \<and> HHDM \<le> heap_base (heap_initialise s)"
proof -
  let ?r = "reserve_loop 1 (s\<lparr>heap_base := 0\<rparr>)"
  have sp: "below_top ?r \<and> (if heap_base ?r = 0 then \<forall>i k. \<not> fits s 256 i k
      else min_heap_size \<le> heap_size ?r \<and> unat (heap_base ?r) + unat (heap_size ?r) < 0x800000000000)"
    using reserve_loop_spec [of "s\<lparr>heap_base := 0\<rparr>" 1 0] assms(1) by (simp cong: if_cong)
  have nz: "heap_base ?r \<noteq> 0"
  proof
    assume "heap_base ?r = 0"
    with sp have "\<forall>i k. \<not> fits s 256 i k" by simp
    with assms(2) show False by blast
  qed
  with sp have b: "min_heap_size \<le> heap_size ?r" "unat (heap_base ?r) + unat (heap_size ?r) < 0x800000000000"
    by simp_all
  note inv = initialise_block [OF nz b(2,1)]
  have "HHDM \<le> pa_to_va (heap_base ?r)" using b(2) by (intro pa_to_va_ge) simp
  then show ?thesis
    using inv b(1) by (simp add: heap_initialise_def Let_def del: inv_update_mem)
qed

definition demo_heap_off :: heap where
  "demo_heap_off = vmm.extend demo_vmm_off \<lparr>heap_base = 0, heap_size = 0\<rparr>"

lemma demo_heap_fresh: "pmm_fresh demo_heap_off" "mem demo_heap_off x = 0"
  using demo_off(1,2) by (simp_all add: pmm_fresh_def demo_heap_off_def vmm.defs)

theorem heap_initialise_ready_witness:
  "heap_inv (heap_initialise (pmm_initialise 0 (Some demo_map) demo_heap_off))
     [(heap_base (heap_initialise (pmm_initialise 0 (Some demo_map) demo_heap_off)),
       heap_size (heap_initialise (pmm_initialise 0 (Some demo_map) demo_heap_off)) - block_size, True)]"
proof -
  let ?s = "pmm_initialise 0 (Some demo_map) demo_heap_off"
  note b = demo_boot [OF demo_heap_fresh(1)]
  have wf: "pmm_wf ?s" by (rule pmm_initialise_establishes(1) [OF demo_heap_fresh(1) demo_machine(2-4)])
  have seg: "aligned (seg_base (segments ?s ! i)) \<and>
      unat (seg_base (segments ?s ! i)) + unat (seg_length (segments ?s ! i)) < 0x800000000000"
    if i: "i < MAX_SEGMENTS" "seg_length (segments ?s ! i) \<noteq> 0" for i
  proof -
    have "\<not> 2 < i" using i demo_segments_nth(4) [of i True] by (auto simp: b)
    then consider "i = 0" | "i = 1" | "i = 2" by linarith
    then show ?thesis
      by cases (use demo_segments_nth(1-3) [of True] in \<open>simp_all add: b aligned_def\<close>)
  qed
  then have low: "below_top ?s"
    using wf b(1) by (auto simp: below_top_def mappable_def intro: less_imp_le)
  have "\<not> bitmap_test ?s j" for j
    by (simp add: bitmap_test_def demo_boot_state [OF demo_heap_fresh(1)] filled_def demo_heap_fresh(2))
  then have "fits ?s 256 2 0"
    using demo_segments_nth(3) [of True]
    by (simp add: fits_def run_free_def b seg_live_def seg_pages_def MAX_SEGMENTS_def)
  then show ?thesis using heap_initialise_ready [OF low] by blast
qed

section \<open>What the heap promises\<close>

text \<open>
  A heap of one page: a block of 64 bytes in use at \<open>0x200000\<close>, the rest free.
\<close>

definition demo_header :: "u64 \<Rightarrow> u64 \<Rightarrow> bool \<Rightarrow> u64 \<Rightarrow> u64 \<Rightarrow> memory \<Rightarrow> memory" where
  "demo_header a l f p n m =
     set_next a n (set_prev a p (set_is_free a f (set_length a l (set_base a (a + block_size) m))))"

definition demo_heap :: heap where
  "demo_heap = demo_heap_off\<lparr>heap_base := 0x200000, heap_size := 0x1000,
     mem := demo_header 0x200000 64 False 0 0x200068
       (demo_header 0x200068 0xF70 True 0x200000 0 (\<lambda>_. 0))\<rparr>"

definition demo_blocks :: "blk list" where
  "demo_blocks = [(0x200000, 64, False), (0x200068, 0xF70, True)]"

lemma demo_heap_inv: "heap_inv demo_heap demo_blocks"
proof -
  have "sep 0x200000 block_size (0x200068 :: u64) block_size"
    by (intro apart_sep) (simp add: apart_def)
  then show ?thesis
    by (simp add: demo_heap_def demo_blocks_def heap_inv_def demo_header_def block_size_def [symmetric])
qed

text \<open>
  C4. From a well-formed heap, any sequence of \<open>malloc\<close>, \<open>malloc_aligned\<close>,
  \<open>calloc\<close>, \<open>free\<close> (of any pointer, valid or not) and \<open>defragment\<close>
  returns, leaves the heap well formed, and every block in use that the sequence does not free
  is still in use at the end, at the same place, with the same length and the same content.
\<close>

theorem heap_calls_keep_blocks:
  assumes "heap_inv s bs" and "\<forall>c \<in> set cs. call_allowed c"
  shows "\<exists>s' bs'. run_steps heap_step cs s = Some s' \<and> heap_inv s' bs' \<and>
    (\<forall>b \<in> live bs. (\<forall>c \<in> set cs. \<not> call_releases c b) \<longrightarrow> b \<in> live bs' \<and> block_data s' b = block_data s b)"
  using assms by (rule heap_store.run_keeps)

theorem heap_calls_keep_blocks_witness:
  "\<exists>s' bs'. run_steps heap_step [Malloc 100, Free 0x200090, Calloc 4 8, Free 7, Defragment, Malloc_aligned 32 6] demo_heap = Some s' \<and>
     heap_inv s' bs' \<and> (0x200000, 64) \<in> live bs' \<and>
     block_data s' (0x200000, 64) = block_data demo_heap (0x200000, 64)"
proof -
  let ?cs = "[Malloc 100, Free 0x200090, Calloc 4 8, Free 7, Defragment, Malloc_aligned 32 6]"
  have "(0x200000, 64) \<in> live demo_blocks" by (simp add: demo_blocks_def live_def)
  moreover have "\<forall>c \<in> set ?cs. \<not> call_releases c (0x200000, 64)" by (simp add: block_size_def)
  moreover have "\<forall>c \<in> set ?cs. call_allowed c" by simp
  ultimately show ?thesis using heap_calls_keep_blocks [OF demo_heap_inv, of ?cs] by metis
qed

text \<open>
  C5. \<open>malloc\<close> implements best fit on the list of blocks: it takes a smallest free
  block of at least \<open>n\<close> bytes, splits off what is left when a header still fits, returns
  the address behind the header, and returns null exactly when no free block is large enough. It
  writes headers and free memory only. A heap without adjacent free blocks stays one.
\<close>

theorem malloc_best_fit:
  assumes inv: "heap_inv s bs"
  shows "(\<exists>m'. malloc n s = Some (fst (spec_malloc n bs), s\<lparr>mem := m'\<rparr>) \<and> heap_writes bs (mem s) m' \<and>
      heap_inv (s\<lparr>mem := m'\<rparr>) (snd (spec_malloc n bs))) \<and>
    (fst (spec_malloc n bs) = 0 \<longleftrightarrow> (\<forall>b \<in> set bs. \<not> fitting n b)) \<and>
    (case best_fit n bs None of None \<Rightarrow> True
     | Some b \<Rightarrow> b \<in> set bs \<and> fitting n b \<and> (\<forall>c \<in> set bs. fitting n c \<longrightarrow> fst (snd b) \<le> fst (snd c))) \<and>
    (no_adjacent_free bs \<longrightarrow> no_adjacent_free (snd (spec_malloc n bs)))"
proof (intro conjI impI)
  note b = best_fit_spec [of None n bs, simplified]
  show "fst (spec_malloc n bs) = 0 \<longleftrightarrow> (\<forall>b \<in> set bs. \<not> fitting n b)"
    using b heap_base_ptr(2) [OF inv] by (auto simp: spec_malloc_def split: option.splits)
  show "case best_fit n bs None of None \<Rightarrow> True
     | Some b \<Rightarrow> b \<in> set bs \<and> fitting n b \<and> (\<forall>c \<in> set bs. fitting n c \<longrightarrow> fst (snd b) \<le> fst (snd c))"
    using b by (auto split: option.splits)
qed (use malloc_refines [OF inv] malloc_no_adjacent [OF inv] in simp_all)

theorem malloc_best_fit_witness:
  "\<exists>m'. malloc 100 demo_heap = Some (0x200090, demo_heap\<lparr>mem := m'\<rparr>) \<and>
     heap_inv (demo_heap\<lparr>mem := m'\<rparr>)
       [(0x200000, 64, False), (0x200068, 100, False), (0x2000F4, 0xEE4, True)]"
proof -
  have "spec_malloc 100 demo_blocks = (0x200090,
      [(0x200000, 64, False), (0x200068, 100, False), (0x2000F4, 0xEE4, True)])"
    by (simp add: spec_malloc_def demo_blocks_def taken_def block_size_def)
  then show ?thesis using malloc_best_fit [OF demo_heap_inv, of 100] by (auto simp del: inv_update_mem)
qed



lemma realloc_content:
  assumes inv: "heap_inv s bs" and b: "(a, l, False) \<in> set bs" and n: "n \<noteq> 0"
  shows "\<exists>p m' bs'. realloc (a + block_size) n s = Some (p, s\<lparr>mem := m'\<rparr>) \<and>
    heap_inv (s\<lparr>mem := m'\<rparr>) bs' \<and> intact (a + block_size) bs (mem s) bs' m' \<and>
    (if p = 0 then l < n \<and> m' = mem s \<and> bs' = bs
     else (\<exists>k \<ge> n. (p - block_size, k) \<in> live bs') \<and>
       (\<forall>i<min l n. m' (p + i) = mem s (a + block_size + i)))"
proof (cases "n \<le> l")
  case True
  obtain m' bs' where r: "realloc (a + block_size) n s = Some (a + block_size, s\<lparr>mem := m'\<rparr>)"
    "heap_inv (s\<lparr>mem := m'\<rparr>) bs'" "intact (a + block_size) bs (mem s) bs' m'" "(a, n) \<in> live bs'"
    "\<forall>i<l. m' (a + block_size + i) = mem s (a + block_size + i)"
    using realloc_shrink [OF inv b n True] by blast
  have "a + block_size \<noteq> 0" by (rule heap_base_ptr(2) [OF inv b])
  then show ?thesis using r
    by (intro exI [of _ "a + block_size"] exI [of _ m'] exI [of _ bs'] conjI) auto
next
  case False
  then have "l < n" by simp
  obtain p m' bs' where r: "realloc (a + block_size) n s = Some (p, s\<lparr>mem := m'\<rparr>)"
    "heap_inv (s\<lparr>mem := m'\<rparr>) bs'" "intact (a + block_size) bs (mem s) bs' m'"
    "if p = 0 then m' = mem s \<and> bs' = bs
     else (\<exists>k \<ge> n. (p - block_size, k) \<in> live bs') \<and> (\<forall>i<l. m' (p + i) = mem s (a + block_size + i))"
    using realloc_grow [OF inv b \<open>l < n\<close>] by blast
  then show ?thesis using \<open>l < n\<close>
    by (intro exI [of _ p] exI [of _ m'] exI [of _ bs'] conjI) (auto simp: min_def)
qed

text \<open>
  C11. \<open>realloc\<close> of a block in use to a nonzero size keeps its content: on success the
  first \<open>min(old, new)\<close> bytes behind the returned pointer are those of the old block, the
  new block has room for \<open>n\<close> bytes, and all other blocks in use keep place and content.
  When it fails nothing has changed and the old block is still in use.
\<close>

theorem realloc_keeps_content:
  assumes inv: "heap_inv s bs" and b: "(a, l, False) \<in> set bs" and n: "n \<noteq> 0"
  shows "\<exists>p m' bs'. realloc (a + block_size) n s = Some (p, s\<lparr>mem := m'\<rparr>) \<and>
    heap_inv (s\<lparr>mem := m'\<rparr>) bs' \<and> intact (a + block_size) bs (mem s) bs' m' \<and>
    (if p = 0 then l < n \<and> m' = mem s \<and> bs' = bs
     else (\<exists>k \<ge> n. (p - block_size, k) \<in> live bs') \<and>
       (\<forall>i<min l n. m' (p + i) = mem s (a + block_size + i)))"
  using assms by (rule realloc_content)

theorem realloc_keeps_content_witness:
  "\<exists>p m' bs'. realloc 0x200028 200 demo_heap = Some (p, demo_heap\<lparr>mem := m'\<rparr>) \<and>
     heap_inv (demo_heap\<lparr>mem := m'\<rparr>) bs' \<and>
     (p = 0 \<or> (\<forall>i<64. m' (p + i) = mem demo_heap (0x200028 + i)))"
proof -
  have "(0x200000, 64, False) \<in> set demo_blocks" by (simp add: demo_blocks_def)
  note r = realloc_keeps_content [OF demo_heap_inv this, of 200]
  have e: "0x200000 + block_size = 0x200028" "min 64 (200 :: u64) = 64" by (simp_all add: block_size_def)
  obtain p m' bs' where "realloc 0x200028 200 demo_heap = Some (p, demo_heap\<lparr>mem := m'\<rparr>)"
    "heap_inv (demo_heap\<lparr>mem := m'\<rparr>) bs'"
    "if p = 0 then 64 < (200 :: u64) \<and> m' = mem demo_heap \<and> bs' = demo_blocks
     else (\<exists>k \<ge> 200. (p - block_size, k) \<in> live bs') \<and>
       (\<forall>i<64. m' (p + i) = mem demo_heap (0x200028 + i))"
    using r unfolding e by auto
  then show ?thesis by (intro exI [of _ p] exI [of _ m'] exI [of _ bs'] conjI) (auto split: if_splits)
qed

text \<open>
  C25. \<open>defragment\<close> terminates on every well-formed heap, leaves no two adjacent free
  blocks, keeps the blocks in use in their order and writes headers only.
\<close>

theorem defragment_terminates:
  assumes "heap_inv s bs"
  shows "\<exists>m' bs'. defragment s = Some (s\<lparr>mem := m'\<rparr>) \<and> heap_inv (s\<lparr>mem := m'\<rparr>) bs' \<and>
    no_adjacent_free bs' \<and> filter (\<lambda>b. \<not> snd (snd b)) bs' = filter (\<lambda>b. \<not> snd (snd b)) bs \<and>
    header_writes bs (mem s) m'"
  using defragment_spec [OF assms] spec_defragment_done [of bs] spec_defragment_live [of bs] by blast

theorem defragment_terminates_witness:
  "\<exists>m' bs'. defragment demo_heap = Some (demo_heap\<lparr>mem := m'\<rparr>) \<and>
     heap_inv (demo_heap\<lparr>mem := m'\<rparr>) bs' \<and> (0x200000, 64, False) \<in> set bs'"
proof -
  obtain m' bs' where r: "defragment demo_heap = Some (demo_heap\<lparr>mem := m'\<rparr>)"
    "heap_inv (demo_heap\<lparr>mem := m'\<rparr>) bs'"
    "filter (\<lambda>b. \<not> snd (snd b)) bs' = filter (\<lambda>b. \<not> snd (snd b)) demo_blocks"
    using defragment_terminates [OF demo_heap_inv] by blast
  have "(0x200000, 64, False) \<in> set (filter (\<lambda>b. \<not> snd (snd b)) demo_blocks)"
    by (simp add: demo_blocks_def)
  then have "(0x200000, 64, False) \<in> set bs'" unfolding r(3) [symmetric] by simp
  with r(1,2) show ?thesis by blast
qed



end
