(* ===== verification/Ps2k.thy ===== *)
theory Ps2k
  imports Pit Keycodes Heap_Calls "HOL-Library.Monad_Syntax"
begin

unbundle bit_operations_syntax

text \<open>
  The keyboard driver, \<open>kernel/src/drivers/input/ps2k/ps2k.cpp\<close> with
  \<open>ps2k_key_event.hpp\<close>: the ring buffer of key events, the controller accesses, the
  interrupt handler with its scan code state, and the reading operations.

  The slots of the buffer are a function of the index. The build configuration
  (\<open>config.hpp\<close> is generated) is the record \<open>ps2k_config\<close>. A call through the function
  pointer \<open>callback\<close> is the argument \<open>call\<close>: what the function at an address does with
  an event. The waits for the controller may never end and are partial functions.
\<close>

section \<open>Data\<close>

datatype key_state = RELEASED | PRESSED

record key_event =
  ev_keycode :: u16
  ev_state :: key_state
  ev_timestamp :: u64

definition sizeof_key_event :: u64 where "sizeof_key_event = 16"

record event_buffer =
  eb_ptr :: u64
  eb_events :: "u64 \<Rightarrow> key_event"
  eb_capacity :: u64
  eb_head :: u64
  eb_tail :: u64
  eb_count :: u64
  eb_drop_events :: bool
  eb_callback :: u64
  eb_callback_userdata :: u64

datatype scan_state = NORMAL | EXTENDED_E0 | EXTENDED_E1

record 'd ps2k = "'d pit" +
  evbuf :: event_buffer
  current_scan_state :: scan_state
  scancode_to_keycode :: "keycode list"
  extended_scancode_to_keycode :: "keycode list"

datatype buffer_source = Static_buffer u64 | Heap_buffer | Page_buffer

record ps2k_config =
  cfg_initial_buf_size :: u64
  cfg_source :: buffer_source
  cfg_drop_events :: bool

definition EINVAL :: int where "EINVAL = 28"
definition ENOSYS :: int where "ENOSYS = 55"

section \<open>The event buffer\<close>

definition buffer_is_empty :: "event_buffer \<Rightarrow> bool" where
  "buffer_is_empty buf \<longleftrightarrow> eb_count buf = 0"

definition buffer_is_full :: "event_buffer \<Rightarrow> bool" where
  "buffer_is_full buf \<longleftrightarrow> eb_capacity buf \<le> eb_count buf"

definition flush_buffer :: "event_buffer \<Rightarrow> event_buffer" where
  "flush_buffer buf = buf\<lparr>eb_head := 0, eb_tail := 0, eb_count := 0\<rparr>"

text \<open>\<open>buffer_push\<close> up to the call of the callback.\<close>

definition buffer_store :: "key_event \<Rightarrow> event_buffer \<Rightarrow> bool \<times> event_buffer" where
  "buffer_store ev buf =
     (if buffer_is_full buf \<and> eb_drop_events buf then (False, buf)
      else
        let b = (if buffer_is_full buf then flush_buffer buf else buf)
        in (True, b\<lparr>eb_events := (eb_events b)(eb_tail b := ev),
                    eb_tail := (eb_tail b + 1) mod eb_capacity b, eb_count := eb_count b + 1\<rparr>))"

definition buffer_push ::
  "(u64 \<Rightarrow> key_event \<Rightarrow> u64 \<Rightarrow> ('d, 'a) ps2k_scheme \<Rightarrow> ('d, 'a) ps2k_scheme) \<Rightarrow> key_event \<Rightarrow>
   ('d, 'a) ps2k_scheme \<Rightarrow> bool \<times> ('d, 'a) ps2k_scheme" where
  "buffer_push call ev c =
     (case buffer_store ev (evbuf c) of (ok, b) \<Rightarrow>
        if \<not> ok then (False, c)
        else
          let c1 = c\<lparr>evbuf := b\<rparr>
          in (True, if eb_callback b \<noteq> 0 then call (eb_callback b) ev (eb_callback_userdata b) c1 else c1))"

definition buffer_pop :: "event_buffer \<Rightarrow> (key_event \<times> event_buffer) option" where
  "buffer_pop buf =
     (if buffer_is_empty buf then None
      else Some (eb_events buf (eb_head buf),
                 buf\<lparr>eb_head := (eb_head buf + 1) mod eb_capacity buf, eb_count := eb_count buf - 1\<rparr>))"

section \<open>The controller\<close>

definition PS2_DATA_PORT :: u16 where "PS2_DATA_PORT = 0x60"
definition PS2_STATUS_PORT :: u16 where "PS2_STATUS_PORT = 0x64"
abbreviation (input) KBD_CMD_RESET :: u8 where "KBD_CMD_RESET \<equiv> 0xFF"
abbreviation (input) KBD_CMD_ENABLE :: u8 where "KBD_CMD_ENABLE \<equiv> 0xF4"
definition PS2_STATUS_OUTPUT_FULL :: u8 where "PS2_STATUS_OUTPUT_FULL = 1"
definition PS2_STATUS_INPUT_FULL :: u8 where "PS2_STATUS_INPUT_FULL = 2"

definition ps2_output_ready :: "'d device \<Rightarrow> ('d, 'a) cpu_scheme \<Rightarrow> bool \<times> ('d, 'a) cpu_scheme" where
  "ps2_output_ready hw c =
     (case inb hw PS2_STATUS_PORT c of (v, c1) \<Rightarrow> (v AND PS2_STATUS_OUTPUT_FULL \<noteq> 0, c1))"

definition ps2_input_ready :: "'d device \<Rightarrow> ('d, 'a) cpu_scheme \<Rightarrow> bool \<times> ('d, 'a) cpu_scheme" where
  "ps2_input_ready hw c =
     (case inb hw PS2_STATUS_PORT c of (v, c1) \<Rightarrow> (\<not> v AND PS2_STATUS_INPUT_FULL \<noteq> 0, c1))"

partial_function (option) ps2_read_data :: "'d device \<Rightarrow> ('d, 'a) cpu_scheme \<Rightarrow> (u8 \<times> ('d, 'a) cpu_scheme) option" where
  "ps2_read_data hw c =
     (case ps2_output_ready hw c of (ready, c1) \<Rightarrow>
        if \<not> ready then ps2_read_data hw c1 else Some (inb hw PS2_DATA_PORT c1))"

partial_function (option) ps2_write_data :: "'d device \<Rightarrow> u8 \<Rightarrow> ('d, 'a) cpu_scheme \<Rightarrow> ('d, 'a) cpu_scheme option" where
  "ps2_write_data hw data c =
     (case ps2_input_ready hw c of (ready, c1) \<Rightarrow>
        if \<not> ready then ps2_write_data hw data c1 else Some (outb hw PS2_DATA_PORT data c1))"

section \<open>The interrupt handler\<close>

text \<open>The part of the handler after the scan code is read.\<close>

definition handle_scancode ::
  "'d device \<Rightarrow> (u64 \<Rightarrow> key_event \<Rightarrow> u64 \<Rightarrow> ('d, 'a) ps2k_scheme \<Rightarrow> ('d, 'a) ps2k_scheme) \<Rightarrow> u8 \<Rightarrow>
   ('d, 'a) ps2k_scheme \<Rightarrow> ('d, 'a) ps2k_scheme" where
  "handle_scancode hw call scancode c =
     (if scancode = 0xE0 then send_eoi hw 1 (c\<lparr>current_scan_state := EXTENDED_E0\<rparr>)
      else if scancode = 0xE1 then send_eoi hw 1 (c\<lparr>current_scan_state := EXTENDED_E1\<rparr>)
      else
        let pressed = (scancode AND 0x80 = 0);
            code = scancode AND 0x7F
        in if current_scan_state c = EXTENDED_E1 then send_eoi hw 1 (c\<lparr>current_scan_state := NORMAL\<rparr>)
           else
             let kc = (if current_scan_state c = EXTENDED_E0
                       then extended_scancode_to_keycode c ! unat code else scancode_to_keycode c ! unat code);
                 c1 = c\<lparr>current_scan_state := NORMAL\<rparr>;
                 c2 = (if kc \<noteq> KEY_NONE
                       then snd (buffer_push call
                              \<lparr>ev_keycode = kc, ev_state = (if pressed then PRESSED else RELEASED),
                               ev_timestamp = ns_elapsed_time c1\<rparr> c1)
                       else c1)
             in send_eoi hw 1 c2)"

definition ps2k_interrupt_handler ::
  "'d device \<Rightarrow> (u64 \<Rightarrow> key_event \<Rightarrow> u64 \<Rightarrow> ('d, 'a) ps2k_scheme \<Rightarrow> ('d, 'a) ps2k_scheme) \<Rightarrow>
   ('d, 'a) ps2k_scheme \<Rightarrow> ('d, 'a) ps2k_scheme" where
  "ps2k_interrupt_handler hw call c =
     (case inb hw PS2_DATA_PORT c of (scancode, c1) \<Rightarrow> handle_scancode hw call scancode c1)"

section \<open>Reading\<close>

text \<open>
  The loops of \<open>ps2k_read\<close> and \<open>read_events\<close>: pop until the buffer is empty or enough
  events are read. The events stored in the caller's array are returned as a list.
\<close>

fun pop_events :: "nat \<Rightarrow> event_buffer \<Rightarrow> key_event list \<times> event_buffer" where
  "pop_events 0 buf = ([], buf)"
| "pop_events (Suc n) buf =
     (case buffer_pop buf of
        None \<Rightarrow> ([], buf)
      | Some (ev, b1) \<Rightarrow> (case pop_events n b1 of (evs, b2) \<Rightarrow> (ev # evs, b2)))"

definition ps2k_read :: "u64 \<Rightarrow> ('d, 'a) ps2k_scheme \<Rightarrow> int \<times> key_event list \<times> ('d, 'a) ps2k_scheme" where
  "ps2k_read count c =
     (if count < sizeof_key_event then (- EINVAL, [], c)
      else
        case pop_events (unat (count div sizeof_key_event)) (evbuf c) of (evs, b) \<Rightarrow>
          (sint (of_nat (length evs) * sizeof_key_event), evs, c\<lparr>evbuf := b\<rparr>))"

definition ps2k_write :: int where "ps2k_write = - ENOSYS"

text \<open>The value stored through \<open>arg\<close> is the second component.\<close>

definition ps2k_ioctl :: "u64 \<Rightarrow> u64 \<Rightarrow> ('d, 'a) ps2k_scheme \<Rightarrow> int \<times> u64 option \<times> ('d, 'a) ps2k_scheme" where
  "ps2k_ioctl request arg c =
     (if request = 0x1000 then if arg \<noteq> 0 then (0, Some (eb_count (evbuf c)), c) else (- EINVAL, None, c)
      else if request = 0x1001 then (0, None, c\<lparr>evbuf := flush_buffer (evbuf c)\<rparr>)
      else (- EINVAL, None, c))"

definition ps2k_read_event :: "('d, 'a) ps2k_scheme \<Rightarrow> key_event option \<times> ('d, 'a) ps2k_scheme" where
  "ps2k_read_event c =
     (case buffer_pop (evbuf c) of None \<Rightarrow> (None, c) | Some (ev, b) \<Rightarrow> (Some ev, c\<lparr>evbuf := b\<rparr>))"

definition read_events :: "u64 \<Rightarrow> ('d, 'a) ps2k_scheme \<Rightarrow> u64 \<times> key_event list \<times> ('d, 'a) ps2k_scheme" where
  "read_events max_events c =
     (case pop_events (unat max_events) (evbuf c) of (evs, b) \<Rightarrow>
        (of_nat (length evs), evs, c\<lparr>evbuf := b\<rparr>))"

definition available_events :: "('d, 'a) ps2k_scheme \<Rightarrow> u64" where
  "available_events c = eb_count (evbuf c)"

definition flush_events :: "('d, 'a) ps2k_scheme \<Rightarrow> ('d, 'a) ps2k_scheme" where
  "flush_events c = c\<lparr>evbuf := flush_buffer (evbuf c)\<rparr>"

definition set_event_callback :: "u64 \<Rightarrow> u64 \<Rightarrow> ('d, 'a) ps2k_scheme \<Rightarrow> ('d, 'a) ps2k_scheme" where
  "set_event_callback fn userdata c =
     c\<lparr>evbuf := (evbuf c)\<lparr>eb_callback := fn, eb_callback_userdata := userdata\<rparr>\<rparr>"

definition clear_event_callback :: "('d, 'a) ps2k_scheme \<Rightarrow> ('d, 'a) ps2k_scheme" where
  "clear_event_callback c = c\<lparr>evbuf := (evbuf c)\<lparr>eb_callback := 0, eb_callback_userdata := 0\<rparr>\<rparr>"

section \<open>Initialisation\<close>

definition allocate_events :: "ps2k_config \<Rightarrow> 'b heap_scheme \<Rightarrow> (u64 \<times> 'b heap_scheme) option" where
  "allocate_events cfg s =
     (case cfg_source cfg of
        Static_buffer p \<Rightarrow> Some (p, s)
      | Heap_buffer \<Rightarrow> malloc (cfg_initial_buf_size cfg * sizeof_key_event) s
      | Page_buffer \<Rightarrow> Some (valloc ((cfg_initial_buf_size cfg * sizeof_key_event + 0xFFF) div 0x1000) s))"

definition ps2k_initialise ::
  "'d device \<Rightarrow> ps2k_config \<Rightarrow> u64 \<Rightarrow> 'b heap_scheme \<Rightarrow> ('d, 'a) ps2k_scheme \<Rightarrow>
   ('b heap_scheme \<times> ('d, 'a) ps2k_scheme) option" where
  "ps2k_initialise hw cfg handler_addr s c = do {
     (p, s1) \<leftarrow> allocate_events cfg s;
     let c1 = c\<lparr>evbuf := (evbuf c)\<lparr>eb_capacity := cfg_initial_buf_size cfg, eb_ptr := p,
                eb_drop_events := cfg_drop_events cfg\<rparr>\<rparr>;
     if p = 0 then Some (s1, c1)
     else do {
       let c2 = c1\<lparr>evbuf := (evbuf c1)\<lparr>eb_head := 0, eb_tail := 0, eb_count := 0, eb_callback := 0,
                  eb_callback_userdata := 0\<rparr>,
                  scancode_to_keycode := fst init_scancode_map,
                  extended_scancode_to_keycode := snd init_scancode_map\<rparr>;
       c3 \<leftarrow> ps2_write_data hw KBD_CMD_RESET c2;
       (_, c4) \<leftarrow> ps2_read_data hw c3;
       (_, c5) \<leftarrow> ps2_read_data hw c4;
       c6 \<leftarrow> ps2_write_data hw KBD_CMD_ENABLE c5;
       (_, c7) \<leftarrow> ps2_read_data hw c6;
       Some (s1, send_eoi hw 1 (set_descriptor hw 0x21 handler_addr 0x8E c7)) } }"

section \<open>The buffer as a queue\<close>

text \<open>
  A queue of bounded size: what the reading and writing operations may rely on. A full queue
  either refuses the element or forgets everything it holds.
\<close>

locale bounded_fifo =
  fixes enq :: "'e \<Rightarrow> 'q \<Rightarrow> bool \<times> 'q"
    and deq :: "'q \<Rightarrow> ('e \<times> 'q) option"
    and contents :: "'q \<Rightarrow> 'e list"
    and room :: "'q \<Rightarrow> nat"
    and refuses :: "'q \<Rightarrow> bool"
    and ok :: "'q \<Rightarrow> bool"
  assumes enq_ok: "ok q \<Longrightarrow> ok (snd (enq e q)) \<and> room (snd (enq e q)) = room q \<and> refuses (snd (enq e q)) = refuses q"
    and enq_contents: "ok q \<Longrightarrow> contents (snd (enq e q)) =
      (if length (contents q) < room q then contents q @ [e] else if refuses q then contents q else [e])"
    and enq_result: "ok q \<Longrightarrow> fst (enq e q) \<longleftrightarrow> length (contents q) < room q \<or> \<not> refuses q"
    and deq_none: "ok q \<Longrightarrow> deq q = None \<longleftrightarrow> contents q = []"
    and deq_some: "ok q \<Longrightarrow> deq q = Some (e, q') \<Longrightarrow>
      ok q' \<and> contents q = e # contents q' \<and> room q' = room q \<and> refuses q' = refuses q"
begin

text \<open>Elements that fit are kept in their order.\<close>

lemma enq_all:
  "ok q \<Longrightarrow> length (contents q) + length es \<le> room q \<Longrightarrow>
     ok (fold (\<lambda>e q. snd (enq e q)) es q) \<and> room (fold (\<lambda>e q. snd (enq e q)) es q) = room q \<and>
     contents (fold (\<lambda>e q. snd (enq e q)) es q) = contents q @ es"
proof (induction es arbitrary: q)
  case (Cons e es)
  then have c: "contents (snd (enq e q)) = contents q @ [e]" by (simp add: enq_contents)
  have "ok (snd (enq e q))" "room (snd (enq e q)) = room q" using enq_ok [OF Cons.prems(1)] by simp_all
  with Cons.IH [of "snd (enq e q)"] Cons.prems(2) c show ?case by simp
qed simp

text \<open>A loop that removes elements until the queue is empty or the number is reached.\<close>

lemma drain:
  assumes "\<And>q. d 0 q = ([], q)"
    and "\<And>n q. d (Suc n) q = (case deq q of None \<Rightarrow> ([], q)
      | Some (e, q1) \<Rightarrow> (case d n q1 of (es, q2) \<Rightarrow> (e # es, q2)))"
    and "ok q" and "d n q = (es, q')"
  shows "es = take n (contents q) \<and> contents q' = drop n (contents q) \<and> ok q' \<and> room q' = room q"
  using assms(3,4)
proof (induction n arbitrary: q es)
  case 0
  then show ?case by (simp add: assms(1))
next
  case (Suc n)
  show ?case
  proof (cases "deq q")
    case None
    then have "contents q = []" using deq_none [OF Suc.prems(1)] by simp
    then show ?thesis using Suc.prems None by (simp add: assms(2))
  next
    case (Some r)
    obtain e q1 where r: "r = (e, q1)" by fastforce
    note q1 = deq_some [OF Suc.prems(1) Some [unfolded r]]
    obtain es1 q2 where d: "d n q1 = (es1, q2)" by fastforce
    then have "es = e # es1" "q' = q2" using Suc.prems(2) Some by (simp_all add: assms(2) r)
    with Suc.IH [of q1 es1] q1 d show ?thesis by simp
  qed
qed

end

definition buf_wf :: "event_buffer \<Rightarrow> bool" where
  "buf_wf b \<longleftrightarrow> 0 < eb_capacity b \<and> unat (eb_capacity b) < 2 ^ 63 \<and> eb_head b < eb_capacity b \<and>
     eb_count b \<le> eb_capacity b \<and>
     unat (eb_tail b) = (unat (eb_head b) + unat (eb_count b)) mod unat (eb_capacity b)"

definition buf_list :: "event_buffer \<Rightarrow> key_event list" where
  "buf_list b = map (\<lambda>i. eb_events b (of_nat ((unat (eb_head b) + i) mod unat (eb_capacity b))))
     [0..<unat (eb_count b)]"

lemma length_buf_list [simp]: "length (buf_list b) = unat (eb_count b)"
  by (simp add: buf_list_def)

text \<open>Moving an index of the ring by one slot.\<close>

lemma next_slot:
  fixes i cap :: u64
  assumes "i < cap" "unat cap < 2 ^ 63"
  shows "unat ((i + 1) mod cap) = (unat i + 1) mod unat cap"
proof -
  have "unat (i + 1) = unat i + 1"
    using unat_add_of_nat [of i 1] assms by (simp add: word_less_nat_alt)
  then show ?thesis by (simp add: unat_mod)
qed

lemma mod_offset_neq:
  fixes h i n c :: nat
  assumes "i < n" "n < c"
  shows "(h + i) mod c \<noteq> (h + n) mod c"
proof
  assume "(h + i) mod c = (h + n) mod c"
  then have "c dvd (h + n) - (h + i)" using assms by (metis add_le_cancel_left less_imp_le mod_eq_dvd_iff_nat)
  then show False using assms by (simp add: nat_dvd_not_less)
qed

lemma flush_wf: "buf_wf b \<Longrightarrow> buf_wf (flush_buffer b) \<and> buf_list (flush_buffer b) = []"
  by (simp add: buf_wf_def flush_buffer_def buf_list_def)

lemma store_room:
  assumes wf: "buf_wf b" and room: "eb_count b < eb_capacity b"
    and b': "b' = b\<lparr>eb_events := (eb_events b)(eb_tail b := ev),
      eb_tail := (eb_tail b + 1) mod eb_capacity b, eb_count := eb_count b + 1\<rparr>"
  shows "buf_wf b' \<and> buf_list b' = buf_list b @ [ev]"
proof
  let ?c = "unat (eb_capacity b)" and ?h = "unat (eb_head b)" and ?n = "unat (eb_count b)"
  have lt: "?n < ?c" "?c < 2 ^ 63" "0 < ?c"
    using wf room by (simp_all add: buf_wf_def word_less_nat_alt)
  have tail: "unat (eb_tail b) = (?h + ?n) mod ?c" using wf by (simp add: buf_wf_def)
  then have tl: "eb_tail b < eb_capacity b" using lt by (simp add: word_less_nat_alt)
  have cnt: "unat (eb_count b + 1) = ?n + 1" using unat_add_of_nat [of "eb_count b" 1] lt by simp
  have "unat ((eb_tail b + 1) mod eb_capacity b) = (?h + (?n + 1)) mod ?c"
    using next_slot [OF tl lt(2)] by (simp add: tail mod_simps)
  then show "buf_wf b'" using wf lt cnt by (simp add: buf_wf_def b' word_le_nat_alt)
  have t: "eb_tail b = of_nat ((?h + ?n) mod ?c)" unfolding tail [symmetric] by simp
  have small: "(?h + i) mod ?c < 2 ^ 64" for i
    using mod_less_divisor [OF lt(3), of "?h + i"] lt(2) by simp
  have "of_nat ((?h + i) mod ?c) \<noteq> eb_tail b" if "i < ?n" for i
    using mod_offset_neq [OF that lt(1), of ?h] arg_cong [of _ _ "unat :: u64 \<Rightarrow> nat"] small
      unat_of_nat64 unfolding t by metis
  then have "map (\<lambda>i. ((eb_events b)(eb_tail b := ev)) (of_nat ((?h + i) mod ?c))) [0..<?n] = buf_list b"
    by (simp add: buf_list_def)
  then show "buf_list b' = buf_list b @ [ev]"
    unfolding buf_list_def [of b'] by (simp add: b' cnt t)
qed

lemma pop_some:
  assumes wf: "buf_wf b" and some: "buffer_pop b = Some (ev, b')"
  shows "buf_wf b' \<and> buf_list b = ev # buf_list b' \<and> eb_capacity b' = eb_capacity b \<and>
    eb_drop_events b' = eb_drop_events b"
proof -
  let ?c = "unat (eb_capacity b)" and ?h = "unat (eb_head b)" and ?n = "unat (eb_count b)"
  have ne: "eb_count b \<noteq> 0" and ev: "ev = eb_events b (eb_head b)"
    and b': "b' = b\<lparr>eb_head := (eb_head b + 1) mod eb_capacity b, eb_count := eb_count b - 1\<rparr>"
    using some by (auto simp: buffer_pop_def buffer_is_empty_def split: if_splits)
  have lt: "?h < ?c" "?c < 2 ^ 63" "0 < ?c" "?n \<le> ?c"
    and tail: "unat (eb_tail b) = (?h + ?n) mod ?c"
    using wf by (simp_all add: buf_wf_def word_less_nat_alt word_le_nat_alt)
  have n: "0 < ?n" using ne by (simp add: unat_gt_0)
  then have cnt: "unat (eb_count b - 1) = ?n - 1" by (simp add: unat_sub_if')
  have hd: "unat ((eb_head b + 1) mod eb_capacity b) = (?h + 1) mod ?c"
    using wf by (intro next_slot) (simp_all add: buf_wf_def)
  then have "(eb_head b + 1) mod eb_capacity b < eb_capacity b" using lt by (simp add: word_less_nat_alt)
  moreover have "((?h + 1) mod ?c + (?n - 1)) mod ?c = (?h + ?n) mod ?c"
    using n unfolding mod_add_left_eq by simp
  ultimately have wf': "buf_wf b'"
    using lt wf cnt hd tail unfolding buf_wf_def by (simp add: b' word_le_nat_alt)
  have "buf_list b' = map (\<lambda>i. eb_events b (of_nat ((?h + Suc i) mod ?c))) [0..<?n - 1]"
    unfolding buf_list_def by (simp add: b' cnt hd mod_simps)
  moreover have "map f [0..<?n] = f 0 # map (\<lambda>i. f (Suc i)) [0..<?n - 1]" for f :: "nat \<Rightarrow> key_event"
    using n map_upt_Suc [of f "?n - 1"] by simp
  ultimately have "buf_list b = ev # buf_list b'"
    using lt(1) unfolding buf_list_def [of b] ev by simp
  with wf' show ?thesis by (simp add: b')
qed

lemma store_spec:
  assumes wf: "buf_wf b"
  shows "buf_wf (snd (buffer_store ev b)) \<and> eb_capacity (snd (buffer_store ev b)) = eb_capacity b \<and>
    eb_drop_events (snd (buffer_store ev b)) = eb_drop_events b \<and>
    buf_list (snd (buffer_store ev b)) =
      (if eb_count b < eb_capacity b then buf_list b @ [ev]
       else if eb_drop_events b then buf_list b else [ev]) \<and>
    (fst (buffer_store ev b) \<longleftrightarrow> eb_count b < eb_capacity b \<or> \<not> eb_drop_events b)"
proof (cases "eb_count b < eb_capacity b")
  case True
  then have "\<not> buffer_is_full b" by (simp add: buffer_is_full_def not_le)
  then show ?thesis using store_room [OF wf True refl, of ev] True by (simp add: buffer_store_def)
next
  case full: False
  then have f: "buffer_is_full b" by (simp add: buffer_is_full_def not_less)
  show ?thesis
  proof (cases "eb_drop_events b")
    case True
    then show ?thesis using f full wf by (simp add: buffer_store_def)
  next
    case False
    have "eb_count (flush_buffer b) < eb_capacity (flush_buffer b)"
      using wf by (simp add: flush_buffer_def buf_wf_def)
    from store_room [OF conjunct1 [OF flush_wf [OF wf]] this refl, of ev] flush_wf [OF wf]
    show ?thesis using f full False by (simp add: buffer_store_def Let_def) (simp add: flush_buffer_def)
  qed
qed

lemma pop_none: "buffer_pop b = None \<longleftrightarrow> buf_list b = []"
proof -
  have "buf_list b = [] \<longleftrightarrow> eb_count b = 0" by (metis length_buf_list length_0_conv unat_eq_zero)
  moreover have "buffer_pop b = None \<longleftrightarrow> eb_count b = 0"
    unfolding buffer_pop_def buffer_is_empty_def by (cases "eb_count b = 0") simp_all
  ultimately show ?thesis by blast
qed

interpretation event_queue: bounded_fifo
  buffer_store buffer_pop buf_list "\<lambda>b. unat (eb_capacity b)" eb_drop_events buf_wf
proof (unfold_locales, goal_cases)
  case (1 b e)
  then show ?case by (simp add: store_spec)
next
  case (2 b e)
  then show ?case by (simp add: store_spec word_less_nat_alt)
next
  case (3 b e)
  then show ?case by (simp add: store_spec word_less_nat_alt)
next
  case (4 b)
  show ?case by (rule pop_none)
next
  case (5 b e b')
  then show ?case by (simp add: pop_some [of b e b'])
qed

text \<open>
  C14. The ring buffer is a first-in first-out queue: after events that fit were stored, the
  reading loop returns the oldest ones in the order they came, up to the number asked for, and
  the buffer keeps the rest; a full buffer refuses the event if dropping is configured and
  otherwise forgets what it holds.
\<close>

theorem event_buffer_fifo:
  assumes "buf_wf b" and "length (buf_list b) + length evs \<le> unat (eb_capacity b)"
    and "pop_events n (fold (\<lambda>e b. snd (buffer_store e b)) evs b) = (got, b')"
  shows "got = take n (buf_list b @ evs) \<and> buf_list b' = drop n (buf_list b @ evs) \<and> buf_wf b' \<and>
    (length (buf_list b) = unat (eb_capacity b) \<longrightarrow>
       (if eb_drop_events b then buffer_store ev b = (False, b)
        else fst (buffer_store ev b) \<and> buf_list (snd (buffer_store ev b)) = [ev]))"
proof -
  note q = event_queue.enq_all [OF assms(1,2)]
  have "buffer_store ev b = (False, b)" if "length (buf_list b) = unat (eb_capacity b)" "eb_drop_events b"
    using that by (simp add: buffer_store_def buffer_is_full_def word_le_nat_alt)
  moreover have "fst (buffer_store ev b) \<and> buf_list (snd (buffer_store ev b)) = [ev]"
    if "length (buf_list b) = unat (eb_capacity b)" "\<not> eb_drop_events b"
    using that store_spec [OF assms(1), of ev] by (simp add: word_less_nat_alt)
  ultimately show ?thesis
    using event_queue.drain [OF pop_events.simps conjunct1 [OF q] assms(3)] q by simp
qed

definition no_event :: key_event where
  "no_event = \<lparr>ev_keycode = 0, ev_state = RELEASED, ev_timestamp = 0\<rparr>"

definition demo_buffer :: event_buffer where
  "demo_buffer = \<lparr>eb_ptr = 0x8000, eb_events = \<lambda>_. no_event, eb_capacity = 3, eb_head = 2, eb_tail = 0,
     eb_count = 1, eb_drop_events = True, eb_callback = 0, eb_callback_userdata = 0\<rparr>"

lemma demo_buffer_wf: "buf_wf demo_buffer" "buf_list demo_buffer = [no_event]"
  by (simp_all add: buf_wf_def demo_buffer_def buf_list_def)

theorem event_buffer_fifo_witness:
  "case pop_events 2 (fold (\<lambda>e b. snd (buffer_store e b))
       [no_event\<lparr>ev_keycode := KEY_A\<rparr>, no_event\<lparr>ev_keycode := KEY_B\<rparr>] demo_buffer) of (got, b') \<Rightarrow>
     got = [no_event, no_event\<lparr>ev_keycode := KEY_A\<rparr>] \<and>
     buf_list b' = [no_event\<lparr>ev_keycode := KEY_B\<rparr>]"
proof -
  let ?evs = "[no_event\<lparr>ev_keycode := KEY_A\<rparr>, no_event\<lparr>ev_keycode := KEY_B\<rparr>]"
  obtain got b' where p: "pop_events 2 (fold (\<lambda>e b. snd (buffer_store e b)) ?evs demo_buffer) = (got, b')"
    by fastforce
  have "length (buf_list demo_buffer) + length ?evs \<le> unat (eb_capacity demo_buffer)"
    by (simp add: demo_buffer_def)
  from event_buffer_fifo [OF demo_buffer_wf(1) this p]
  show ?thesis unfolding p by (simp add: demo_buffer_wf)
qed

section \<open>Decoding scan codes\<close>

text \<open>What the driver relies on of the function called back: it leaves the driver's state alone.\<close>

definition keeps_driver ::
  "(u64 \<Rightarrow> key_event \<Rightarrow> u64 \<Rightarrow> ('d, 'a) ps2k_scheme \<Rightarrow> ('d, 'a) ps2k_scheme) \<Rightarrow> bool" where
  "keeps_driver call \<longleftrightarrow> (\<forall>fn ev u c. evbuf (call fn ev u c) = evbuf c \<and>
     current_scan_state (call fn ev u c) = current_scan_state c \<and>
     scancode_to_keycode (call fn ev u c) = scancode_to_keycode c \<and>
     extended_scancode_to_keycode (call fn ev u c) = extended_scancode_to_keycode c \<and>
     ticks (call fn ev u c) = ticks c \<and> dev (call fn ev u c) = dev c)"

text \<open>The controller delivers these bytes, one at each interrupt.\<close>

fun delivers :: "'d device \<Rightarrow> u8 list \<Rightarrow> 'd \<Rightarrow> bool" where
  "delivers hw [] d = True"
| "delivers hw (b # bs) d =
     (case rd8 hw PS2_DATA_PORT d of (v, d1) \<Rightarrow> v = b \<and> delivers hw bs (wr8 hw PIC1_COMMAND PIC_EOI d1))"

text \<open>What one scan code does to the buffer and to the scan state, at a time \<open>t\<close>.\<close>

definition key_of :: "keycode list \<times> keycode list \<Rightarrow> scan_state \<Rightarrow> u8 \<Rightarrow> keycode" where
  "key_of maps st b =
     (if b = 0xE0 \<or> b = 0xE1 \<or> st = EXTENDED_E1 then KEY_NONE
      else (if st = EXTENDED_E0 then snd maps else fst maps) ! unat (b AND 0x7F))"

definition next_state :: "scan_state \<Rightarrow> u8 \<Rightarrow> scan_state" where
  "next_state st b = (if b = 0xE0 then EXTENDED_E0 else if b = 0xE1 then EXTENDED_E1 else NORMAL)"

definition stored :: "u64 \<Rightarrow> keycode \<Rightarrow> bool \<Rightarrow> key_event list" where
  "stored t kc pressed =
     (if kc = KEY_NONE then []
      else [\<lparr>ev_keycode = kc, ev_state = (if pressed then PRESSED else RELEASED), ev_timestamp = t\<rparr>])"

abbreviation store_all :: "key_event list \<Rightarrow> event_buffer \<Rightarrow> event_buffer" where
  "store_all \<equiv> fold (\<lambda>e b. snd (buffer_store e b))"

abbreviation maps_of :: "('d, 'a) ps2k_scheme \<Rightarrow> keycode list \<times> keycode list" where
  "maps_of c \<equiv> (scancode_to_keycode c, extended_scancode_to_keycode c)"

lemma buffer_push_keeps:
  assumes "keeps_driver call"
  shows "evbuf (snd (buffer_push call ev c)) = snd (buffer_store ev (evbuf c)) \<and>
    current_scan_state (snd (buffer_push call ev c)) = current_scan_state c \<and>
    maps_of (snd (buffer_push call ev c)) = maps_of c \<and>
    ticks (snd (buffer_push call ev c)) = ticks c \<and> dev (snd (buffer_push call ev c)) = dev c"
proof -
  obtain ok b where b: "buffer_store ev (evbuf c) = (ok, b)" by fastforce
  have "\<not> ok \<Longrightarrow> b = evbuf c" using b by (auto simp: buffer_store_def Let_def split: if_splits)
  then show ?thesis using assms by (auto simp: buffer_push_def b Let_def keeps_driver_def)
qed

lemma send_eoi_keeps:
  "evbuf (send_eoi hw q c) = evbuf c" "current_scan_state (send_eoi hw q c) = current_scan_state c"
  "maps_of (send_eoi hw q c) = maps_of c" "ticks (send_eoi hw q c) = ticks c"
  "dev (send_eoi hw 1 c) = wr8 hw PIC1_COMMAND PIC_EOI (dev c)"
  by (simp_all add: send_eoi_def Let_def outb_def word_le_nat_alt)

lemma inb_keeps:
  assumes "inb hw p c = (v, c1)"
  shows "evbuf c1 = evbuf c" "current_scan_state c1 = current_scan_state c" "maps_of c1 = maps_of c"
    "ticks c1 = ticks c" "rd8 hw p (dev c) = (v, dev c1)"
  using assms by (auto simp: inb_def split: prod.splits)

lemma handle_scancode_effect:
  fixes c :: "('d, 'a) ps2k_scheme"
  assumes k: "keeps_driver call"
    and c'_def: "c' = handle_scancode hw call b c"
  shows "evbuf c' = store_all (stored (ns_elapsed_time c) (key_of (maps_of c) (current_scan_state c) b)
      (b AND 0x80 = 0)) (evbuf c) \<and>
    current_scan_state c' = next_state (current_scan_state c) b \<and> maps_of c' = maps_of c \<and>
    ticks c' = ticks c \<and> dev c' = wr8 hw PIC1_COMMAND PIC_EOI (dev c)"
proof (cases "b = 0xE0 \<or> b = 0xE1 \<or> current_scan_state c = EXTENDED_E1")
  case True
  then show ?thesis
    unfolding c'_def handle_scancode_def
    by (auto simp: send_eoi_keeps [simplified] key_of_def next_state_def stored_def Let_def)
next
  case False
  let ?kc = "key_of (maps_of c) (current_scan_state c) b"
  let ?ev = "\<lparr>ev_keycode = ?kc, ev_state = (if b AND 0x80 = 0 then PRESSED else RELEASED),
    ev_timestamp = ns_elapsed_time c\<rparr>"
  let ?c1 = "c\<lparr>current_scan_state := NORMAL\<rparr>"
  have "c' = send_eoi hw 1 (if ?kc \<noteq> KEY_NONE then snd (buffer_push call ?ev ?c1) else ?c1)"
    using False unfolding c'_def handle_scancode_def Let_def key_of_def by (simp add: ns_elapsed_time_def)
  then show ?thesis
    using False buffer_push_keeps [OF k, of ?ev ?c1]
    by (simp add: send_eoi_keeps [simplified] next_state_def stored_def)
qed

lemma interrupt_effect:
  fixes c :: "('d, 'a) ps2k_scheme"
  assumes k: "keeps_driver call" and d: "delivers hw (b # bs) (dev c)"
    and c'_def: "c' = ps2k_interrupt_handler hw call c"
  shows "evbuf c' = store_all (stored (ns_elapsed_time c) (key_of (maps_of c) (current_scan_state c) b)
      (b AND 0x80 = 0)) (evbuf c)"
    and "current_scan_state c' = next_state (current_scan_state c) b" and "maps_of c' = maps_of c"
    and "ticks c' = ticks c" and "delivers hw bs (dev c')"
proof -
  obtain v c1 where i: "inb hw PS2_DATA_PORT c = (v, c1)" by fastforce
  note e = inb_keeps [OF i]
  have v: "v = b" "delivers hw bs (wr8 hw PIC1_COMMAND PIC_EOI (dev c1))" using d e(5) by simp_all
  have c': "c' = handle_scancode hw call b c1" unfolding c'_def ps2k_interrupt_handler_def by (simp add: i v)
  note h = handle_scancode_effect [OF k c']
  have t: "ns_elapsed_time c1 = ns_elapsed_time c" by (simp add: ns_elapsed_time_def e(4))
  show "evbuf c' = store_all (stored (ns_elapsed_time c) (key_of (maps_of c) (current_scan_state c) b)
      (b AND 0x80 = 0)) (evbuf c)"
    using h unfolding e(1,2,3) t by blast
  show "current_scan_state c' = next_state (current_scan_state c) b" using h unfolding e(2) by blast
  show "maps_of c' = maps_of c" using h unfolding e(3) by blast
  show "ticks c' = ticks c" using h unfolding e(4) by blast
  show "delivers hw bs (dev c')" using h v(2) by simp
qed

definition scan_byte ::
  "keycode list \<times> keycode list \<Rightarrow> u64 \<Rightarrow> u8 \<Rightarrow> key_event list \<times> scan_state \<Rightarrow> key_event list \<times> scan_state" where
  "scan_byte maps t b = (\<lambda>(evs, st). (evs @ stored t (key_of maps st b) (b AND 0x80 = 0), next_state st b))"

lemma scan_byte_simp [simp]:
  "scan_byte maps t b (evs, st) = (evs @ stored t (key_of maps st b) (b AND 0x80 = 0), next_state st b)"
  by (simp add: scan_byte_def)

lemma scan_grows: "\<exists>more. fst (fold (scan_byte maps t) bs (evs, st)) = evs @ more"
proof (induction bs arbitrary: evs st)
  case (Cons b bs)
  show ?case
    using Cons.IH [of "evs @ stored t (key_of maps st b) (b AND 0x80 = 0)" "next_state st b"]
    by auto
qed simp

text \<open>The events of a sequence of scan codes are put into the buffer one after the other.\<close>

lemma interrupts_effect:
  assumes k: "keeps_driver call"
  shows "delivers hw bs (dev c) \<Longrightarrow> c' = (ps2k_interrupt_handler hw call ^^ length bs) c \<Longrightarrow>
    fold (scan_byte (maps_of c) (ns_elapsed_time c)) bs (evs, current_scan_state c) = (evs @ new, st) \<Longrightarrow>
    evbuf c' = store_all new (evbuf c) \<and> current_scan_state c' = st"
proof (induction bs arbitrary: c evs new)
  case Nil
  then show ?case by simp
next
  case (Cons b bs)
  let ?c1 = "ps2k_interrupt_handler hw call c"
  note e = interrupt_effect [OF k Cons.prems(1) refl]
  let ?one = "stored (ns_elapsed_time c) (key_of (maps_of c) (current_scan_state c) b) (b AND 0x80 = 0)"
  have t: "ns_elapsed_time ?c1 = ns_elapsed_time c" by (simp add: ns_elapsed_time_def e(4))
  have f: "fold (scan_byte (maps_of ?c1) (ns_elapsed_time ?c1)) bs (evs @ ?one, current_scan_state ?c1) = (evs @ new, st)"
    unfolding e(2,3) t using Cons.prems(3) by simp
  obtain more where "evs @ new = (evs @ ?one) @ more" using scan_grows f by (metis fst_conv)
  then have new: "new = ?one @ more" by simp
  have "c' = (ps2k_interrupt_handler hw call ^^ length bs) ?c1"
    using Cons.prems(2) by (simp add: funpow_swap1)
  from Cons.IH [OF e(5) this f [unfolded new append_assoc [symmetric]]] show ?case
    by (simp add: new e(1))
qed

section \<open>Keys pressed and released\<close>

text \<open>
  A key of the keyboard being pressed or released: whether its code carries the prefix
  \<open>0xE0\<close>, the code, and the direction; the bytes the keyboard sends for it and the event
  that belongs to it.
\<close>

datatype key_action = Key bool u8 bool

fun scancodes :: "key_action \<Rightarrow> u8 list" where
  "scancodes (Key extended k pressed) =
     (if extended then [0xE0] else []) @ [if pressed then k else k OR 0x80]"

fun valid_action :: "key_action \<Rightarrow> bool" where
  "valid_action (Key extended k pressed) \<longleftrightarrow> k < 0x80 \<and> k \<noteq> 0x60 \<and> k \<noteq> 0x61"

fun action_events :: "u64 \<Rightarrow> key_action \<Rightarrow> key_event list" where
  "action_events t (Key extended k pressed) =
     stored t ((if extended then snd init_scancode_map else fst init_scancode_map) ! unat k) pressed"

lemma scancode_bits:
  fixes k :: u8
  assumes "k < 0x80"
  shows "k AND 0x7F = k" "k AND 0x80 = 0" "(k OR 0x80) AND 0x7F = k" "(k OR 0x80) AND 0x80 \<noteq> 0"
proof -
  have m: "(0x7F :: u8) = mask 7" "(0x80 :: u8) = push_bit 7 1" by (simp_all add: mask_eq_exp_minus_1)
  have t: "take_bit 7 k = k" using assms by (simp add: word_unat_eq_iff take_bit_eq_mod unat_mod word_less_nat_alt)
  then show k: "k AND 0x7F = k" unfolding m by (simp only: take_bit_eq_mask)
  have n: "\<not> bit k 7" using bit_take_bit_iff [of 7 k 7] t by simp
  have b80: "bit (0x80 :: u8) i \<longleftrightarrow> i = 7" for i
    unfolding m(2) by (simp only: bit_push_bit_iff bit_1_iff) auto
  show "k AND 0x80 = 0"
  proof (rule bit_word_eqI)
    show "bit (k AND 0x80) i = bit 0 i" for i
      unfolding bit_and_iff b80 using n by auto
  qed
  have "(0x80 :: u8) AND 0x7F = 0" by simp
  then show "(k OR 0x80) AND 0x7F = k" unfolding bit.conj_disj_distrib2 k by simp
  have "bit ((k OR 0x80) AND 0x80) 7" unfolding bit_and_iff bit_or_iff b80 by simp
  then show "(k OR 0x80) AND 0x80 \<noteq> 0" by auto
qed

lemma scan_action:
  assumes "valid_action a"
  shows "fold (scan_byte init_scancode_map t) (scancodes a) (evs, NORMAL) = (evs @ action_events t a, NORMAL)"
proof -
  obtain x k p where a: "a = Key x k p" by (cases a)
  have k: "k < 0x80" "k \<noteq> 0x60" "k \<noteq> 0x61" using assms by (simp_all add: a)
  note s = scancode_bits [OF k(1)]
  have "k \<noteq> 0xE0" "k \<noteq> 0xE1" using k(1) by auto
  moreover have "k OR 0x80 \<noteq> 0xE0" "k OR 0x80 \<noteq> 0xE1"
    using s(3) k(2,3) by auto
  ultimately show ?thesis
    by (cases x; cases p) (simp_all add: a key_of_def next_state_def stored_def s)
qed

lemma scan_actions:
  assumes "list_all valid_action as"
  shows "fold (scan_byte init_scancode_map t) (concat (map scancodes as)) (evs, NORMAL) =
    (evs @ concat (map (action_events t) as), NORMAL)"
  using assms by (induction as arbitrary: evs) (simp_all add: scan_action)

lemma nth_assign_all:
  assumes "i < length t"
  shows "assign_all as t ! i = (case map_of (rev as) i of None \<Rightarrow> t ! i | Some k \<Rightarrow> k)"
  using assms
proof (induction as arbitrary: t)
  case (Cons a as)
  obtain j k where a: "a = (j, k)" by fastforce
  then show ?case
    using Cons.IH [of "t[j := k]"] Cons.prems
    by (auto simp: assign_all_def map_add_def nth_list_update split: option.splits)
qed (simp add: assign_all_def)

lemma init_scancode_map_nth:
  assumes "i < 128"
  shows "fst init_scancode_map ! i = (case map_of (rev scancode_assignments) i of None \<Rightarrow> KEY_NONE | Some k \<Rightarrow> k)"
    and "snd init_scancode_map ! i = (case map_of (rev extended_assignments) i of None \<Rightarrow> KEY_NONE | Some k \<Rightarrow> k)"
  using assms by (simp_all add: init_scancode_map_def nth_assign_all cong: option.case_cong)

text \<open>The keys that are lost: three entries of the extended table are assigned a second time.\<close>

lemma overwritten_keys:
  assumes "i < 128"
  shows "snd init_scancode_map ! i \<notin> {KEY_MUTE, KEY_VOLUMEDOWN, KEY_VOLUMEUP}"
  unfolding init_scancode_map_nth [OF assms] extended_assignments_def
  by (simp add: keycode_defs)

text \<open>
  C15. Key strokes arrive as events: when the keyboard sends the scan codes of any sequence of
  keys pressed and released, with or without the prefix \<open>0xE0\<close>, one byte per interrupt, the
  buffer receives exactly the events of these keys in their order, those of keys that have no
  key code left out, and the driver is ready for the next plain code. The hypothesis on the
  controller is that reading the data port returns the bytes.
\<close>

theorem key_strokes_decoded:
  assumes "keeps_driver call" and "buf_wf (evbuf c)" and "current_scan_state c = NORMAL"
    and "maps_of c = init_scancode_map" and "list_all valid_action keys"
    and "delivers hw (concat (map scancodes keys)) (dev c)"
    and "length (buf_list (evbuf c)) + length (concat (map (action_events (ns_elapsed_time c)) keys))
      \<le> unat (eb_capacity (evbuf c))"
    and "c' = (ps2k_interrupt_handler hw call ^^ length (concat (map scancodes keys))) c"
  shows "buf_list (evbuf c') = buf_list (evbuf c) @ concat (map (action_events (ns_elapsed_time c)) keys) \<and>
    current_scan_state c' = NORMAL \<and> buf_wf (evbuf c')"
proof -
  have "evbuf c' = store_all (concat (map (action_events (ns_elapsed_time c)) keys)) (evbuf c) \<and>
      current_scan_state c' = NORMAL"
    by (rule interrupts_effect [OF assms(1,6,8), where evs = "[]"])
      (simp add: assms(3,4) scan_actions [OF assms(5), where evs = "[]", simplified])
  then show ?thesis using event_queue.enq_all [OF assms(2,7)] by simp
qed

text \<open>A keyboard that sends a fixed list of bytes.\<close>

definition stream_hw :: "u8 list device" where
  "stream_hw = \<lparr>rd8 = \<lambda>p d. if p = PS2_DATA_PORT then (hd d, tl d) else (0, d), wr8 = \<lambda>p v d. d,
     rd16 = \<lambda>p d. (0, d), wr16 = \<lambda>p v d. d, rd32 = \<lambda>p d. (0, d), wr32 = \<lambda>p v d. d\<rparr>"

lemma stream_delivers: "delivers stream_hw bs bs"
  by (induction bs) (simp_all add: stream_hw_def)

definition demo_ps2k :: "u8 list \<Rightarrow> u8 list ps2k" where
  "demo_ps2k bs = \<lparr>dev = bs, idt_entries = replicate 512 no_gate, idt_set_vectors = replicate 256 False,
     idtr = \<lparr>idtr_limit = 0, idtr_base = 0\<rparr>, loaded_idtr = None, ticks = 7, pit_interrupts = [], attached = 0,
     evbuf = demo_buffer\<lparr>eb_capacity := 64, eb_head := 63, eb_tail := 63, eb_count := 0\<rparr>,
     current_scan_state = NORMAL, scancode_to_keycode = fst init_scancode_map,
     extended_scancode_to_keycode = snd init_scancode_map\<rparr>"

lemma demo_ps2k_facts:
  "buf_wf (evbuf (demo_ps2k bs))" "buf_list (evbuf (demo_ps2k bs)) = []"
  "current_scan_state (demo_ps2k bs) = NORMAL" "maps_of (demo_ps2k bs) = init_scancode_map"
  "dev (demo_ps2k bs) = bs" "eb_capacity (evbuf (demo_ps2k bs)) = 64"
  "ns_elapsed_time (demo_ps2k bs) = 70000000"
  by (simp_all add: demo_ps2k_def buf_wf_def demo_buffer_def buf_list_def ns_elapsed_time_def)

lemma keeps_driver_id: "keeps_driver (\<lambda>fn ev u c. c)"
  by (simp add: keeps_driver_def)

theorem key_strokes_decoded_witness:
  "buf_list (evbuf ((ps2k_interrupt_handler stream_hw (\<lambda>fn ev u c. c) ^^ 5) (demo_ps2k [0x2A, 0x1E, 0x9E, 0xE0, 0x48]))) =
     [\<lparr>ev_keycode = KEY_LEFTSHIFT, ev_state = PRESSED, ev_timestamp = 70000000\<rparr>,
      \<lparr>ev_keycode = KEY_A, ev_state = PRESSED, ev_timestamp = 70000000\<rparr>,
      \<lparr>ev_keycode = KEY_A, ev_state = RELEASED, ev_timestamp = 70000000\<rparr>,
      \<lparr>ev_keycode = KEY_UP, ev_state = PRESSED, ev_timestamp = 70000000\<rparr>]"
proof -
  let ?keys = "[Key False 0x2A True, Key False 0x1E True, Key False 0x1E False, Key True 0x48 True]"
  let ?bs = "[0x2A, 0x1E, 0x9E, 0xE0, 0x48]"
  have bs: "concat (map scancodes ?keys) = ?bs" by simp
  have maps: "fst init_scancode_map ! 0x2A = KEY_LEFTSHIFT" "fst init_scancode_map ! 0x1E = KEY_A"
    "snd init_scancode_map ! 0x48 = KEY_UP"
    by (simp_all add: init_scancode_map_nth scancode_assignments_def extended_assignments_def)
  have evs: "concat (map (action_events 70000000) ?keys) =
     [\<lparr>ev_keycode = KEY_LEFTSHIFT, ev_state = PRESSED, ev_timestamp = 70000000\<rparr>,
      \<lparr>ev_keycode = KEY_A, ev_state = PRESSED, ev_timestamp = 70000000\<rparr>,
      \<lparr>ev_keycode = KEY_A, ev_state = RELEASED, ev_timestamp = 70000000\<rparr>,
      \<lparr>ev_keycode = KEY_UP, ev_state = PRESSED, ev_timestamp = 70000000\<rparr>]"
    by (simp add: maps stored_def) (simp add: keycode_defs)
  have v: "list_all valid_action ?keys" by simp
  have d: "delivers stream_hw (concat (map scancodes ?keys)) (dev (demo_ps2k ?bs))"
    unfolding bs demo_ps2k_facts(5) by (rule stream_delivers)
  have l: "length (buf_list (evbuf (demo_ps2k ?bs))) +
      length (concat (map (action_events (ns_elapsed_time (demo_ps2k ?bs))) ?keys))
      \<le> unat (eb_capacity (evbuf (demo_ps2k ?bs)))"
    unfolding demo_ps2k_facts evs by simp
  have e: "(ps2k_interrupt_handler stream_hw (\<lambda>fn ev u c. c) ^^ 5) (demo_ps2k ?bs) =
      (ps2k_interrupt_handler stream_hw (\<lambda>fn ev u c. c) ^^ length (concat (map scancodes ?keys))) (demo_ps2k ?bs)"
    by (rule arg_cong2 [where f = "\<lambda>n. (ps2k_interrupt_handler stream_hw (\<lambda>fn ev u c. c) ^^ n)"]) simp_all
  show ?thesis
    using key_strokes_decoded [OF keeps_driver_id demo_ps2k_facts(1,3,4) v d l e]
    unfolding demo_ps2k_facts(7) evs demo_ps2k_facts(2) append_Nil by (rule conjunct1)
qed

text \<open>
  The key \<open>Pause\<close>, which sends the six bytes \<open>E1 1D 45 E1 9D C5\<close>, is reported as
  \<open>NumLock\<close> being pressed and released: only one byte is skipped after \<open>0xE1\<close>.
\<close>

lemma pause_key_decoded:
  assumes "keeps_driver call" and "buf_wf (evbuf c)" and "current_scan_state c = NORMAL"
    and "maps_of c = init_scancode_map" and "delivers hw [0xE1, 0x1D, 0x45, 0xE1, 0x9D, 0xC5] (dev c)"
    and "length (buf_list (evbuf c)) + 2 \<le> unat (eb_capacity (evbuf c))"
    and "c' = (ps2k_interrupt_handler hw call ^^ 6) c"
  shows "map (\<lambda>e. (ev_keycode e, ev_state e)) (buf_list (evbuf c')) =
    map (\<lambda>e. (ev_keycode e, ev_state e)) (buf_list (evbuf c)) @ [(KEY_NUMLOCK, PRESSED), (KEY_NUMLOCK, RELEASED)]"
proof -
  let ?bs = "[0xE1, 0x1D, 0x45, 0xE1, 0x9D, 0xC5] :: u8 list"
  let ?new = "stored (ns_elapsed_time c) KEY_NUMLOCK True @ stored (ns_elapsed_time c) KEY_NUMLOCK False"
  have n: "fst init_scancode_map ! 69 = KEY_NUMLOCK"
    by (simp add: init_scancode_map_nth scancode_assignments_def)
  have "fold (scan_byte (maps_of c) (ns_elapsed_time c)) ?bs ([], current_scan_state c) = ([] @ ?new, NORMAL)"
    by (simp add: assms(3,4) key_of_def next_state_def n) (simp add: stored_def)
  moreover have "c' = (ps2k_interrupt_handler hw call ^^ length ?bs) c"
    unfolding assms(7) by (simp add: numeral_eq_Suc)
  ultimately have "evbuf c' = store_all ?new (evbuf c)"
    using interrupts_effect [OF assms(1,5)] by blast
  moreover have "length ?new = 2" by (simp add: stored_def KEY_NUMLOCK_def KEY_NONE_def)
  ultimately show ?thesis
    using event_queue.enq_all [OF assms(2), of ?new] assms(6)
    by (simp add: stored_def KEY_NUMLOCK_def KEY_NONE_def)
qed

lemma pause_key_decoded_example:
  "map (\<lambda>e. (ev_keycode e, ev_state e)) (buf_list (evbuf
     ((ps2k_interrupt_handler stream_hw (\<lambda>fn ev u c. c) ^^ 6) (demo_ps2k [0xE1, 0x1D, 0x45, 0xE1, 0x9D, 0xC5])))) =
   [(KEY_NUMLOCK, PRESSED), (KEY_NUMLOCK, RELEASED)]"
  using pause_key_decoded [where c = "demo_ps2k [0xE1, 0x1D, 0x45, 0xE1, 0x9D, 0xC5]" and hw = stream_hw,
      OF keeps_driver_id demo_ps2k_facts(1,3,4) _ _ refl]
  unfolding demo_ps2k_facts(2,5,6)
  by (simp add: stream_delivers del: funpow.simps delivers.simps)

section \<open>Well-formed driver states\<close>

text \<open>
  The calls of the driver's interface and its interrupt as one step relation, and what holds of
  its state: the indices lie in the buffer, the tables are the initialised ones, and every
  event in the buffer carries the number of a key.
\<close>

inductive ps2k_step ::
  "'d device \<Rightarrow> (u64 \<Rightarrow> key_event \<Rightarrow> u64 \<Rightarrow> ('d, 'a) ps2k_scheme \<Rightarrow> ('d, 'a) ps2k_scheme) \<Rightarrow>
   ('d, 'a) ps2k_scheme \<Rightarrow> ('d, 'a) ps2k_scheme \<Rightarrow> bool"
  for hw call where
  interrupt: "ps2k_step hw call c (ps2k_interrupt_handler hw call c)"
| read: "ps2k_read count c = (r, evs, c') \<Longrightarrow> ps2k_step hw call c c'"
| read_event: "ps2k_read_event c = (r, c') \<Longrightarrow> ps2k_step hw call c c'"
| read_events: "read_events n c = (r, evs, c') \<Longrightarrow> ps2k_step hw call c c'"
| ioctl: "ps2k_ioctl request arg c = (r, v, c') \<Longrightarrow> ps2k_step hw call c c'"
| flush: "ps2k_step hw call c (flush_events c)"
| set_callback: "ps2k_step hw call c (set_event_callback fn u c)"
| clear_callback: "ps2k_step hw call c (clear_event_callback c)"

definition ps2k_ok :: "('d, 'a) ps2k_scheme \<Rightarrow> bool" where
  "ps2k_ok c \<longleftrightarrow> buf_wf (evbuf c) \<and> maps_of c = init_scancode_map \<and>
     (\<forall>e \<in> set (buf_list (evbuf c)). 0 < ev_keycode e \<and> ev_keycode e \<le> KEY_MEDIA_VOLUMEDOWN)"

lemma assignments_range:
  "\<forall>(i, k) \<in> set scancode_assignments. k \<le> KEY_MEDIA_VOLUMEDOWN"
  "\<forall>(i, k) \<in> set extended_assignments. k \<le> KEY_MEDIA_VOLUMEDOWN"
  by (simp_all add: scancode_assignments_def extended_assignments_def keycode_defs)

lemma map_range:
  assumes "i < 128"
  shows "fst init_scancode_map ! i \<le> KEY_MEDIA_VOLUMEDOWN" "snd init_scancode_map ! i \<le> KEY_MEDIA_VOLUMEDOWN"
  using assignments_range unfolding init_scancode_map_nth [OF assms]
  by (fastforce simp: KEY_NONE_def split: option.splits dest: map_of_SomeD)+

lemma code_index: "unat ((b :: u8) AND 0x7F) < 128"
proof -
  have m: "(0x7F :: u8) = mask 7" by (simp add: mask_eq_exp_minus_1)
  have "b AND 0x7F < 2 ^ 7" unfolding m take_bit_eq_mask [symmetric] by (simp add: word_less_nat_alt take_bit_eq_mod unat_mod)
  then show ?thesis by (simp add: word_less_nat_alt)
qed

lemma key_of_range: "key_of init_scancode_map st b \<le> KEY_MEDIA_VOLUMEDOWN"
  using map_range [OF code_index, of b] by (auto simp: key_of_def KEY_NONE_def)

lemma store_set: "buf_wf b \<Longrightarrow> set (buf_list (snd (buffer_store ev b))) \<subseteq> insert ev (set (buf_list b))"
  using store_spec [of b ev] by auto

lemma ps2k_ok_interrupt:
  assumes "keeps_driver call" and ok: "ps2k_ok c"
  shows "ps2k_ok (ps2k_interrupt_handler hw call c)"
proof -
  let ?b = "fst (rd8 hw PS2_DATA_PORT (dev c))"
  have "delivers hw [?b] (dev c)" by (simp split: prod.splits)
  note e = interrupt_effect [OF assms(1) this refl]
  let ?kc = "key_of (maps_of c) (current_scan_state c) ?b"
  have m: "maps_of c = init_scancode_map" and wf: "buf_wf (evbuf c)" using ok by (simp_all add: ps2k_ok_def)
  have r: "?kc \<le> KEY_MEDIA_VOLUMEDOWN" unfolding m by (rule key_of_range)
  show ?thesis
  proof (cases "?kc = KEY_NONE")
    case True
    then show ?thesis using ok e(3) unfolding ps2k_ok_def e(1) by (simp add: stored_def)
  next
    case False
    then have "0 < ?kc" by (simp add: KEY_NONE_def word_neq_0_conv)
    then show ?thesis
      using ok e(3) r False store_spec [OF wf] store_set [OF wf] unfolding ps2k_ok_def e(1)
      by (fastforce simp: stored_def)
  qed
qed

lemma pop_events_ok:
  assumes "buf_wf b" "pop_events n b = (evs, b')"
  shows "buf_wf b' \<and> set (buf_list b') \<subseteq> set (buf_list b)"
  using event_queue.drain [OF pop_events.simps assms] by (auto dest: in_set_dropD)

lemma ps2k_step_ok:
  assumes "keeps_driver call" "ps2k_step hw call c c'" "ps2k_ok c"
  shows "ps2k_ok c'"
  using assms(2,3)
proof cases
  case interrupt
  then show ?thesis using ps2k_ok_interrupt [OF assms(1,3)] by simp
next
  case (read count r evs)
  then show ?thesis using assms(3) pop_events_ok [of "evbuf c"]
    by (fastforce simp: ps2k_read_def ps2k_ok_def split: if_splits prod.splits)
next
  case (read_event r)
  then show ?thesis using assms(3) pop_some [of "evbuf c"]
    by (fastforce simp: ps2k_read_event_def ps2k_ok_def split: option.splits)
next
  case (read_events n r evs)
  then show ?thesis using assms(3) pop_events_ok [of "evbuf c"]
    by (fastforce simp: read_events_def ps2k_ok_def split: prod.splits)
next
  case (ioctl request arg r v)
  then show ?thesis using assms(3) flush_wf [of "evbuf c"]
    by (auto simp: ps2k_ioctl_def ps2k_ok_def split: if_splits)
next
  case flush
  then show ?thesis using assms(3) flush_wf [of "evbuf c"] by (simp add: flush_events_def ps2k_ok_def)
next
  case (set_callback fn u)
  then show ?thesis using assms(3) by (simp add: set_event_callback_def ps2k_ok_def buf_wf_def buf_list_def)
next
  case clear_callback
  then show ?thesis using assms(3) by (simp add: clear_event_callback_def ps2k_ok_def buf_wf_def buf_list_def)
qed

definition same_driver :: "('d, 'a) ps2k_scheme \<Rightarrow> ('d, 'a) ps2k_scheme \<Rightarrow> bool" where
  "same_driver c c' \<longleftrightarrow> evbuf c' = evbuf c \<and> maps_of c' = maps_of c"

lemma same_driver_refl: "same_driver c c"
  by (simp add: same_driver_def)

lemma same_driver_trans: "same_driver a b \<Longrightarrow> same_driver b c \<Longrightarrow> same_driver a c"
  by (simp add: same_driver_def)

lemma same_driver_io:
  "same_driver c (snd (inb hw p c))" "same_driver c (outb hw p v c)" "same_driver c (send_eoi hw q c)"
  "same_driver c (snd (ps2_output_ready hw c))" "same_driver c (snd (ps2_input_ready hw c))"
  "same_driver c (set_descriptor hw vec isr flags c)"
  by (auto simp: same_driver_def inb_def outb_def send_eoi_def ps2_output_ready_def ps2_input_ready_def Let_def
      set_descriptor_def irq_clear_mask_def split: prod.splits)

lemma ps2_read_data_keeps:
  assumes "ps2_read_data hw c = Some r"
  shows "same_driver c (snd r)"
  using assms
proof (rule ps2_read_data.raw_induct [rotated], goal_cases)
  case (1 rec hw c r)
  obtain ready c1 where o: "ps2_output_ready hw c = (ready, c1)" by fastforce
  then have s: "same_driver c c1" using same_driver_io(4) [of c hw] by simp
  show ?case
  proof (cases ready)
    case True
    then have "r = inb hw PS2_DATA_PORT c1" using 1(2) o by simp
    then show ?thesis using same_driver_trans [OF s same_driver_io(1)] by simp
  next
    case False
    then show ?thesis using 1 o same_driver_trans [OF s] by simp
  qed
qed

lemma ps2_write_data_keeps:
  assumes "ps2_write_data hw data c = Some c'"
  shows "same_driver c c'"
  using assms
proof (rule ps2_write_data.raw_induct [rotated], goal_cases)
  case (1 rec hw data c c')
  obtain ready c1 where o: "ps2_input_ready hw c = (ready, c1)" by fastforce
  then have s: "same_driver c c1" using same_driver_io(5) [of c hw] by simp
  show ?case
  proof (cases ready)
    case True
    then have "c' = outb hw PS2_DATA_PORT data c1" using 1(2) o by simp
    then show ?thesis using same_driver_trans [OF s same_driver_io(2)] by simp
  next
    case False
    then show ?thesis using 1 o same_driver_trans [OF s] by simp
  qed
qed

lemma ps2k_initialise_ok:
  assumes "ps2k_initialise hw cfg a s c = Some (s', c')" and "eb_ptr (evbuf c') \<noteq> 0"
    and "0 < cfg_initial_buf_size cfg" and "unat (cfg_initial_buf_size cfg) < 2 ^ 63"
  shows "ps2k_ok c'"
proof -
  obtain p s1 where al: "allocate_events cfg s = Some (p, s1)"
    using assms(1) by (auto simp: ps2k_initialise_def split: bind_splits)
  define c1 where "c1 = c\<lparr>evbuf := (evbuf c)\<lparr>eb_capacity := cfg_initial_buf_size cfg, eb_ptr := p,
    eb_drop_events := cfg_drop_events cfg\<rparr>\<rparr>"
  define c2 where "c2 = c1\<lparr>evbuf := (evbuf c1)\<lparr>eb_head := 0, eb_tail := 0, eb_count := 0, eb_callback := 0,
    eb_callback_userdata := 0\<rparr>, scancode_to_keycode := fst init_scancode_map,
    extended_scancode_to_keycode := snd init_scancode_map\<rparr>"
  have "p \<noteq> 0"
    using assms(1,2) unfolding ps2k_initialise_def by (auto simp: al)
  then obtain c3 v4 c4 v5 c5 c6 v7 c7 where steps:
    "ps2_write_data hw KBD_CMD_RESET c2 = Some c3" "ps2_read_data hw c3 = Some (v4, c4)"
    "ps2_read_data hw c4 = Some (v5, c5)" "ps2_write_data hw KBD_CMD_ENABLE c5 = Some c6"
    "ps2_read_data hw c6 = Some (v7, c7)" "c' = send_eoi hw 1 (set_descriptor hw 0x21 a 0x8E c7)"
    using assms(1) unfolding ps2k_initialise_def al c2_def c1_def
    by (auto simp: Let_def split: bind_splits)
  have "same_driver c2 c'"
    unfolding steps(6)
    using ps2_write_data_keeps [OF steps(1)] ps2_read_data_keeps [OF steps(2)] ps2_read_data_keeps [OF steps(3)]
      ps2_write_data_keeps [OF steps(4)] ps2_read_data_keeps [OF steps(5)] same_driver_io(3) same_driver_io(6)
    by (metis same_driver_trans snd_conv)
  moreover have "ps2k_ok c2"
    using assms(3,4) by (simp add: ps2k_ok_def c2_def c1_def buf_wf_def buf_list_def)
  ultimately show ?thesis by (simp add: ps2k_ok_def same_driver_def)
qed

text \<open>
  C17. Every state the driver can reach is well formed: after a successful initialisation with a
  buffer of at least one slot, through any number of interrupts with any bytes from the
  controller and any calls of the interface, head, tail and count describe a run of slots of the
  buffer, the scan code tables keep their values, and every event waiting to be read has the
  code of a key.
\<close>

theorem keyboard_states_well_formed:
  assumes "ps2k_initialise hw cfg a s c = Some (s', c0)" and "eb_ptr (evbuf c0) \<noteq> 0"
    and "0 < cfg_initial_buf_size cfg" and "unat (cfg_initial_buf_size cfg) < 2 ^ 63"
    and "keeps_driver call" and "(ps2k_step hw call)\<^sup>*\<^sup>* c0 c'"
  shows "eb_head (evbuf c') < eb_capacity (evbuf c') \<and> eb_tail (evbuf c') < eb_capacity (evbuf c') \<and>
    eb_count (evbuf c') \<le> eb_capacity (evbuf c') \<and> maps_of c' = init_scancode_map \<and>
    (\<forall>e \<in> set (buf_list (evbuf c')). 0 < ev_keycode e \<and> ev_keycode e \<le> KEY_MEDIA_VOLUMEDOWN)"
proof -
  from assms(6) have ok: "ps2k_ok c'"
    by (induction rule: rtranclp_induct)
      (rule ps2k_initialise_ok [OF assms(1-4)], rule ps2k_step_ok [OF assms(5)])
  then have "unat (eb_tail (evbuf c')) < unat (eb_capacity (evbuf c'))"
    by (simp add: ps2k_ok_def buf_wf_def word_less_nat_alt)
  with ok show ?thesis by (simp add: ps2k_ok_def buf_wf_def word_less_nat_alt)
qed

text \<open>A controller that is always ready and sends the scan code of the key 1.\<close>

definition ready_hw :: "unit device" where
  "ready_hw = \<lparr>rd8 = \<lambda>p d. (if p = PS2_STATUS_PORT then 1 else 2, d), wr8 = \<lambda>p v d. d,
     rd16 = \<lambda>p d. (0, d), wr16 = \<lambda>p v d. d, rd32 = \<lambda>p d. (0, d), wr32 = \<lambda>p v d. d\<rparr>"

lemma ready_hw_waits:
  "ps2_read_data ready_hw c = Some (2, c)" "ps2_write_data ready_hw v c = Some c"
proof -
  have "inb ready_hw PS2_STATUS_PORT c = (1, c)" "inb ready_hw PS2_DATA_PORT c = (2, c)" "outb ready_hw p w c = c" for p w
    by (simp_all add: inb_def outb_def ready_hw_def PS2_DATA_PORT_def PS2_STATUS_PORT_def)
  then show "ps2_read_data ready_hw c = Some (2, c)" "ps2_write_data ready_hw v c = Some c"
    unfolding ps2_read_data.simps [of ready_hw c] ps2_write_data.simps [of ready_hw v c]
    by (simp_all add: ps2_output_ready_def ps2_input_ready_def PS2_STATUS_OUTPUT_FULL_def PS2_STATUS_INPUT_FULL_def)
qed

definition demo_config :: ps2k_config where
  "demo_config = \<lparr>cfg_initial_buf_size = 512, cfg_source = Static_buffer 0x9000, cfg_drop_events = False\<rparr>"

definition demo_off :: "unit ps2k" where
  "demo_off = \<lparr>dev = (), idt_entries = replicate 512 no_gate, idt_set_vectors = replicate 256 False,
     idtr = \<lparr>idtr_limit = 0, idtr_base = 0\<rparr>, loaded_idtr = None, ticks = 7, pit_interrupts = [], attached = 0,
     evbuf = demo_buffer, current_scan_state = NORMAL, scancode_to_keycode = [],
     extended_scancode_to_keycode = []\<rparr>"

theorem keyboard_states_well_formed_witness:
  "\<exists>c0. ps2k_initialise ready_hw demo_config 0x4000 demo_heap demo_off = Some (demo_heap, c0) \<and>
     eb_capacity (evbuf c0) = 512 \<and>
     eb_tail (evbuf (ps2k_interrupt_handler ready_hw (\<lambda>fn ev u c. c) c0)) <
       eb_capacity (evbuf (ps2k_interrupt_handler ready_hw (\<lambda>fn ev u c. c) c0))"
proof -
  obtain c0 where i: "ps2k_initialise ready_hw demo_config 0x4000 demo_heap demo_off = Some (demo_heap, c0)"
    and p: "evbuf c0 = demo_buffer\<lparr>eb_ptr := 0x9000, eb_capacity := 512, eb_drop_events := False,
      eb_head := 0, eb_tail := 0, eb_count := 0\<rparr>"
    by (simp add: ps2k_initialise_def allocate_events_def demo_config_def ready_hw_waits demo_off_def
        demo_buffer_def same_driver_io(3,6) [unfolded same_driver_def])
  let ?c' = "ps2k_interrupt_handler ready_hw (\<lambda>fn ev u c. c) c0"
  have "eb_ptr (evbuf c0) \<noteq> 0" "0 < cfg_initial_buf_size demo_config" "unat (cfg_initial_buf_size demo_config) < 2 ^ 63"
    by (simp_all add: p demo_config_def)
  moreover have "(ps2k_step ready_hw (\<lambda>fn ev u c. c))\<^sup>*\<^sup>* c0 ?c'" by (rule r_into_rtranclp) (rule interrupt)
  ultimately have "eb_tail (evbuf ?c') < eb_capacity (evbuf ?c')"
    using keyboard_states_well_formed [OF i _ _ _ keeps_driver_id] by blast
  moreover have "eb_capacity (evbuf c0) = 512" by (simp add: p)
  ultimately show ?thesis using i by blast
qed

end
