(* ===== verification/Cstring.thy ===== *)
theory Cstring
  imports Heap_Props
begin


text \<open>
  The string routines of \<open>kernel/src/libcxx/cstring.cpp\<close> on the byte memory. A loop that
  runs to a terminating zero is a \<open>partial_function\<close>: without a terminator it does not
  return. \<open>c_string m p xs\<close> says that the bytes \<open>xs\<close> and a terminator are at
  \<open>p\<close>; the lemmas give each routine on such strings.
\<close>

section \<open>The routines\<close>

partial_function (option) strcpy_loop :: "u64 \<Rightarrow> u64 \<Rightarrow> memory \<Rightarrow> memory option" where
  "strcpy_loop ptr src m =
     (if m src = 0 then Some (m(ptr := m src)) else strcpy_loop (ptr + 1) (src + 1) (m(ptr := m src)))"

definition strcpy :: "u64 \<Rightarrow> u64 \<Rightarrow> memory \<Rightarrow> (u64 \<times> memory) option" where
  "strcpy dest src m = map_option (\<lambda>m'. (dest, m')) (strcpy_loop dest src m)"

text \<open>The two loops of \<open>strncpy\<close>, with its 32-bit counter.\<close>

function strncpy_copy :: "u64 \<Rightarrow> u64 \<Rightarrow> u32 \<Rightarrow> u32 \<Rightarrow> memory \<Rightarrow> u32 \<times> memory" where
  "strncpy_copy ptr src n i m =
     (if i < n \<and> m (src + ucast i) \<noteq> 0
      then strncpy_copy ptr src n (i + 1) (m(ptr + ucast i := m (src + ucast i))) else (i, m))"
  by pat_completeness auto
termination
  by (relation "measure (\<lambda>(ptr, src, n, i, m). unat (n - i))") (auto simp: word_diff_measure)

function strncpy_pad :: "u64 \<Rightarrow> u32 \<Rightarrow> u32 \<Rightarrow> memory \<Rightarrow> memory" where
  "strncpy_pad ptr n i m =
     (if i < n then strncpy_pad ptr n (i + 1) (m(ptr + ucast i := 0)) else m)"
  by pat_completeness auto
termination
  by (relation "measure (\<lambda>(ptr, n, i, m). unat (n - i))") (auto simp: word_diff_measure)

definition strncpy :: "u64 \<Rightarrow> u64 \<Rightarrow> u32 \<Rightarrow> memory \<Rightarrow> u64 \<times> memory" where
  "strncpy dest src n m = (case strncpy_copy dest src n 0 m of (i, m1) \<Rightarrow> (dest, strncpy_pad dest n i m1))"

partial_function (option) strlen_loop :: "memory \<Rightarrow> u64 \<Rightarrow> u32 \<Rightarrow> u32 option" where
  "strlen_loop m str len = (if m (str + ucast len) = 0 then Some len else strlen_loop m str (len + 1))"

definition strlen :: "memory \<Rightarrow> u64 \<Rightarrow> u32 option" where
  "strlen m str = strlen_loop m str 0"

partial_function (option) strcmp :: "memory \<Rightarrow> u64 \<Rightarrow> u64 \<Rightarrow> int option" where
  "strcmp m s1 s2 =
     (if m s1 \<noteq> 0 \<and> m s1 = m s2 then strcmp m (s1 + 1) (s2 + 1)
      else Some (uint (m s1) - uint (m s2)))"

function strncmp_loop :: "memory \<Rightarrow> u64 \<Rightarrow> u64 \<Rightarrow> u32 \<Rightarrow> u32 \<Rightarrow> u32" where
  "strncmp_loop m s1 s2 n i =
     (if i < n \<and> m (s1 + ucast i) \<noteq> 0 \<and> m (s1 + ucast i) = m (s2 + ucast i)
      then strncmp_loop m s1 s2 n (i + 1) else i)"
  by pat_completeness auto
termination
  by (relation "measure (\<lambda>(m, s1, s2, n, i). unat (n - i))") (auto simp: word_diff_measure)

definition strncmp :: "memory \<Rightarrow> u64 \<Rightarrow> u64 \<Rightarrow> u32 \<Rightarrow> int" where
  "strncmp m s1 s2 n =
     (let i = strncmp_loop m s1 s2 n 0
      in if i = n then 0 else uint (m (s1 + ucast i)) - uint (m (s2 + ucast i)))"

text \<open>\<open>while (*ptr) ptr++\<close>\<close>

partial_function (option) skip_to_end :: "memory \<Rightarrow> u64 \<Rightarrow> u64 option" where
  "skip_to_end m ptr = (if m ptr = 0 then Some ptr else skip_to_end m (ptr + 1))"

definition strcat :: "u64 \<Rightarrow> u64 \<Rightarrow> memory \<Rightarrow> (u64 \<times> memory) option" where
  "strcat dest src m =
     (case skip_to_end m dest of
        None \<Rightarrow> None
      | Some ptr \<Rightarrow> map_option (\<lambda>m'. (dest, m')) (strcpy_loop ptr src m))"

function strncat_loop :: "u64 \<Rightarrow> u64 \<Rightarrow> u32 \<Rightarrow> u32 \<Rightarrow> memory \<Rightarrow> u64 \<times> memory" where
  "strncat_loop ptr src n i m =
     (if i < n \<and> m (src + ucast i) \<noteq> 0
      then strncat_loop (ptr + 1) src n (i + 1) (m(ptr := m (src + ucast i))) else (ptr, m))"
  by pat_completeness auto
termination
  by (relation "measure (\<lambda>(ptr, src, n, i, m). unat (n - i))") (auto simp: word_diff_measure)

definition strncat :: "u64 \<Rightarrow> u64 \<Rightarrow> u32 \<Rightarrow> memory \<Rightarrow> (u64 \<times> memory) option" where
  "strncat dest src n m =
     (case skip_to_end m dest of
        None \<Rightarrow> None
      | Some ptr \<Rightarrow> (case strncat_loop ptr src n 0 m of (ptr', m1) \<Rightarrow> Some (dest, m1(ptr' := 0))))"

partial_function (option) strchr :: "memory \<Rightarrow> u64 \<Rightarrow> u8 \<Rightarrow> u64 option" where
  "strchr m str c =
     (if m str = 0 then Some 0 else if m str = c then Some str else strchr m (str + 1) c)"

partial_function (option) strstr_match :: "memory \<Rightarrow> u64 \<Rightarrow> u64 \<Rightarrow> u64 option" where
  "strstr_match m h n =
     (if m h \<noteq> 0 \<and> m n \<noteq> 0 \<and> m h = m n then strstr_match m (h + 1) (n + 1) else Some n)"

partial_function (option) strstr_loop :: "memory \<Rightarrow> u64 \<Rightarrow> u64 \<Rightarrow> u64 option" where
  "strstr_loop m haystack needle =
     (if m haystack = 0 then Some 0
      else case strstr_match m haystack needle of
        None \<Rightarrow> None
      | Some n \<Rightarrow> if m n = 0 then Some haystack else strstr_loop m (haystack + 1) needle)"

definition strstr :: "memory \<Rightarrow> u64 \<Rightarrow> u64 \<Rightarrow> u64 option" where
  "strstr m haystack needle =
     (if m needle = 0 then Some haystack else strstr_loop m haystack needle)"

text \<open>The two scans of \<open>strtok\<close> and \<open>strtok_r\<close>: over delimiters, over the token.\<close>

partial_function (option) skip_delim :: "memory \<Rightarrow> u64 \<Rightarrow> u64 \<Rightarrow> u64 option" where
  "skip_delim m delim s =
     (if m s = 0 then Some s
      else case strchr m delim (m s) of
        None \<Rightarrow> None
      | Some p \<Rightarrow> if p \<noteq> 0 then skip_delim m delim (s + 1) else Some s)"

partial_function (option) skip_token :: "memory \<Rightarrow> u64 \<Rightarrow> u64 \<Rightarrow> u64 option" where
  "skip_token m delim s =
     (if m s = 0 then Some s
      else case strchr m delim (m s) of
        None \<Rightarrow> None
      | Some p \<Rightarrow> if p = 0 then skip_token m delim (s + 1) else Some s)"

text \<open>\<open>strtok\<close> with its static pointer as argument and result.\<close>

definition strtok :: "u64 \<Rightarrow> u64 \<Rightarrow> u64 \<Rightarrow> memory \<Rightarrow> (u64 \<times> u64 \<times> memory) option" where
  "strtok str delim next_ptr m =
     (let next1 = (if str \<noteq> 0 then str else next_ptr) in
      if next1 = 0 then Some (0, next1, m)
      else case skip_delim m delim next1 of
        None \<Rightarrow> None
      | Some start \<Rightarrow>
          if m start = 0 then Some (0, 0, m)
          else case skip_token m delim start of
            None \<Rightarrow> None
          | Some e \<Rightarrow>
              if m e \<noteq> 0 then Some (start, e + 1, m(e := 0)) else Some (start, 0, m))"

text \<open>\<open>strtok_r\<close> with \<open>*saveptr\<close> as argument and result.\<close>

definition strtok_r :: "u64 \<Rightarrow> u64 \<Rightarrow> u64 \<Rightarrow> memory \<Rightarrow> (u64 \<times> u64 \<times> memory) option" where
  "strtok_r str delim save m =
     (let save1 = (if str \<noteq> 0 then str else save) in
      if save1 = 0 then Some (0, save1, m)
      else case skip_delim m delim save1 of
        None \<Rightarrow> None
      | Some s \<Rightarrow>
          if m s = 0 then Some (0, 0, m)
          else case skip_token m delim s of
            None \<Rightarrow> None
          | Some e \<Rightarrow>
              if m e = 0 then Some (s, 0, m) else Some (s, e + 1, m(e := 0)))"

partial_function (option) strrchr_loop :: "memory \<Rightarrow> u64 \<Rightarrow> u8 \<Rightarrow> u64 \<Rightarrow> u64 option" where
  "strrchr_loop m s c last_found =
     (if m s = 0 then Some last_found
      else strrchr_loop m (s + 1) c (if m s = c then s else last_found))"

definition strrchr :: "memory \<Rightarrow> u64 \<Rightarrow> u8 \<Rightarrow> u64 option" where
  "strrchr m s c = strrchr_loop m s c 0"

text \<open>The duplicates: \<open>malloc\<close> of the length and a copy without the terminator.\<close>

definition strdup :: "u64 \<Rightarrow> 'a heap_scheme \<Rightarrow> (u64 \<times> 'a heap_scheme) option" where
  "strdup p s =
     (case strlen (mem s) p of
        None \<Rightarrow> None
      | Some szs \<Rightarrow>
          (case malloc (ucast szs) s of
             None \<Rightarrow> None
           | Some (new_str, s1) \<Rightarrow>
               Some (new_str, s1\<lparr>mem := snd (memcpy (mem s1) new_str p (ucast szs))\<rparr>)))"

definition strndup :: "u64 \<Rightarrow> u32 \<Rightarrow> 'a heap_scheme \<Rightarrow> (u64 \<times> 'a heap_scheme) option" where
  "strndup p n s =
     (case strlen (mem s) p of
        None \<Rightarrow> None
      | Some len \<Rightarrow>
          let szs = (if n < len then ucast n else ucast len) in
          (case malloc szs s of
             None \<Rightarrow> None
           | Some (new_str, s1) \<Rightarrow>
               Some (new_str, s1\<lparr>mem := snd (memcpy (mem s1) new_str p szs)\<rparr>)))"


declare strncpy_copy.simps [simp del] strncpy_pad.simps [simp del] strncmp_loop.simps [simp del]
  strncat_loop.simps [simp del]

section \<open>Strings in memory\<close>

fun c_string :: "memory \<Rightarrow> u64 \<Rightarrow> u8 list \<Rightarrow> bool" where
  "c_string m p [] \<longleftrightarrow> m p = 0"
| "c_string m p (x # xs) \<longleftrightarrow> m p = x \<and> x \<noteq> 0 \<and> c_string m (p + 1) xs"

lemma c_string_append:
  "c_string m p (xs @ ys) \<longleftrightarrow>
     (\<forall>i<length xs. m (p + of_nat i) = xs ! i \<and> xs ! i \<noteq> 0) \<and> c_string m (p + of_nat (length xs)) ys"
proof (induction xs arbitrary: p)
  case (Cons x xs)
  have "(\<forall>i<length (x # xs). m (p + of_nat i) = (x # xs) ! i \<and> (x # xs) ! i \<noteq> 0) \<longleftrightarrow>
      m p = x \<and> x \<noteq> 0 \<and> (\<forall>i<length xs. m (p + 1 + of_nat i) = xs ! i \<and> xs ! i \<noteq> 0)"
    by (auto simp: less_Suc_eq_0_disj add.assoc)
  then show ?case using Cons by (simp add: add.assoc)
qed simp

lemma c_string_nth:
  "c_string m p xs \<longleftrightarrow>
     (\<forall>i<length xs. m (p + of_nat i) = xs ! i \<and> xs ! i \<noteq> 0) \<and> m (p + of_nat (length xs)) = 0"
  using c_string_append [of m p xs "[]"] by simp

lemma c_string_cong:
  assumes "\<forall>i\<le>length xs. m' (p + of_nat i) = m (p + of_nat i)"
  shows "c_string m' p xs = c_string m p xs"
  using assms by (simp add: c_string_nth)

lemma c_string_nonzero: "c_string m p xs \<Longrightarrow> 0 \<notin> set xs"
  by (auto simp: c_string_nth in_set_conv_nth)

lemma c_string_same: "c_string m p xs \<Longrightarrow> c_string m p ys \<Longrightarrow> xs = ys"
proof (induction xs arbitrary: p ys)
  case Nil
  then show ?case by (cases ys) auto
next
  case (Cons x xs)
  then show ?case by (cases ys) auto
qed

lemma unat_ucast32 [simp]: "unat (ucast (w :: u32) :: u64) = unat w"
  using unsigned_less [of w, where 'a = nat] by (simp add: unsigned_ucast_eq take_bit_nat_eq_self_iff)

lemma strlen_loop_string:
  assumes "c_string m (str + ucast len) xs" and "unat len + length xs < 2 ^ 32"
  shows "strlen_loop m str len = Some (len + of_nat (length xs))"
  using assms
proof (induction xs arbitrary: len)
  case Nil
  then show ?case by (simp add: strlen_loop.simps)
next
  case (Cons x xs)
  have "unat (len + 1) = unat len + 1" using Cons.prems(2) by (simp add: unat_word_ariths)
  then have u: "(ucast (len + 1) :: u64) = ucast len + 1"
    using Cons.prems(2) by (intro word_unat_eq_iff [THEN iffD2]) (simp add: unat_word_ariths)
  have "strlen_loop m str (len + 1) = Some (len + 1 + of_nat (length xs))"
    using Cons.prems \<open>unat (len + 1) = _\<close> by (intro Cons.IH) (simp_all add: u add.assoc)
  then show ?case using Cons.prems(1) by (subst strlen_loop.simps) (simp add: add.assoc)
qed

lemma strlen_string:
  assumes "c_string m p xs" and "length xs < 2 ^ 32"
  shows "strlen m p = Some (of_nat (length xs))"
  using strlen_loop_string [of m p 0 xs] assms by (simp add: strlen_def)

lemma skip_to_end_string: "c_string m p xs \<Longrightarrow> skip_to_end m p = Some (p + of_nat (length xs))"
proof (induction xs arbitrary: p)
  case (Cons x xs)
  then show ?case by (subst skip_to_end.simps) (simp add: add.assoc)
qed (simp add: skip_to_end.simps)

text \<open>\<open>strcmp\<close> compares lexicographically by unsigned bytes.\<close>

lemma strcmp_strings:
  assumes "c_string m p xs" and "c_string m q ys"
  shows "\<exists>r. strcmp m p q = Some r \<and> (r = 0 \<longleftrightarrow> xs = ys) \<and> (r < 0 \<longleftrightarrow> xs < ys)"
  using assms
proof (induction xs arbitrary: p q ys)
  case Nil
  have "0 < uint y" "uint y \<noteq> 0" if "y \<noteq> 0" for y :: u8
    using that by (simp_all add: word_neq_0_conv word_less_def)
  with Nil show ?case by (cases ys) (simp_all add: strcmp.simps [of m p])
next
  case (Cons x xs)
  show ?case
  proof (cases ys)
    case Nil
    have "x \<noteq> 0" using Cons.prems by simp
    then have "0 < uint x" by (simp add: word_neq_0_conv word_less_def)
    then show ?thesis using Cons.prems Nil by (simp add: strcmp.simps [of m p])
  next
    case ys: (Cons y zs)
    show ?thesis
    proof (cases "x = y")
      case True
      then show ?thesis
        using Cons.prems Cons.IH [of "p + 1" "q + 1" zs] by (simp add: ys strcmp.simps [of m p])
    next
      case False
      then have "uint x \<noteq> uint y" by (simp add: word_uint_eq_iff)
      then show ?thesis
        using Cons.prems False by (simp add: ys strcmp.simps [of m p] word_less_def)
    qed
  qed
qed

lemma strchr_string:
  assumes "c_string m p xs" and "\<forall>i<length xs. p + of_nat i \<noteq> 0" and "c \<noteq> 0"
  shows "strchr m p c = Some (if c \<in> set xs then p + of_nat (length (takeWhile (\<lambda>x. x \<noteq> c) xs)) else 0)"
  using assms
proof (induction xs arbitrary: p)
  case (Cons x xs)
  have "\<forall>i<length xs. p + 1 + of_nat i \<noteq> 0"
  proof (intro allI impI)
    fix i assume "i < length xs"
    then show "p + 1 + of_nat i \<noteq> 0" using Cons.prems(2) [rule_format, of "Suc i"] by (simp add: add.assoc)
  qed
  then have IH: "strchr m (p + 1) c =
      Some (if c \<in> set xs then p + 1 + of_nat (length (takeWhile (\<lambda>x. x \<noteq> c) xs)) else 0)"
    using Cons.prems by (intro Cons.IH) simp_all
  show ?case using Cons.prems(1,3) IH by (subst strchr.simps) (auto simp: add.assoc)
qed (simp add: strchr.simps)

lemma strchr_found:
  assumes "c_string m p xs" and "\<forall>i<length xs. p + of_nat i \<noteq> 0" and "c \<noteq> 0"
  obtains r where "strchr m p c = Some r" "r \<noteq> 0 \<longleftrightarrow> c \<in> set xs"
proof -
  have "p + of_nat (length (takeWhile (\<lambda>x. x \<noteq> c) xs)) \<noteq> 0" if "c \<in> set xs"
  proof -
    have "length (takeWhile (\<lambda>x. x \<noteq> c) xs) < length xs"
      using that length_takeWhile_le [of "\<lambda>x. x \<noteq> c" xs]
      by (metis (mono_tags, lifting) le_neq_implies_less takeWhile_eq_all_conv takeWhile_eq_take take_all_iff)
    then show ?thesis using assms(2) by blast
  qed
  then show thesis using strchr_string [OF assms] that by auto
qed

text \<open>The scans over delimiters and over a token, as \<open>dropWhile\<close>.\<close>

lemma skip_scans:
  assumes "c_string m p xs" and "c_string m d ds" and "\<forall>i<length ds. d + of_nat i \<noteq> 0"
  shows "skip_delim m d p = Some (p + of_nat (length (takeWhile (\<lambda>x. x \<in> set ds) xs)))"
    and "skip_token m d p = Some (p + of_nat (length (takeWhile (\<lambda>x. x \<notin> set ds) xs)))"
proof -
  have one: "\<exists>r. strchr m d x = Some r \<and> (r \<noteq> 0 \<longleftrightarrow> x \<in> set ds)" if "x \<noteq> 0" for x
    using strchr_found [OF assms(2,3) that] by metis
  from assms(1) show "skip_delim m d p = Some (p + of_nat (length (takeWhile (\<lambda>x. x \<in> set ds) xs)))"
  proof (induction xs arbitrary: p)
    case (Cons x xs)
    then obtain r where "strchr m d x = Some r" "r \<noteq> 0 \<longleftrightarrow> x \<in> set ds" using one [of x] by auto
    then show ?case using Cons by (subst skip_delim.simps) (auto simp: add.assoc)
  qed (simp add: skip_delim.simps)
  from assms(1) show "skip_token m d p = Some (p + of_nat (length (takeWhile (\<lambda>x. x \<notin> set ds) xs)))"
  proof (induction xs arbitrary: p)
    case (Cons x xs)
    then obtain r where "strchr m d x = Some r" "r \<noteq> 0 \<longleftrightarrow> x \<in> set ds" using one [of x] by auto
    then show ?case using Cons by (subst skip_token.simps) (auto simp: add.assoc)
  qed (simp add: skip_token.simps)
qed

text \<open>One step of tokenising on lists: the token and, when a delimiter ends it, what follows.\<close>

definition next_token :: "u8 set \<Rightarrow> u8 list \<Rightarrow> (u8 list \<times> u8 list option) option" where
  "next_token ds xs =
     (let ys = dropWhile (\<lambda>x. x \<in> ds) xs;
          rest = dropWhile (\<lambda>x. x \<notin> ds) ys
      in if ys = [] then None
         else Some (takeWhile (\<lambda>x. x \<notin> ds) ys, if rest = [] then None else Some (tl rest)))"

lemma of_nat_inj64: "i < 2 ^ 64 \<Longrightarrow> j < 2 ^ 64 \<Longrightarrow> (of_nat i :: u64) = of_nat j \<longleftrightarrow> i = j"
  by (metis unat_of_nat64)

lemma c_string_cut:
  assumes "c_string m p (xs @ x # ys)" and "length (xs @ x # ys) < 2 ^ 64"
  shows "c_string (m(p + of_nat (length xs) := 0)) p xs"
    and "c_string (m(p + of_nat (length xs) := 0)) (p + of_nat (length xs) + 1) ys"
proof -
  have d: "p + of_nat i \<noteq> p + of_nat (length xs)" if "i < length xs" for i
    using that assms(2) by (simp add: of_nat_inj64)
  show "c_string (m(p + of_nat (length xs) := 0)) p xs"
    using assms(1) d by (simp add: c_string_append c_string_nth [of _ p xs])
  have d': "p + of_nat (length xs) + 1 + of_nat i \<noteq> p + of_nat (length xs)" if "i \<le> length ys" for i
  proof -
    have "of_nat (Suc i) \<noteq> (of_nat 0 :: u64)" using that assms(2) of_nat_inj64 [of "Suc i" 0] by simp
    then show ?thesis by (simp add: add.assoc)
  qed
  have "c_string m (p + of_nat (length xs) + 1) ys" using assms(1) by (simp add: c_string_append)
  then show "c_string (m(p + of_nat (length xs) := 0)) (p + of_nat (length xs) + 1) ys"
    using d' by (subst c_string_cong [of _ _ _ m]) simp_all
qed

lemma token_parts:
  fixes p :: u64
  defines "pre \<equiv> \<lambda>ds xs :: u8 list. length (takeWhile (\<lambda>x. x \<in> ds) xs)"
  assumes "c_string m p xs"
  shows "c_string m (p + of_nat (pre ds xs)) (dropWhile (\<lambda>x. x \<in> ds) xs)"
  using assms(2) c_string_append [of m p "takeWhile (\<lambda>x. x \<in> ds) xs" "dropWhile (\<lambda>x. x \<in> ds) xs"]
  by (simp add: pre_def)

lemma strtok_eq_strtok_r: "strtok str d n m = strtok_r str d n m"
  by (simp add: strtok_def strtok_r_def Let_def split: option.splits)

text \<open>
  C31. On a terminated string, \<open>strtok_r\<close> computes one step of tokenising: it skips
  leading delimiters, returns null when nothing is left, and otherwise returns the maximal
  delimiter-free prefix as a terminated string, leaving \<open>*saveptr\<close> at what follows the
  delimiter it overwrote (null when the token ends the string). The delimiter set is unchanged.
\<close>

theorem strtok_r_next_token:
  assumes str: "c_string m p xs" "\<forall>j\<le>length xs. p + of_nat j \<noteq> 0" "length xs < 2 ^ 64"
    and del: "c_string m d ds" "\<forall>i<length ds. d + of_nat i \<noteq> 0"
    and apart: "\<forall>i\<le>length ds. \<forall>j\<le>length xs. d + of_nat i \<noteq> p + of_nat j"
  shows "case next_token (set ds) xs of
      None \<Rightarrow> strtok_r p d save m = Some (0, 0, m)
    | Some (t, rest) \<Rightarrow>
        (\<exists>q save' m'. strtok_r p d save m = Some (q, save', m') \<and> q \<noteq> 0 \<and> c_string m' q t \<and>
           (case rest of None \<Rightarrow> save' = 0 | Some r \<Rightarrow> save' \<noteq> 0 \<and> c_string m' save' r) \<and> c_string m' d ds)"
proof -
  obtain n where n: "n = length (takeWhile (\<lambda>x. x \<in> set ds) xs)" by simp
  obtain ys where ys: "ys = dropWhile (\<lambda>x. x \<in> set ds) xs" by simp
  obtain t rest where t: "t = takeWhile (\<lambda>x. x \<notin> set ds) ys" and rest: "rest = dropWhile (\<lambda>x. x \<notin> set ds) ys" by simp
  let ?q = "p + of_nat n"
  have yt: "ys = t @ rest" by (simp add: t rest)
  have len: "n + length ys = length xs"
    using arg_cong [OF takeWhile_dropWhile_id [of "\<lambda>x. x \<in> set ds" xs], of length]
    unfolding n ys length_append .
  have "p + of_nat 0 \<noteq> 0" using str(2) by blast
  then have p0: "p \<noteq> 0" by simp
  have q: "c_string m ?q ys" unfolding n ys by (rule token_parts [OF str(1)])
  have s1: "skip_delim m d p = Some ?q" unfolding n by (rule skip_scans(1) [OF str(1) del])
  have s2: "skip_token m d ?q = Some (?q + of_nat (length t))" unfolding t by (rule skip_scans(2) [OF q del])
  have tok: "next_token (set ds) xs = (if ys = [] then None else Some (t, if rest = [] then None else Some (tl rest)))"
    unfolding next_token_def Let_def t rest ys ..
  show ?thesis
  proof (cases "ys = []")
    case True
    then show ?thesis using tok s1 q p0 by (simp add: strtok_r_def)
  next
    case False
    have mq: "m ?q \<noteq> 0" using q False by (cases ys) auto
    have q0: "?q \<noteq> 0" using str(2) len by simp
    show ?thesis
    proof (cases rest)
      case Nil
      have "c_string m ?q t" using q yt Nil by simp
      moreover from this have "m (?q + of_nat (length t)) = 0" by (simp add: c_string_nth)
      then have "strtok_r p d save m = Some (?q, 0, m)" using s1 s2 mq p0 by (simp add: strtok_r_def)
      ultimately show ?thesis using tok False Nil del(1) q0 by simp
    next
      case (Cons x r)
      let ?e = "?q + of_nat (length t)" and ?m = "m(?q + of_nat (length t) := 0)"
      have sp: "ys = t @ x # r" using yt Cons by simp
      have cut: "c_string ?m ?q t" "c_string ?m (?e + 1) r"
        using c_string_cut [of m ?q t x r] q str(3) len by (simp_all add: sp)
      have me: "m ?e \<noteq> 0" using q by (simp add: sp c_string_append)
      have ep: "?e = p + of_nat (n + length t)" "?e + 1 = p + of_nat (Suc (n + length t))" by (simp_all add: add.assoc)
      have ln: "Suc (n + length t) \<le> length xs" using len by (simp add: sp)
      have "c_string ?m d ds"
      proof (subst c_string_cong [of _ _ _ m])
        show "\<forall>i\<le>length ds. ?m (d + of_nat i) = m (d + of_nat i)"
          using apart ln by (simp add: add.assoc flip: of_nat_add)
      qed (rule del(1))
      moreover have "?e + 1 \<noteq> 0" unfolding ep(2) using str(2) ln by blast
      moreover have "strtok_r p d save m = Some (?q, ?e + 1, ?m)" using s1 s2 mq me p0 by (simp add: strtok_r_def)
      ultimately show ?thesis using tok False Cons cut q0 by simp
    qed
  qed
qed

definition demo_text :: memory where
  "demo_text = (\<lambda>x. if x = 0x1001 then 97 else if x = 0x1002 then 98 else if x = 0x1004 then 99
     else if x = 0x1000 \<or> x = 0x1003 \<or> x = 0x2000 then 47 else 0)"

theorem strtok_r_next_token_witness:
  "\<exists>q save' m'. strtok_r 0x1000 0x2000 0 demo_text = Some (q, save', m') \<and> c_string m' q [97, 98] \<and>
     c_string m' save' [99]"
proof -
  have s: "c_string demo_text 0x1000 [47, 97, 98, 47, 99]" "c_string demo_text 0x2000 [47]"
    by (simp_all add: demo_text_def)
  have "j \<in> {0, 1, 2, 3, 4, 5}" if "j \<le> length [47, 97, 98, 47, 99 :: u8]" for j using that by auto
  then have a: "\<forall>j\<le>length [47, 97, 98, 47, 99 :: u8]. 0x1000 + of_nat j \<noteq> (0 :: u64)"
    "\<forall>i\<le>length [47 :: u8]. \<forall>j\<le>length [47, 97, 98, 47, 99 :: u8]. 0x2000 + of_nat i \<noteq> (0x1000 + of_nat j :: u64)"
    by (fastforce simp: le_Suc_eq)+
  have "next_token (set [47]) [47, 97, 98, 47, 99] = Some ([97, 98], Some [99])" by (simp add: next_token_def)
  then show ?thesis
    using strtok_r_next_token [OF s(1) a(1) _ s(2) _ a(2), of 0] by (auto simp: le_Suc_eq)
qed

lemma strcpy_loop_string:
  assumes "c_string m src xs" and "length xs < 2 ^ 64"
    and "\<forall>i\<le>length xs. \<forall>j\<le>length xs. ptr + of_nat i \<noteq> src + of_nat j"
  shows "\<exists>m'. strcpy_loop ptr src m = Some m' \<and> c_string m' ptr xs \<and>
    (\<forall>x. (\<forall>i\<le>length xs. x \<noteq> ptr + of_nat i) \<longrightarrow> m' x = m x)"
  using assms
proof (induction xs arbitrary: ptr src m)
  case Nil
  then show ?case by (simp add: strcpy_loop.simps)
next
  case (Cons x xs)
  let ?m = "m(ptr := x)"
  have ne: "ptr + 1 + of_nat i \<noteq> src + 1 + of_nat j" "ptr + of_nat 0 \<noteq> src + 1 + of_nat j"
    if "i \<le> length xs" "j \<le> length xs" for i j
    using Cons.prems(3) [rule_format, of "Suc i" "Suc j"] Cons.prems(3) [rule_format, of 0 "Suc j"] that
    by (simp_all add: add.assoc)
  have c: "c_string ?m (src + 1) xs"
    using Cons.prems(1) ne(2) by (subst c_string_cong [of _ _ _ m]) auto
  have l: "length xs < 2 ^ 64" using Cons.prems(2) by simp
  have n1: "\<forall>i\<le>length xs. \<forall>j\<le>length xs. ptr + 1 + of_nat i \<noteq> src + 1 + of_nat j" using ne(1) by blast
  obtain m' where m': "strcpy_loop (ptr + 1) (src + 1) ?m = Some m'" "c_string m' (ptr + 1) xs"
    "\<forall>x. (\<forall>i\<le>length xs. x \<noteq> ptr + 1 + of_nat i) \<longrightarrow> m' x = ?m x"
    using Cons.IH [OF c l n1] by blast
  have fresh: "ptr \<noteq> ptr + 1 + of_nat i" if "i \<le> length xs" for i
  proof -
    have "of_nat (Suc i) \<noteq> (of_nat 0 :: u64)"
      using that Cons.prems(2) of_nat_inj64 [of "Suc i" 0] by simp
    then show ?thesis by (simp add: add.assoc)
  qed
  have "m' ptr = x" using m'(3) fresh by simp
  moreover have "m' y = m y" if y: "\<forall>i\<le>length (x # xs). y \<noteq> ptr + of_nat i" for y
  proof -
    have "y \<noteq> ptr + 1 + of_nat i" if "i \<le> length xs" for i
      using y [rule_format, of "Suc i"] that by (simp add: add.assoc)
    moreover have "y \<noteq> ptr" using y [rule_format, of 0] by simp
    ultimately show ?thesis using m'(3) by simp
  qed
  ultimately show ?case
    using Cons.prems(1) m'(1,2) by (subst strcpy_loop.simps) simp
qed

lemma strcpy_string:
  assumes "c_string m src xs" and "length xs < 2 ^ 64"
    and "\<forall>i\<le>length xs. \<forall>j\<le>length xs. dest + of_nat i \<noteq> src + of_nat j"
  shows "\<exists>m'. strcpy dest src m = Some (dest, m') \<and> c_string m' dest xs \<and>
    (\<forall>x. (\<forall>i\<le>length xs. x \<noteq> dest + of_nat i) \<longrightarrow> m' x = m x)"
  using strcpy_loop_string [OF assms] by (auto simp: strcpy_def)

text \<open>
  \<open>strcat\<close> of two terminated strings leaves their concatenation, terminated, at
  the destination and changes only the bytes it appends.
\<close>

lemma strcat_appends:
  assumes d: "c_string m dest xs" and s: "c_string m src ys" and len: "length xs + length ys < 2 ^ 64"
    and apart: "\<forall>i\<le>length xs + length ys. \<forall>j\<le>length ys. dest + of_nat i \<noteq> src + of_nat j"
  shows "\<exists>m'. strcat dest src m = Some (dest, m') \<and> c_string m' dest (xs @ ys) \<and>
    (\<forall>x. (\<forall>i\<le>length ys. x \<noteq> dest + of_nat (length xs + i)) \<longrightarrow> m' x = m x)"
proof -
  let ?p = "dest + of_nat (length xs)"
  have "\<forall>i\<le>length ys. \<forall>j\<le>length ys. ?p + of_nat i \<noteq> src + of_nat j"
  proof (intro allI impI)
    fix i j assume "i \<le> length ys" "j \<le> length ys"
    then show "?p + of_nat i \<noteq> src + of_nat j"
      using apart [rule_format, of "length xs + i" j] by (simp add: add.assoc)
  qed
  then obtain m' where m': "strcpy_loop ?p src m = Some m'" "c_string m' ?p ys"
    "\<forall>x. (\<forall>i\<le>length ys. x \<noteq> ?p + of_nat i) \<longrightarrow> m' x = m x"
    using strcpy_loop_string [OF s, of ?p] len by auto
  have "dest + of_nat k \<noteq> ?p + of_nat i" if "k < length xs" "i \<le> length ys" for i k
    using that len of_nat_inj64 [of k "length xs + i"] by (simp add: add.assoc)
  then have keep: "m' (dest + of_nat k) = m (dest + of_nat k)" if "k < length xs" for k
    using m'(3) that by blast
  have "c_string m' dest (xs @ ys)"
    using d m'(2) keep by (simp add: c_string_append c_string_nth [of m])
  then show ?thesis
    using m' skip_to_end_string [OF d] by (auto simp: strcat_def add.assoc)
qed

lemma strcat_appends_example:
  "\<exists>m'. strcat 0x1004 0x2000 demo_text = Some (0x1004, m') \<and> c_string m' 0x1004 [99, 47]"
proof -
  have s: "c_string demo_text 0x1004 [99]" "c_string demo_text 0x2000 [47]" by (simp_all add: demo_text_def)
  have "\<forall>i\<le>length [99 :: u8] + length [47 :: u8]. \<forall>j\<le>length [47 :: u8].
      (0x1004 :: u64) + of_nat i \<noteq> 0x2000 + of_nat j"
    by (auto simp: le_Suc_eq)
  from strcat_appends [OF s _ this] show ?thesis by auto
qed

text \<open>
  \<open>strcmp\<close> returns on any two terminated strings; its sign is the lexicographic
  order of their bytes taken as unsigned, and it is zero exactly for equal strings.
\<close>

lemma strcmp_lexicographic:
  assumes "c_string m p xs" and "c_string m q ys"
  shows "\<exists>r. strcmp m p q = Some r \<and> (r = 0 \<longleftrightarrow> xs = ys) \<and> (r < 0 \<longleftrightarrow> xs < ys)"
  using assms by (rule strcmp_strings)

lemma strcmp_lexicographic_example:
  "\<exists>r. strcmp demo_text 0x1001 0x1004 = Some r \<and> r < 0"
proof -
  have "c_string demo_text 0x1001 [97, 98, 47, 99]" "c_string demo_text 0x1004 [99]"
    by (simp_all add: demo_text_def)
  from strcmp_lexicographic [OF this] show ?thesis by auto
qed

lemma of_nat_eq_ucast: "k < 2 ^ 64 \<Longrightarrow> (of_nat k :: u64) = ucast (i :: u32) \<longleftrightarrow> k = unat i"
  by (simp add: word_unat_eq_iff unat_of_nat64)

lemma strncpy_pad_bytes:
  assumes "i \<le> n"
  shows "strncpy_pad ptr n i m x =
     (if \<exists>k. unat i \<le> k \<and> k < unat n \<and> x = ptr + of_nat k then 0 else m x)"
  using assms
proof (induction ptr n i m rule: strncpy_pad.induct)
  case (1 ptr n i m)
  show ?case
  proof (cases "i < n")
    case True
    note u = word_Suc_le [OF True]
    let ?P = "\<lambda>lo. \<exists>k. lo \<le> k \<and> k < unat n \<and> x = ptr + of_nat k"
    have split: "unat i \<le> k \<longleftrightarrow> k = unat i \<or> unat i + 1 \<le> k" for k by auto
    have "?P (unat i) \<longleftrightarrow> x = ptr + of_nat (unat i) \<or> ?P (unat i + 1)"
      unfolding split [of "k" for k] using True by (auto simp only: word_less_nat_alt)
    then have "?P (unat i) \<longleftrightarrow> x = ptr + ucast i \<or> ?P (unat i + 1)" by simp
    moreover have "strncpy_pad ptr n i m x = strncpy_pad ptr n (i + 1) (m(ptr + ucast i := 0)) x"
      by (subst strncpy_pad.simps) (simp only: True if_True)
    moreover have "\<dots> = (if ?P (unat (i + 1)) then 0 else (m(ptr + ucast i := 0)) x)"
      by (rule 1(1) [OF True u(2)])
    ultimately show ?thesis unfolding u(1) by (simp only: fun_upd_apply) argo
  next
    case False
    then show ?thesis using 1(2) by (subst strncpy_pad.simps) (auto simp: word_less_nat_alt)
  qed
qed

text \<open>The copy loop leaves the first bytes of the source at the destination, index by index.\<close>

lemma strncpy_copy_bytes:
  assumes "c_string m src xs" and "unat i \<le> length xs" and "i \<le> n"
    and apart: "\<forall>k<unat n. \<forall>j\<le>length xs. ptr + of_nat k \<noteq> src + of_nat j"
  shows "unat (fst (strncpy_copy ptr src n i m)) = min (unat n) (length xs) \<and>
    (\<forall>k<unat n. snd (strncpy_copy ptr src n i m) (ptr + of_nat k) =
       (if unat i \<le> k \<and> k < length xs then xs ! k else m (ptr + of_nat k))) \<and>
    (\<forall>x. (\<forall>k<unat n. x \<noteq> ptr + of_nat k) \<longrightarrow> snd (strncpy_copy ptr src n i m) x = m x)"
  using assms
proof (induction ptr src n i m rule: strncpy_copy.induct)
  case (1 ptr src n i m)
  show ?case
  proof (cases "i < n \<and> unat i < length xs")
    case True
    then have lt: "i < n" and il: "unat i < length xs" by simp_all
    note u = word_Suc_le [OF lt]
    have "m (src + of_nat (unat i)) = xs ! unat i \<and> xs ! unat i \<noteq> 0"
      using 1(2) il unfolding c_string_nth by blast
    then have ch: "m (src + ucast i) = xs ! unat i" "xs ! unat i \<noteq> 0" by simp_all
    let ?m = "m(ptr + ucast i := xs ! unat i)"
    have un: "unat i < unat n" using lt by (simp add: word_less_nat_alt)
    have c: "c_string ?m src xs"
    proof (subst c_string_cong [of _ _ _ m])
      have "ptr + of_nat (unat i) \<noteq> src + of_nat j" if "j \<le> length xs" for j using 1(5) un that by blast
      then show "\<forall>j\<le>length xs. ?m (src + of_nat j) = m (src + of_nat j)" by fastforce
    qed (rule 1(2))
    have step: "strncpy_copy ptr src n i m = strncpy_copy ptr src n (i + 1) ?m"
      by (subst strncpy_copy.simps) (simp only: lt ch simp_thms if_True)
    have cond: "i < n \<and> m (src + ucast i) \<noteq> 0" using lt ch by simp
    have il1: "unat (i + 1) \<le> length xs" using il u(1) by simp
    have IH: "unat (fst (strncpy_copy ptr src n (i + 1) ?m)) = min (unat n) (length xs)"
      "\<forall>k<unat n. snd (strncpy_copy ptr src n (i + 1) ?m) (ptr + of_nat k) =
         (if unat (i + 1) \<le> k \<and> k < length xs then xs ! k else ?m (ptr + of_nat k))"
      "\<forall>x. (\<forall>k<unat n. x \<noteq> ptr + of_nat k) \<longrightarrow> snd (strncpy_copy ptr src n (i + 1) ?m) x = ?m x"
      using 1(1) [OF cond, unfolded ch(1), OF c il1 u(2) 1(5)] by blast+
    have inj: "ptr + of_nat k = ptr + ucast i \<longleftrightarrow> k = unat i" if "k < unat n" for k
      using that un unsigned_less [of n, where 'a = nat] by (simp add: of_nat_eq_ucast)
    show ?thesis
      unfolding step
    proof (intro conjI allI impI)
      fix k assume k: "k < unat n"
      show "snd (strncpy_copy ptr src n (i + 1) ?m) (ptr + of_nat k) =
          (if unat i \<le> k \<and> k < length xs then xs ! k else m (ptr + of_nat k))"
        using IH(2) [rule_format, OF k] inj [OF k] il u(1) by (cases "k = unat i") auto
    next
      fix x assume x: "\<forall>k<unat n. x \<noteq> ptr + of_nat k"
      have "x \<noteq> ptr + ucast i" using x [rule_format, OF un] by simp
      then show "snd (strncpy_copy ptr src n (i + 1) ?m) x = m x" using IH(3) x by simp
    qed (rule IH(1))
  next
    case False
    have "strncpy_copy ptr src n i m = (i, m)"
    proof (cases "i < n")
      case True
      then have "unat i = length xs" using False 1(3) by simp
      then have "m (src + of_nat (unat i)) = 0" using 1(2) by (simp only: c_string_nth)
      then have "m (src + ucast i) = 0" by simp
      then show ?thesis by (subst strncpy_copy.simps) simp
    qed (subst strncpy_copy.simps, simp)
    then show ?thesis using False 1(3,4) by (auto simp: word_less_nat_alt word_le_nat_alt)
  qed
qed

text \<open>
  \<open>strncpy\<close> writes exactly the \<open>n\<close> bytes of its destination: the source
  cut or padded with zeros to \<open>n\<close> bytes. Without room for the terminator the result is
  not terminated, which is why its callers store a zero behind it.
\<close>

lemma strncpy_bounds:
  assumes "c_string m src xs"
    and "\<forall>k<unat n. \<forall>j\<le>length xs. dest + of_nat k \<noteq> src + of_nat j"
  shows "case strncpy dest src n m of (r, m') \<Rightarrow> r = dest \<and>
    (\<forall>k<unat n. m' (dest + of_nat k) = (if k < length xs then xs ! k else 0)) \<and>
    (\<forall>x. (\<forall>k<unat n. x \<noteq> dest + of_nat k) \<longrightarrow> m' x = m x)"
proof -
  obtain i m1 where c: "strncpy_copy dest src n 0 m = (i, m1)" by fastforce
  have s: "unat i = min (unat n) (length xs)"
    "\<forall>k<unat n. m1 (dest + of_nat k) = (if k < length xs then xs ! k else m (dest + of_nat k))"
    "\<forall>x. (\<forall>k<unat n. x \<noteq> dest + of_nat k) \<longrightarrow> m1 x = m x"
    using strncpy_copy_bytes [OF assms(1) _ _ assms(2), of 0] c by simp_all
  have le: "i \<le> n" using s(1) by (simp add: word_le_nat_alt)
  note p = strncpy_pad_bytes [OF le, of dest m1]
  have inj: "dest + of_nat k = dest + (of_nat j :: u64) \<longleftrightarrow> k = j" if "k < unat n" "j < unat n" for k j
    using that unsigned_less [of n, where 'a = nat] by (simp add: of_nat_inj64)
  have "strncpy_pad dest n i m1 (dest + of_nat k) = (if k < length xs then xs ! k else 0)" if k: "k < unat n" for k
  proof -
    have "(\<exists>j. unat i \<le> j \<and> j < unat n \<and> dest + (of_nat k :: u64) = dest + of_nat j) \<longleftrightarrow> length xs \<le> k"
      using inj [OF k] k s(1) by (auto simp: min_def split: if_splits)
    then show ?thesis using p s(2) k by simp
  qed
  moreover have "strncpy_pad dest n i m1 x = m x" if "\<forall>k<unat n. x \<noteq> dest + of_nat k" for x
    using p s(3) that by auto
  ultimately show ?thesis by (simp add: strncpy_def c)
qed

lemma strncpy_bounds_example:
  "snd (strncpy 0x3000 0x1001 2 demo_text) 0x3000 = 97 \<and> snd (strncpy 0x3000 0x1001 2 demo_text) 0x3001 = 98"
proof -
  have s: "c_string demo_text 0x1001 [97, 98, 47, 99]" by (simp add: demo_text_def)
  have "k = 0 \<or> k = 1" if "k < unat (2 :: u32)" for k using that by auto
  then have "\<forall>k<unat (2 :: u32). \<forall>j\<le>length [97, 98, 47, 99 :: u8]. (0x3000 :: u64) + of_nat k \<noteq> 0x1001 + of_nat j"
    by (fastforce simp: le_Suc_eq)
  from strncpy_bounds [OF s this]
  have "\<forall>k<2. snd (strncpy 0x3000 0x1001 2 demo_text) (0x3000 + of_nat k) = [97, 98, 47, 99] ! k"
    by (auto split: prod.splits)
  from this [rule_format, of 0] this [rule_format, of 1] show ?thesis by simp
qed

end
