(* ===== verification/Ldisc.thy ===== *)
theory Ldisc
  imports Ps2k Cstring
begin

unbundle bit_operations_syntax

text \<open>
  The line discipline, \<open>kernel/src/drivers/tty/ldisc/ldisc.cpp\<close> and
  \<open>ldisc_qwerty.hpp\<close>: modifier keys, translation of key codes to characters, the line
  buffer, and the blocking read. Its state is the record \<open>ldisc_state\<close>, with the memory
  the caller's buffer lies in and the characters written to the console.

  The waiting loops are partial functions over the argument \<open>wake\<close>, what the interrupts
  that arrive during one turn of the loop do to the state. The bytes that follow the
  character tables in memory are the argument \<open>behind\<close>.
\<close>

section \<open>Data\<close>

definition MODE_SHIFT :: u32 where "MODE_SHIFT = 1"
definition MODE_CTRL :: u32 where "MODE_CTRL = 2"
definition MODE_CAPS :: u32 where "MODE_CAPS = 4"

record ldisc_state =
  ld_mode :: u32
  read_buf :: u64
  read_buf_size :: u64
  read_n :: u64
  reading :: bool
  ld_echo :: bool
  ld_mem :: memory
  ld_console :: "u8 list"

record 'd ldisc = "'d ps2k" +
  ld :: ldisc_state

text \<open>The character tables; entries that the source does not write are zero.\<close>

abbreviation chars :: "string \<Rightarrow> u8 list" where "chars s \<equiv> map of_char s"

definition qwerty_normal :: "u8 list" where
  "qwerty_normal =
     [0, 0] @ chars ''1234567890-='' @ [8, 9] @ chars ''qwertyuiop[]'' @ [10, 0] @
     chars ''asdfghjkl;'' @ [39, 96, 0, 92] @ chars ''zxcvbnm,./'' @ [0] @ chars ''*'' @ [0] @
     chars '' '' @ replicate 15 0 @ chars ''789-456+1230.'' @ [10, 0] @ chars ''/'' @
     replicate 15 0 @ chars ''='' @ [0] @ chars '','' @ replicate 11 0"

definition qwerty_shifted :: "u8 list" where
  "qwerty_shifted =
     [0, 0] @ chars ''!@#$%^&*()_+'' @ [8, 9] @ chars ''QWERTYUIOP{}'' @ [10, 0] @
     chars ''ASDFGHJKL:'' @ [34] @ chars ''~'' @ [0] @ chars ''|ZXCVBNM<>?'' @ [0] @
     chars ''*'' @ [0] @ chars '' '' @ replicate 15 0 @ chars ''789-456+1230.'' @ [10, 0] @
     chars ''/'' @ replicate 15 0 @ chars ''='' @ [0] @ chars '','' @ replicate 11 0"

definition qwerty_capsed :: "u8 list" where
  "qwerty_capsed =
     [0, 0] @ chars ''1234567890-='' @ [8, 9] @ chars ''QWERTYUIOP[]'' @ [10, 0] @
     chars ''ASDFGHJKL;'' @ [39, 96, 0, 92] @ chars ''ZXCVBNM,./'' @ [0] @ chars ''*'' @ [0] @
     chars '' '' @ replicate 15 0 @ chars ''789-456+1230.'' @ [10, 0] @ chars ''/'' @
     replicate 15 0 @ chars ''='' @ [0] @ chars '','' @ replicate 11 0"

section \<open>The line buffer\<close>

definition ld_reset :: "ldisc_state \<Rightarrow> ldisc_state" where
  "ld_reset l = l\<lparr>reading := False, read_buf := 0, read_buf_size := 0, ld_echo := False\<rparr>"

definition ld_push :: "u8 \<Rightarrow> ldisc_state \<Rightarrow> ldisc_state" where
  "ld_push c l =
     (if \<not> reading l then l
      else if read_buf l = 0 then l
      else
        let l1 = (if read_buf_size l < read_n l then l\<lparr>read_n := 0\<rparr> else l)
        in if c = 10 then ld_reset l1
           else if c = 8
           then l1\<lparr>read_n := read_n l1 - 1, ld_mem := (ld_mem l1)(read_buf l1 + (read_n l1 - 1) := 0)\<rparr>
           else l1\<lparr>ld_mem := (ld_mem l1)(read_buf l1 + read_n l1 := c), read_n := read_n l1 + 1\<rparr>)"

partial_function (option) wait_not_reading ::
  "(('d, 'a) ldisc_scheme \<Rightarrow> ('d, 'a) ldisc_scheme) \<Rightarrow> ('d, 'a) ldisc_scheme \<Rightarrow> ('d, 'a) ldisc_scheme option" where
  "wait_not_reading wake c = (if reading (ld c) then wait_not_reading wake (wake c) else Some c)"

definition ld_set ::
  "(('d, 'a) ldisc_scheme \<Rightarrow> ('d, 'a) ldisc_scheme) \<Rightarrow> bool \<Rightarrow> u64 \<Rightarrow> u64 \<Rightarrow> ('d, 'a) ldisc_scheme \<Rightarrow>
   ('d, 'a) ldisc_scheme option" where
  "ld_set wake ech buf bsize c = do {
     c1 \<leftarrow> wait_not_reading wake c;
     Some (c1\<lparr>ld := (ld c1)\<lparr>read_buf := buf, read_buf_size := bsize, read_n := 0, reading := True,
                              ld_echo := ech\<rparr>\<rparr>) }"

definition read_done :: "('d, 'a) ldisc_scheme \<Rightarrow> bool" where
  "read_done c \<longleftrightarrow> \<not> reading (ld c)"

definition read_count :: "('d, 'a) ldisc_scheme \<Rightarrow> u64" where
  "read_count c = read_n (ld c)"

section \<open>Key events\<close>

definition mode_key :: "u32 \<Rightarrow> key_event \<Rightarrow> u32 option" where
  "mode_key m ev =
     (if ev_keycode ev = KEY_LEFTSHIFT \<or> ev_keycode ev = KEY_RIGHTSHIFT
      then Some (if ev_state ev = PRESSED then m OR MODE_SHIFT else m AND NOT MODE_SHIFT)
      else if ev_keycode ev = KEY_LEFTCTRL \<or> ev_keycode ev = KEY_RIGHTCTRL
      then Some (if ev_state ev = PRESSED then m OR MODE_CTRL else m AND NOT MODE_CTRL)
      else if ev_keycode ev = KEY_CAPSLOCK
      then Some (if ev_state ev = PRESSED then m XOR MODE_CAPS else m)
      else None)"

definition table_at :: "(nat \<Rightarrow> u8) \<Rightarrow> u8 list \<Rightarrow> u16 \<Rightarrow> u8" where
  "table_at behind t kc = (if unat kc < 118 then t ! unat kc else behind (unat kc))"

definition key_char :: "(nat \<Rightarrow> u8) \<Rightarrow> u32 \<Rightarrow> u16 \<Rightarrow> u8" where
  "key_char behind m kc =
     table_at behind (if m AND MODE_SHIFT \<noteq> 0 then qwerty_shifted
                      else if m AND MODE_CAPS \<noteq> 0 then qwerty_capsed else qwerty_normal) kc"

definition ldisc_ps2k_event_handler :: "(nat \<Rightarrow> u8) \<Rightarrow> key_event \<Rightarrow> ldisc_state \<Rightarrow> ldisc_state" where
  "ldisc_ps2k_event_handler behind ev l =
     (case mode_key (ld_mode l) ev of
        Some m \<Rightarrow> l\<lparr>ld_mode := m\<rparr>
      | None \<Rightarrow>
          if ev_state ev \<noteq> PRESSED then l
          else
            let c = key_char behind (ld_mode l) (ev_keycode ev)
            in if c \<noteq> 0 \<and> check_printable (ev_keycode ev)
               then ld_push c (if ld_echo l then l\<lparr>ld_console := ld_console l @ [c]\<rparr> else l)
               else l)"

text \<open>Calls through the callback pointer of the keyboard driver, the handler being at \<open>fn_addr\<close>.\<close>

definition ldisc_call ::
  "(nat \<Rightarrow> u8) \<Rightarrow> u64 \<Rightarrow> u64 \<Rightarrow> key_event \<Rightarrow> u64 \<Rightarrow> ('d, 'a) ldisc_scheme \<Rightarrow> ('d, 'a) ldisc_scheme" where
  "ldisc_call behind fn_addr fn ev userdata c =
     (if fn = fn_addr then c\<lparr>ld := ldisc_ps2k_event_handler behind ev (ld c)\<rparr> else c)"

section \<open>Reading and writing\<close>

definition builtin_ldisc_read ::
  "(('d, 'a) ldisc_scheme \<Rightarrow> ('d, 'a) ldisc_scheme) \<Rightarrow> bool \<Rightarrow> u64 \<Rightarrow> u64 \<Rightarrow> ('d, 'a) ldisc_scheme \<Rightarrow>
   (u64 \<times> ('d, 'a) ldisc_scheme) option" where
  "builtin_ldisc_read wake ech buf n c =
     (if buf = 0 \<or> n = 0 then Some (0, c)
      else do {
        c1 \<leftarrow> ld_set wake ech buf n c;
        c2 \<leftarrow> wait_not_reading wake c1;
        let count = read_count c2;
        Some (count, c2\<lparr>ld := ld_reset (ld c2)\<rparr>) })"

text \<open>
  \<open>printf("%.*s", num, buffer)\<close>: the precision is read as an \<open>int\<close>, a negative one
  counts as zero, and the string is written up to its terminator or the precision.
\<close>

definition star_precision :: "u64 \<Rightarrow> nat" where
  "star_precision num = (let prec = (ucast num :: 32 word) in if 0 < sint prec then unat prec else 0)"

fun string_output :: "memory \<Rightarrow> u64 \<Rightarrow> nat \<Rightarrow> u8 list" where
  "string_output m p 0 = []"
| "string_output m p (Suc n) = (if m p \<noteq> 0 then m p # string_output m (p + 1) n else [])"

definition builtin_ldisc_write :: "u64 \<Rightarrow> u64 \<Rightarrow> ldisc_state \<Rightarrow> int \<times> ldisc_state" where
  "builtin_ldisc_write buffer num l =
     (let out = string_output (ld_mem l) buffer (star_precision num)
      in (int (length out), l\<lparr>ld_console := ld_console l @ out\<rparr>))"

definition builtin_char_to_keycode :: "u8 \<Rightarrow> u16" where
  "builtin_char_to_keycode c = (if 65 \<le> c \<and> c \<le> 90 then KEY_A + (ucast c - 65) else KEY_NONE)"

definition builtin_num_to_fn_key :: "int \<Rightarrow> u16" where
  "builtin_num_to_fn_key num = of_int (uint KEY_F1 + (num - 1))"

definition ldisc_initialise :: "u64 \<Rightarrow> ('d, 'a) ps2k_scheme \<Rightarrow> ('d, 'a) ps2k_scheme" where
  "ldisc_initialise fn_addr c = set_event_callback fn_addr 0 c"

definition ldisc_read ::
  "(('d, 'a) ldisc_scheme \<Rightarrow> ('d, 'a) ldisc_scheme) \<Rightarrow> bool \<Rightarrow> u64 \<Rightarrow> u64 \<Rightarrow> ('d, 'a) ldisc_scheme \<Rightarrow>
   (u64 \<times> ('d, 'a) ldisc_scheme) option" where
  "ldisc_read wake ech buf n c = builtin_ldisc_read wake ech buf n c"

definition ldisc_write :: "u64 \<Rightarrow> int \<Rightarrow> ldisc_state \<Rightarrow> int \<times> ldisc_state" where
  "ldisc_write buf n l =
     (if n < 0 then builtin_ldisc_write buf (- 1) l else builtin_ldisc_write buf (of_int n) l)"

section \<open>Characters typed\<close>

text \<open>The characters a sequence of key events stands for, and the modifier keys after it.\<close>

definition ev_mode :: "u32 \<Rightarrow> key_event \<Rightarrow> u32" where
  "ev_mode m ev = (case mode_key m ev of Some m' \<Rightarrow> m' | None \<Rightarrow> m)"

definition ev_chars :: "(nat \<Rightarrow> u8) \<Rightarrow> u32 \<Rightarrow> key_event \<Rightarrow> u8 list" where
  "ev_chars behind m ev =
     (if mode_key m ev = None \<and> ev_state ev = PRESSED \<and> key_char behind m (ev_keycode ev) \<noteq> 0 \<and>
         check_printable (ev_keycode ev)
      then [key_char behind m (ev_keycode ev)] else [])"

fun typed :: "(nat \<Rightarrow> u8) \<Rightarrow> u32 \<Rightarrow> key_event list \<Rightarrow> u8 list" where
  "typed behind m [] = []"
| "typed behind m (ev # evs) = ev_chars behind m ev @ typed behind (ev_mode m ev) evs"

lemma typed_append:
  "typed behind m (xs @ ys) = typed behind m xs @ typed behind (fold (\<lambda>ev m. ev_mode m ev) xs m) ys"
  by (induction xs arbitrary: m) simp_all

definition ld_input :: "u8 \<Rightarrow> ldisc_state \<Rightarrow> ldisc_state" where
  "ld_input c l = ld_push c (if ld_echo l then l\<lparr>ld_console := ld_console l @ [c]\<rparr> else l)"

lemma ld_input_mode: "ld_input c (l\<lparr>ld_mode := m\<rparr>) = (ld_input c l)\<lparr>ld_mode := m\<rparr>"
  by (simp add: ld_input_def ld_push_def ld_reset_def Let_def)

lemma fold_input_mode: "fold ld_input cs (l\<lparr>ld_mode := m\<rparr>) = (fold ld_input cs l)\<lparr>ld_mode := m\<rparr>"
  by (induction cs arbitrary: l) (simp_all add: ld_input_mode)

lemma mode_fold_input: "ld_mode (fold ld_input cs l) = ld_mode l"
proof (induction cs arbitrary: l)
  case (Cons c cs)
  have "ld_mode (ld_input c l) = ld_mode l" by (simp add: ld_input_def ld_push_def ld_reset_def Let_def)
  with Cons show ?case by simp
qed simp

lemma handler_input:
  "ldisc_ps2k_event_handler behind ev l =
     (fold ld_input (ev_chars behind (ld_mode l) ev) l)\<lparr>ld_mode := ev_mode (ld_mode l) ev\<rparr>"
proof (cases "mode_key (ld_mode l) ev")
  case None
  have "(ld_input c l)\<lparr>ld_mode := ld_mode l\<rparr> = ld_input c l" for c
    using mode_fold_input [of "[c]" l] by simp
  then show ?thesis
    using None by (simp add: ldisc_ps2k_event_handler_def ev_chars_def ev_mode_def Let_def ld_input_def)
qed (simp add: ldisc_ps2k_event_handler_def ev_chars_def ev_mode_def)

lemma handler_typed:
  "fold (ldisc_ps2k_event_handler behind) evs l =
     (fold ld_input (typed behind (ld_mode l) evs) l)\<lparr>ld_mode := fold (\<lambda>ev m. ev_mode m ev) evs (ld_mode l)\<rparr>"
proof (induction evs arbitrary: l)
  case (Cons ev evs)
  show ?case by (simp add: Cons.IH handler_input [of behind ev l] fold_input_mode)
qed simp

section \<open>Editing a line\<close>

fun edit :: "u8 list \<Rightarrow> u8 list \<Rightarrow> u8 list" where
  "edit line [] = line"
| "edit line (c # cs) = edit (if c = 8 then butlast line else line @ [c]) cs"

text \<open>The line stays within \<open>n\<close> characters, and nothing is erased from an empty line.\<close>

fun edit_ok :: "nat \<Rightarrow> u8 list \<Rightarrow> u8 list \<Rightarrow> bool" where
  "edit_ok n line [] = True"
| "edit_ok n line (c # cs) \<longleftrightarrow> c \<noteq> 10 \<and> (if c = 8 then line \<noteq> [] else length line < n) \<and>
     edit_ok n (if c = 8 then butlast line else line @ [c]) cs"

definition line_in :: "u64 \<Rightarrow> u64 \<Rightarrow> memory \<Rightarrow> u8 list \<Rightarrow> ldisc_state \<Rightarrow> bool" where
  "line_in b n m line l \<longleftrightarrow> reading l \<and> read_buf l = b \<and> read_buf_size l = n \<and>
     unat (read_n l) = length line \<and> length line \<le> unat n \<and>
     mem_bytes (ld_mem l) b (length line) = line \<and> (\<forall>x. \<not> in_region b n x \<longrightarrow> ld_mem l x = m x)"

lemma line_in_step:
  assumes l: "line_in b n m line l" and b: "b \<noteq> 0" and c: "c \<noteq> 10"
    and ok: "if c = 8 then line \<noteq> [] else length line < unat n"
  shows "line_in b n m (if c = 8 then butlast line else line @ [c]) (ld_input c l) \<and>
    ld_echo (ld_input c l) = ld_echo l \<and>
    ld_console (ld_input c l) = ld_console l @ (if ld_echo l then [c] else [])"
proof -
  let ?k = "length line"
  have rn: "unat (read_n l) = ?k" "?k \<le> unat n" and st: "reading l" "read_buf l = b" "read_buf_size l = n"
    using l by (simp_all add: line_in_def)
  then have ge: "\<not> n < read_n l" by (simp add: word_less_nat_alt)
  have rn': "read_n l = of_nat ?k" unfolding rn(1) [symmetric] by simp
  have u: "unat n < 2 ^ 64" using unsigned_less [of n, where 'a = nat] by simp
  have fresh: "b + of_nat i \<noteq> b + of_nat j" if "i < j" "j \<le> ?k" for i j
  proof
    assume "b + of_nat i = b + of_nat j"
    then have "unat (of_nat i :: u64) = unat (of_nat j :: u64)" by simp
    then show False using that rn(2) u by (simp add: unat_of_nat)
  qed
  show ?thesis
  proof (cases "c = 8")
    case True
    then have ne: "line \<noteq> []" using ok by simp
    then have cnt: "unat (read_n l - 1) = ?k - 1" "read_n l - 1 = of_nat (?k - 1)"
      using rn(1) by (simp_all add: unat_sub_if' rn' of_nat_diff Suc_le_eq)
    have "mem_bytes ((ld_mem l)(b + of_nat (?k - 1) := 0)) b (?k - 1) = mem_bytes (ld_mem l) b (?k - 1)"
      using fresh [of _ "?k - 1"] by (auto simp: mem_bytes_def)
    also have "\<dots> = take (?k - 1) (mem_bytes (ld_mem l) b ?k)" by (simp add: mem_bytes_def take_map take_upt)
    also have "\<dots> = butlast line" using l by (simp add: line_in_def butlast_conv_take)
    finally have "mem_bytes ((ld_mem l)(b + of_nat (?k - 1) := 0)) b (?k - 1) = butlast line" .
    moreover have "in_region b n (b + of_nat (?k - 1))"
      using rn(2) ne unfolding in_region_offset cnt(2) [symmetric] word_less_nat_alt cnt(1)
      by (cases line) simp_all
    ultimately show ?thesis
      using l st ge b True rn(2) cnt
      by (auto simp: line_in_def ld_input_def ld_push_def Let_def)
  next
    case False
    then have lt: "?k < unat n" using ok by simp
    then have cnt: "unat (read_n l + 1) = ?k + 1" using unat_add_of_nat [of "read_n l" 1] rn(1) u by simp
    have "mem_bytes ((ld_mem l)(b + of_nat ?k := c)) b ?k = mem_bytes (ld_mem l) b ?k"
      using fresh [of _ ?k] by (auto simp: mem_bytes_def)
    then have "mem_bytes ((ld_mem l)(b + of_nat ?k := c)) b (?k + 1) = line @ [c]"
      using l by (simp add: line_in_def) (simp add: mem_bytes_def)
    moreover have "in_region b n (b + of_nat ?k)"
      using lt u by (simp add: word_less_nat_alt unat_of_nat64)
    ultimately show ?thesis
      using l st ge b False c lt cnt rn'
      by (auto simp: line_in_def ld_input_def ld_push_def Let_def)
  qed
qed


lemma line_in_edit:
  assumes "b \<noteq> 0"
  shows "line_in b n m line l \<Longrightarrow> edit_ok (unat n) line cs \<Longrightarrow>
    line_in b n m (edit line cs) (fold ld_input cs l) \<and> ld_echo (fold ld_input cs l) = ld_echo l \<and>
    ld_console (fold ld_input cs l) = ld_console l @ (if ld_echo l then cs else [])"
proof (induction cs arbitrary: line l)
  case (Cons c cs)
  let ?line = "if c = 8 then butlast line else line @ [c]"
  have ok: "c \<noteq> 10" "if c = 8 then line \<noteq> [] else length line < unat n" "edit_ok (unat n) ?line cs"
    using Cons.prems(2) by simp_all
  note s = line_in_step [OF Cons.prems(1) assms ok(1,2)]
  from Cons.IH [OF conjunct1 [OF s] ok(3)] s show ?case by simp
qed simp

lemma line_in_newline:
  assumes "line_in b n m line l" "b \<noteq> 0"
  shows "\<not> reading (ld_input 10 l)" and "unat (read_n (ld_input 10 l)) = length line"
    and "ld_mem (ld_input 10 l) = ld_mem l"
    and "ld_console (ld_input 10 l) = ld_console l @ (if ld_echo l then [10] else [])"
proof -
  have "\<not> read_buf_size l < read_n l" using assms(1) by (simp add: line_in_def word_less_nat_alt)
  then show "\<not> reading (ld_input 10 l)" "unat (read_n (ld_input 10 l)) = length line"
    "ld_mem (ld_input 10 l) = ld_mem l"
    "ld_console (ld_input 10 l) = ld_console l @ (if ld_echo l then [10] else [])"
    using assms by (simp_all add: line_in_def ld_input_def ld_push_def ld_reset_def Let_def)
qed

section \<open>From interrupts to characters\<close>

lemma keeps_driver_ldisc: "keeps_driver (ldisc_call behind fn)"
  by (simp add: keeps_driver_def ldisc_call_def)

text \<open>The driver calls the line discipline for every event, as the default configuration does.\<close>

definition connected :: "u64 \<Rightarrow> event_buffer \<Rightarrow> bool" where
  "connected fn b \<longleftrightarrow> eb_callback b = fn \<and> fn \<noteq> 0 \<and> \<not> eb_drop_events b"

lemma connected_store: "connected fn b \<Longrightarrow> fst (buffer_store ev b) \<and> connected fn (snd (buffer_store ev b))"
  by (simp add: connected_def buffer_store_def flush_buffer_def Let_def)

lemma buffer_push_ld:
  assumes "connected fn (evbuf c)"
  shows "ld (snd (buffer_push (ldisc_call behind fn) ev c)) = ldisc_ps2k_event_handler behind ev (ld c)"
proof -
  obtain b where b: "buffer_store ev (evbuf c) = (True, b)"
    using connected_store [OF assms, of ev] by (cases "buffer_store ev (evbuf c)") auto
  then have "connected fn b" using connected_store [OF assms, of ev] by simp
  then show ?thesis by (simp add: buffer_push_def b Let_def ldisc_call_def connected_def)
qed

lemma ld_io [simp]: "ld (send_eoi hw q c) = ld c"
  by (simp add: send_eoi_def Let_def outb_def)

lemma handle_scancode_ld:
  fixes c :: "('d, 'a) ldisc_scheme"
  assumes con: "connected fn (evbuf c)"
  shows "ld (handle_scancode hw (ldisc_call behind fn) b c) =
    fold (ldisc_ps2k_event_handler behind)
      (stored (ns_elapsed_time c) (key_of (maps_of c) (current_scan_state c) b) (b AND 0x80 = 0)) (ld c)"
proof (cases "b = 0xE0 \<or> b = 0xE1 \<or> current_scan_state c = EXTENDED_E1")
  case True
  then show ?thesis unfolding handle_scancode_def by (auto simp: key_of_def stored_def Let_def)
next
  case False
  let ?kc = "key_of (maps_of c) (current_scan_state c) b"
  let ?ev = "\<lparr>ev_keycode = ?kc, ev_state = (if b AND 0x80 = 0 then PRESSED else RELEASED),
    ev_timestamp = ns_elapsed_time c\<rparr>"
  let ?c1 = "c\<lparr>current_scan_state := NORMAL\<rparr>"
  have "handle_scancode hw (ldisc_call behind fn) b c =
      send_eoi hw 1 (if ?kc \<noteq> KEY_NONE then snd (buffer_push (ldisc_call behind fn) ?ev ?c1) else ?c1)"
    using False unfolding handle_scancode_def Let_def key_of_def by (simp add: ns_elapsed_time_def)
  moreover have "connected fn (evbuf ?c1)" using con by simp
  ultimately show ?thesis by (simp add: stored_def buffer_push_ld)
qed

abbreviation ldisc_interrupt ::
  "'d device \<Rightarrow> (nat \<Rightarrow> u8) \<Rightarrow> u64 \<Rightarrow> ('d, 'a) ldisc_scheme \<Rightarrow> ('d, 'a) ldisc_scheme" where
  "ldisc_interrupt hw behind fn \<equiv> ps2k_interrupt_handler hw (ldisc_call behind fn)"

lemma connected_store_all: "connected fn b \<Longrightarrow> connected fn (store_all evs b)"
  by (induction evs arbitrary: b) (simp_all add: connected_store)

lemma interrupt_ld:
  fixes c :: "('d, 'a) ldisc_scheme"
  assumes con: "connected fn (evbuf c)" and d: "delivers hw (b # bs) (dev c)"
  shows "ld (ldisc_interrupt hw behind fn c) =
    fold (ldisc_ps2k_event_handler behind)
      (stored (ns_elapsed_time c) (key_of (maps_of c) (current_scan_state c) b) (b AND 0x80 = 0)) (ld c)"
    and "connected fn (evbuf (ldisc_interrupt hw behind fn c))"
proof -
  obtain v c1 where i: "inb hw PS2_DATA_PORT c = (v, c1)" by fastforce
  note e = inb_keeps [OF i]
  have v: "v = b" using d e(5) by simp
  have ld: "ld c1 = ld c" using i by (auto simp: inb_def split: prod.splits)
  have t: "ns_elapsed_time c1 = ns_elapsed_time c" by (simp add: ns_elapsed_time_def e(4))
  have "ldisc_interrupt hw behind fn c = handle_scancode hw (ldisc_call behind fn) b c1"
    unfolding ps2k_interrupt_handler_def by (simp add: i v)
  then show "ld (ldisc_interrupt hw behind fn c) =
    fold (ldisc_ps2k_event_handler behind)
      (stored (ns_elapsed_time c) (key_of (maps_of c) (current_scan_state c) b) (b AND 0x80 = 0)) (ld c)"
    using handle_scancode_ld [of fn c1 hw behind b] con unfolding e(1,2,3) t ld by simp
  show "connected fn (evbuf (ldisc_interrupt hw behind fn c))"
    unfolding interrupt_effect(1) [OF keeps_driver_ldisc d refl] by (rule connected_store_all [OF con])
qed

lemma interrupts_ld:
  "connected fn (evbuf c) \<Longrightarrow> delivers hw bs (dev c) \<Longrightarrow>
    fold (scan_byte (maps_of c) (ns_elapsed_time c)) bs (evs, current_scan_state c) = (evs @ new, st) \<Longrightarrow>
    ld ((ldisc_interrupt hw behind fn ^^ length bs) c) = fold (ldisc_ps2k_event_handler behind) new (ld c)"
proof (induction bs arbitrary: c evs new)
  case (Cons b bs)
  let ?c1 = "ldisc_interrupt hw behind fn c"
  note e = interrupt_effect [OF keeps_driver_ldisc Cons.prems(2) refl, of behind fn]
  let ?one = "stored (ns_elapsed_time c) (key_of (maps_of c) (current_scan_state c) b) (b AND 0x80 = 0)"
  have t: "ns_elapsed_time ?c1 = ns_elapsed_time c" by (simp add: ns_elapsed_time_def e(4))
  have f: "fold (scan_byte (maps_of ?c1) (ns_elapsed_time ?c1)) bs (evs @ ?one, current_scan_state ?c1) = (evs @ new, st)"
    unfolding e(2,3) t using Cons.prems(3) by simp
  obtain more where "evs @ new = (evs @ ?one) @ more" using scan_grows f by (metis fst_conv)
  then have new: "new = ?one @ more" by simp
  from Cons.IH [OF interrupt_ld(2) [OF Cons.prems(1,2)] e(5) f [unfolded new append_assoc [symmetric]]]
  show ?case by (simp add: funpow_swap1 new interrupt_ld(1) [OF Cons.prems(1,2)])
qed simp

text \<open>A wait loop ends at the first turn after which nothing is being read.\<close>

lemma wait_not_reading_first:
  assumes "\<And>j. j < k \<Longrightarrow> reading (ld ((wake ^^ j) c))" and "\<not> reading (ld ((wake ^^ k) c))"
  shows "wait_not_reading wake c = Some ((wake ^^ k) c)"
  using assms
proof (induction k arbitrary: c)
  case 0
  then show ?case by (simp add: wait_not_reading.simps)
next
  case (Suc k)
  have "wait_not_reading wake (wake c) = Some ((wake ^^ k) (wake c))"
  proof (rule Suc.IH)
    show "reading (ld ((wake ^^ j) (wake c)))" if "j < k" for j
      using Suc.prems(1) [of "Suc j"] that by (simp add: funpow_swap1)
    show "\<not> reading (ld ((wake ^^ k) (wake c)))" using Suc.prems(2) by (simp add: funpow_swap1)
  qed
  moreover have "reading (ld c)" using Suc.prems(1) [of 0] by simp
  ultimately show ?case by (subst wait_not_reading.simps) (simp add: funpow_swap1)
qed

text \<open>An interrupt never starts a read.\<close>

lemma interrupt_reading:
  fixes c :: "('d, 'a) ldisc_scheme"
  assumes "\<not> reading (ld c)"
  shows "\<not> reading (ld (ldisc_interrupt hw behind fn c))"
proof -
  have h: "\<not> reading (ldisc_ps2k_event_handler behind ev l)" if "\<not> reading l" for ev l
    using that by (auto simp: ldisc_ps2k_event_handler_def ld_push_def Let_def split: option.splits)
  have p: "\<not> reading (ld (snd (buffer_push (ldisc_call behind fn) ev c)))"
    if "\<not> reading (ld c)" for ev and c :: "('d, 'a) ldisc_scheme"
    using that h by (auto simp: buffer_push_def Let_def ldisc_call_def split: prod.splits)
  have s: "\<not> reading (ld (handle_scancode hw (ldisc_call behind fn) b c))"
    if "\<not> reading (ld c)" for b and c :: "('d, 'a) ldisc_scheme"
    using that by (simp add: handle_scancode_def Let_def p)
  obtain v c1 where i: "inb hw PS2_DATA_PORT c = (v, c1)" by fastforce
  then have "ld c1 = ld c" by (auto simp: inb_def split: prod.splits)
  then show ?thesis using assms s [of c1 v] by (simp add: ps2k_interrupt_handler_def i)
qed

lemma interrupts_reading:
  fixes c :: "('d, 'a) ldisc_scheme"
  assumes "reading (ld ((ldisc_interrupt hw behind fn ^^ k) c))" and "j \<le> k"
  shows "reading (ld ((ldisc_interrupt hw behind fn ^^ j) c))"
  using assms
proof (induction k)
  case (Suc k)
  then have "reading (ld ((ldisc_interrupt hw behind fn ^^ k) c))"
    using interrupt_reading [of "(ldisc_interrupt hw behind fn ^^ k) c" hw behind fn] by auto
  with Suc show ?case by (cases "j = Suc k") simp_all
qed simp

lemma enter_char:
  "ev_chars behind m \<lparr>ev_keycode = KEY_ENTER, ev_state = PRESSED, ev_timestamp = t\<rparr> = [10]"
proof -
  have "qwerty_normal ! 28 = 10" "qwerty_shifted ! 28 = 10" "qwerty_capsed ! 28 = 10"
    by (simp_all add: qwerty_normal_def qwerty_shifted_def qwerty_capsed_def nth_append)
  then have "key_char behind m KEY_ENTER = 10" by (simp add: key_char_def table_at_def KEY_ENTER_def)
  then show ?thesis
    by (simp add: ev_chars_def mode_key_def check_printable_def) (simp add: keycode_defs)
qed

lemma enter_action: "action_events t (Key False 0x1C True) = [\<lparr>ev_keycode = KEY_ENTER, ev_state = PRESSED, ev_timestamp = t\<rparr>]"
proof -
  have "fst init_scancode_map ! 28 = KEY_ENTER" by (simp add: init_scancode_map_nth scancode_assignments_def)
  then show ?thesis by (simp add: stored_def KEY_ENTER_def KEY_NONE_def)
qed

lemma scancodes_Enter: "scancodes (Key False 0x1C True) = [0x1C]"
  by simp

section \<open>Properties\<close>

text \<open>
  The state of the line discipline after the keys of a line, and after \<open>Enter\<close>.
\<close>

lemma typed_line:
  fixes c :: "('d, 'a) ldisc_scheme"
  assumes con: "connected fn (evbuf c)" "current_scan_state c = NORMAL" "maps_of c = init_scancode_map"
    and keys: "list_all valid_action keys"
    and d: "delivers hw (concat (map scancodes keys)) (dev c)"
    and cs: "cs = typed behind (ld_mode (ld c)) (concat (map (action_events (ns_elapsed_time c)) keys))"
  shows "\<exists>m. ld ((ldisc_interrupt hw behind fn ^^ length (concat (map scancodes keys))) c) =
    (fold ld_input cs (ld c))\<lparr>ld_mode := m\<rparr>"
proof -
  have "ld ((ldisc_interrupt hw behind fn ^^ length (concat (map scancodes keys))) c) =
      fold (ldisc_ps2k_event_handler behind) (concat (map (action_events (ns_elapsed_time c)) keys)) (ld c)"
    by (rule interrupts_ld [OF con(1) d, where evs = "[]"])
      (simp add: con(2,3) scan_actions [OF keys, where evs = "[]", simplified])
  then show ?thesis unfolding handler_typed cs by blast
qed

lemma delivers_append: "delivers hw (xs @ ys) d \<Longrightarrow> delivers hw xs d"
  by (induction xs arbitrary: d) (auto split: prod.splits)

lemma line_in_mode [simp]: "line_in b n m line (l\<lparr>ld_mode := x\<rparr>) = line_in b n m line l"
  by (simp add: line_in_def)

text \<open>
  C12. Reading a line: a call of the blocking read with a buffer of \<open>n\<close> bytes, while the
  user types a line that fits, corrects it with backspace and presses Enter, returns; the count
  is the length of the corrected line, the buffer holds exactly its characters, no byte outside
  the buffer has changed, and with echo the console shows what was typed. Every byte the
  keyboard sends goes through the interrupt handler, the scan code tables, the event buffer and
  the callback.
\<close>

theorem read_line_returns_line:
  fixes c :: "('d, 'a) ldisc_scheme"
  assumes con: "connected fn (evbuf c)" "current_scan_state c = NORMAL" "maps_of c = init_scancode_map"
    and idle: "\<not> reading (ld c)" and buf: "buf \<noteq> 0" "n \<noteq> 0"
    and keys: "list_all valid_action keys"
    and d: "delivers hw (concat (map scancodes (keys @ [Key False 0x1C True]))) (dev c)"
    and cs: "cs = typed behind (ld_mode (ld c)) (concat (map (action_events (ns_elapsed_time c)) keys))"
    and ok: "edit_ok (unat n) [] cs"
  shows "\<exists>c'. builtin_ldisc_read (ldisc_interrupt hw behind fn) ech buf n c =
      Some (of_nat (length (edit [] cs)), c') \<and>
    mem_bytes (ld_mem (ld c')) buf (length (edit [] cs)) = edit [] cs \<and>
    (\<forall>x. \<not> in_region buf n x \<longrightarrow> ld_mem (ld c') x = ld_mem (ld c) x) \<and>
    ld_console (ld c') = ld_console (ld c) @ (if ech then cs @ [10] else []) \<and> \<not> reading (ld c')"
proof -
  let ?w = "ldisc_interrupt hw behind fn" and ?e = "Key False 0x1C True"
  let ?k = "length (concat (map scancodes keys))" and ?t = "ns_elapsed_time c"
  define c1 where "c1 = c\<lparr>ld := (ld c)\<lparr>read_buf := buf, read_buf_size := n, read_n := 0, reading := True, ld_echo := ech\<rparr>\<rparr>"
  have set1: "ld_set ?w ech buf n c = Some c1"
    unfolding ld_set_def wait_not_reading.simps [of ?w c] c1_def using idle by simp
  have same: "connected fn (evbuf c1)" "current_scan_state c1 = NORMAL" "maps_of c1 = init_scancode_map"
    "dev c1 = dev c" "ns_elapsed_time c1 = ?t" "ld_mode (ld c1) = ld_mode (ld c)"
    using con by (simp_all add: c1_def ns_elapsed_time_def)
  have l0: "line_in buf n (ld_mem (ld c)) [] (ld c1)" by (simp add: line_in_def c1_def mem_bytes_def)
  note l1 = line_in_edit [OF buf(1) l0 ok]
  have d1: "delivers hw (concat (map scancodes keys)) (dev c1)" using d delivers_append same(4) by simp
  obtain m1 where k: "ld ((?w ^^ ?k) c1) = (fold ld_input cs (ld c1))\<lparr>ld_mode := m1\<rparr>"
    using typed_line [OF same(1-3) keys d1] unfolding same(5,6) cs by blast
  have cs2: "cs @ [10] = typed behind (ld_mode (ld c1)) (concat (map (action_events (ns_elapsed_time c1)) (keys @ [?e])))"
    unfolding same(5,6) cs by (simp add: typed_append enter_action [simplified] enter_char)
  have "list_all valid_action (keys @ [?e])" using keys by simp
  from typed_line [OF same(1-3) this _ cs2, of hw] d same(4)
  obtain m2 where k2: "ld ((?w ^^ Suc ?k) c1) = (ld_input 10 (fold ld_input cs (ld c1)))\<lparr>ld_mode := m2\<rparr>" by auto
  note nl = line_in_newline [OF conjunct1 [OF l1] buf(1)]
  have "reading (ld ((?w ^^ ?k) c1))" using l1 by (simp add: k line_in_def)
  then have "reading (ld ((?w ^^ j) c1))" if "j < Suc ?k" for j
    using interrupts_reading that by (simp only: less_Suc_eq_le)
  moreover have "\<not> reading (ld ((?w ^^ Suc ?k) c1))" unfolding k2 by (simp add: nl)
  ultimately have "wait_not_reading ?w c1 = Some ((?w ^^ Suc ?k) c1)" by (rule wait_not_reading_first)
  then obtain c2 where "wait_not_reading ?w c1 = Some c2"
    and c2: "ld c2 = (ld_input 10 (fold ld_input cs (ld c1)))\<lparr>ld_mode := m2\<rparr>" using k2 by metis
  then have "builtin_ldisc_read ?w ech buf n c =
      Some (read_n (ld_input 10 (fold ld_input cs (ld c1))), c2\<lparr>ld := ld_reset (ld c2)\<rparr>)"
    using buf by (simp add: builtin_ldisc_read_def set1 read_count_def)
  moreover have "read_n (ld_input 10 (fold ld_input cs (ld c1))) = of_nat (length (edit [] cs))"
    unfolding nl(2) [symmetric] by simp
  moreover have "ld_echo (ld c1) = ech" "ld_console (ld c1) = ld_console (ld c)" by (simp_all add: c1_def)
  ultimately show ?thesis
    using l1 by (intro exI [of _ "c2\<lparr>ld := ld_reset (ld c2)\<rparr>"])
      (simp add: c2 nl ld_reset_def line_in_def)
qed

definition demo_ldisc :: "u8 list \<Rightarrow> u8 list ldisc" where
  "demo_ldisc bs = \<lparr>dev = bs, idt_entries = replicate 512 no_gate, idt_set_vectors = replicate 256 False,
     idtr = \<lparr>idtr_limit = 0, idtr_base = 0\<rparr>, loaded_idtr = None, ticks = 7, pit_interrupts = [], attached = 0,
     evbuf = demo_buffer\<lparr>eb_drop_events := False, eb_callback := 0x4000\<rparr>,
     current_scan_state = NORMAL, scancode_to_keycode = fst init_scancode_map,
     extended_scancode_to_keycode = snd init_scancode_map,
     ld = \<lparr>ld_mode = 0, read_buf = 0, read_buf_size = 0, read_n = 0, reading = False, ld_echo = False,
           ld_mem = (\<lambda>_. 0), ld_console = []\<rparr>\<rparr>"

lemma demo_ldisc_facts:
  "connected 0x4000 (evbuf (demo_ldisc bs))" "current_scan_state (demo_ldisc bs) = NORMAL"
  "maps_of (demo_ldisc bs) = init_scancode_map" "\<not> reading (ld (demo_ldisc bs))"
  "dev (demo_ldisc bs) = bs" "ld_mode (ld (demo_ldisc bs)) = 0" "ns_elapsed_time (demo_ldisc bs) = 70000000"
  "ld_console (ld (demo_ldisc bs)) = []"
  by (simp_all add: demo_ldisc_def connected_def demo_buffer_def ns_elapsed_time_def)

text \<open>Shift and the letter a, release of shift, b, backspace, c.\<close>

definition demo_keys :: "key_action list" where
  "demo_keys = [Key False 0x2A True, Key False 0x1E True, Key False 0x2A False, Key False 0x30 True,
     Key False 0x0E True, Key False 0x2E True]"

lemma demo_typed:
  "typed behind 0 (concat (map (action_events t) demo_keys)) = [65, 98, 8, 99]"
proof -
  have maps: "fst init_scancode_map ! 0x2A = KEY_LEFTSHIFT" "fst init_scancode_map ! 0x1E = KEY_A"
    "fst init_scancode_map ! 0x30 = KEY_B" "fst init_scancode_map ! 0x0E = KEY_BACKSPACE"
    "fst init_scancode_map ! 0x2E = KEY_C"
    by (simp_all add: init_scancode_map_nth scancode_assignments_def)
  have evs: "concat (map (action_events t) demo_keys) =
    [\<lparr>ev_keycode = KEY_LEFTSHIFT, ev_state = PRESSED, ev_timestamp = t\<rparr>,
     \<lparr>ev_keycode = KEY_A, ev_state = PRESSED, ev_timestamp = t\<rparr>,
     \<lparr>ev_keycode = KEY_LEFTSHIFT, ev_state = RELEASED, ev_timestamp = t\<rparr>,
     \<lparr>ev_keycode = KEY_B, ev_state = PRESSED, ev_timestamp = t\<rparr>,
     \<lparr>ev_keycode = KEY_BACKSPACE, ev_state = PRESSED, ev_timestamp = t\<rparr>,
     \<lparr>ev_keycode = KEY_C, ev_state = PRESSED, ev_timestamp = t\<rparr>]"
    by (simp add: demo_keys_def maps stored_def) (simp add: keycode_defs)
  have "qwerty_shifted ! 30 = 65" "qwerty_normal ! 48 = 98" "qwerty_normal ! 14 = 8" "qwerty_normal ! 46 = 99"
    by (simp_all add: qwerty_normal_def qwerty_shifted_def nth_append)
  then have "key_char behind MODE_SHIFT KEY_A = 65" "key_char behind 0 KEY_B = 98"
    "key_char behind 0 KEY_BACKSPACE = 8" "key_char behind 0 KEY_C = 99"
    by (simp_all add: key_char_def table_at_def keycode_defs MODE_SHIFT_def)
  moreover have "check_printable KEY_A" "check_printable KEY_B" "check_printable KEY_BACKSPACE" "check_printable KEY_C"
    by (simp_all add: check_printable_def)
  ultimately show ?thesis
    unfolding evs by (simp add: ev_chars_def ev_mode_def mode_key_def keycode_defs MODE_SHIFT_def)
qed

theorem read_line_returns_line_witness:
  "\<exists>c'. builtin_ldisc_read (ldisc_interrupt stream_hw (\<lambda>_. 0) 0x4000) True 0x5000 16
      (demo_ldisc (concat (map scancodes (demo_keys @ [Key False 0x1C True])))) = Some (2, c') \<and>
    mem_bytes (ld_mem (ld c')) 0x5000 2 = chars ''Ac'' \<and>
    ld_console (ld c') = [65, 98, 8, 99, 10]"
proof -
  let ?c = "demo_ldisc (concat (map scancodes (demo_keys @ [Key False 0x1C True])))"
  have v: "list_all valid_action demo_keys" by (simp add: demo_keys_def)
  have d: "delivers stream_hw (concat (map scancodes (demo_keys @ [Key False 0x1C True]))) (dev ?c)"
    unfolding demo_ldisc_facts(5) by (rule stream_delivers)
  have cs: "[65, 98, 8, 99] = typed (\<lambda>_. 0) (ld_mode (ld ?c)) (concat (map (action_events (ns_elapsed_time ?c)) demo_keys))"
    unfolding demo_ldisc_facts(6) demo_typed ..
  have ok: "edit_ok (unat (16 :: u64)) [] [65, 98, 8, 99]" by simp
  have e: "edit [] [65, 98, 8, 99] = chars ''Ac''" "length (chars ''Ac'') = 2" "of_nat 2 = (2 :: u64)" by simp_all
  have nz: "(0x5000 :: u64) \<noteq> 0" "(16 :: u64) \<noteq> 0" by simp_all
  obtain c' where "builtin_ldisc_read (ldisc_interrupt stream_hw (\<lambda>_. 0) 0x4000) True 0x5000 16 ?c = Some (2, c')"
    "mem_bytes (ld_mem (ld c')) 0x5000 2 = chars ''Ac''"
    "ld_console (ld c') = ld_console (ld ?c) @ (if True then [65, 98, 8, 99] @ [10] else [])"
    using read_line_returns_line [OF demo_ldisc_facts(1-4) nz v d cs ok, of True, unfolded e] by metis
  then show ?thesis unfolding demo_ldisc_facts(8) if_True append_Nil append_Cons by metis
qed

text \<open>
  C35. Two ways to write outside the caller's buffer: a character typed when the line fills the
  buffer is stored one byte behind it, since only a count above the size starts again at zero;
  and a backspace on an empty line stores a zero one byte before it and wraps the count around.
\<close>

theorem line_buffer_overrun:
  assumes "line_in b n m line l" and "b \<noteq> 0" and "n \<noteq> 0" and "c \<noteq> 8" and "c \<noteq> 10"
  shows "\<not> in_region b n (b + n) \<and>
    (length line = unat n \<longrightarrow> ld_mem (ld_push c l) (b + n) = c) \<and>
    (line = [] \<longrightarrow> ld_mem (ld_push 8 l) (b - 1) = 0 \<and> read_n (ld_push 8 l) = - 1) \<and>
    (unat n < 2 ^ 64 - 1 \<longrightarrow> \<not> in_region b n (b - 1))"
proof -
  have ge: "\<not> n < read_n l" and st: "reading l" "read_buf l = b" "read_buf_size l = n"
    "unat (read_n l) = length line"
    using assms(1) by (simp_all add: line_in_def word_less_nat_alt)
  have "read_n l = n" if "length line = unat n" using that st(4) by (simp add: word_unat_eq_iff)
  moreover have "read_n l = 0" if "line = []" using that st(4) by (simp add: word_unat_eq_iff)
  moreover have "\<not> - 1 < n" using word_order.extremum [of n] by (simp add: not_less)
  ultimately show ?thesis
    using ge st assms(2-5) by (simp add: ld_push_def Let_def) (simp add: in_region_def)
qed

definition demo_line :: "u8 list \<Rightarrow> ldisc_state" where
  "demo_line xs = \<lparr>ld_mode = 0, read_buf = 0x5000, read_buf_size = 2, read_n = of_nat (length xs), reading = True,
     ld_echo = False, ld_mem = (\<lambda>x. if x = 0x5000 then xs ! 0 else xs ! 1), ld_console = []\<rparr>"

theorem line_buffer_overrun_witness:
  "ld_mem (ld_push 99 (demo_line [97, 98])) 0x5002 = 99 \<and> ld_mem (ld_push 8 (demo_line [])) 0x4FFF = 0"
proof -
  have a: "line_in 0x5000 2 (ld_mem (demo_line [97, 98])) [97, 98] (demo_line [97, 98])"
    by (simp add: line_in_def demo_line_def mem_bytes_def)
  have b: "line_in 0x5000 2 (ld_mem (demo_line [])) [] (demo_line [])"
    by (simp add: line_in_def demo_line_def mem_bytes_def)
  show ?thesis using line_buffer_overrun [OF a, of 99] line_buffer_overrun [OF b, of 99] by simp
qed

text \<open>
  Writing: a number of characters given by the caller writes the string up to it, but the
  default number \<open>-1\<close>, documented to mean the whole string, writes nothing, because the
  conversion takes a negative precision for zero.
\<close>

lemma string_output_prefix:
  "c_string m p xs \<Longrightarrow> string_output m p n = take n xs"
proof (induction n arbitrary: p xs)
  case (Suc n)
  then show ?case by (cases xs) auto
qed simp

lemma ldisc_write_output:
  assumes "c_string (ld_mem l) buf xs" and "0 \<le> n" and "n < 2 ^ 31"
  shows "ldisc_write buf n l = (int (min (length xs) (nat n)), l\<lparr>ld_console := ld_console l @ take (nat n) xs\<rparr>)"
proof -
  have u: "uint (of_int n :: 32 word) = n" using assms(2,3) by (simp add: uint_word_of_int_eq take_bit_eq_mod)
  have "sint (of_int n :: 32 word) = n"
    unfolding sint_uint u by (rule signed_take_bit_int_eq_self) (use assms(2,3) in simp_all)
  moreover have "unat (of_int n :: 32 word) = nat n" using u by (simp add: unat_eq_nat_uint)
  moreover have "ucast (of_int n :: u64) = (of_int n :: 32 word)"
    by (rule bit_word_eqI) (simp add: bit_simps)
  ultimately have "star_precision (of_int n) = nat n" using assms(2) by (simp add: star_precision_def Let_def)
  then show ?thesis
    using assms(2) string_output_prefix [OF assms(1)]
    by (simp add: ldisc_write_def builtin_ldisc_write_def Let_def min.commute)
qed

lemma ldisc_write_default_silent: "ldisc_write buf (- 1) l = (0, l)"
proof -
  have "ucast (- 1 :: u64) = (- 1 :: 32 word)" by (rule bit_word_eqI) (simp add: bit_simps)
  then have "star_precision (- 1) = 0" by (simp add: star_precision_def Let_def)
  then show ?thesis by (simp add: ldisc_write_def builtin_ldisc_write_def)
qed

lemma char_to_keycode_alphabetical:
  "builtin_char_to_keycode (of_char CHR ''A'') = KEY_A" "builtin_char_to_keycode (of_char CHR ''B'') = KEY_S"
  by (simp_all add: builtin_char_to_keycode_def keycode_defs)

end
