(* ===== verification/Gfx.thy ===== *)
theory Gfx
  imports Prelude
begin

unbundle bit_operations_syntax

text \<open>
  The pixel routines, \<open>kernel/src/lib/Flanterm/gfx.c\<close>: reading and writing one pixel of the
  boot loader's framebuffer, blending of two colours, and the loop that ends the clearing of
  the screen. Coordinates are C ints; comparing one with a \<open>uint64_t\<close> sign-extends it, which
  is \<open>word_of_int\<close>. The escape sequences \<open>fb_clrscr\<close> sends to the terminal are output.
\<close>

section \<open>Data and operations\<close>

record framebuffer =
  fb_address :: u64
  fb_width :: u64
  fb_height :: u64
  fb_pitch :: u64

record gfx_state =
  fb :: framebuffer
  g_scr_width :: u64
  g_scr_height :: u64

definition on_screen :: "gfx_state \<Rightarrow> int \<Rightarrow> int \<Rightarrow> bool" where
  "on_screen g x y \<longleftrightarrow>
     \<not> (g_scr_width g - 1 < word_of_int x \<or> g_scr_height g - 1 < word_of_int y \<or> x < 0 \<or> y < 0)"

definition pixel_addr :: "gfx_state \<Rightarrow> int \<Rightarrow> int \<Rightarrow> u64" where
  "pixel_addr g x y =
     fb_address (fb g) + 4 * (word_of_int y * (fb_pitch (fb g) div 4) + word_of_int x)"

definition putpx :: "gfx_state \<Rightarrow> int \<Rightarrow> int \<Rightarrow> u32 \<Rightarrow> memory \<Rightarrow> memory" where
  "putpx g x y colour m = (if \<not> on_screen g x y then m else write32 m (pixel_addr g x y) colour)"

definition getpx :: "gfx_state \<Rightarrow> int \<Rightarrow> int \<Rightarrow> memory \<Rightarrow> u32" where
  "getpx g x y m = (if \<not> on_screen g x y then - 1 else read32 m (pixel_addr g x y))"

text \<open>The signed product is shifted arithmetically.\<close>

definition lerp_channel :: "u32 \<Rightarrow> u32 \<Rightarrow> u8 \<Rightarrow> u32" where
  "lerp_channel s d intensity = s + signed_drop_bit 8 ((d - s) * ucast intensity)"

definition lerpRGB :: "u32 \<Rightarrow> u32 \<Rightarrow> u8 \<Rightarrow> u32" where
  "lerpRGB src dst intensity =
     (let r = lerp_channel (drop_bit 16 src AND 0xFF) (drop_bit 16 dst AND 0xFF) intensity;
          g = lerp_channel (drop_bit 8 src AND 0xFF) (drop_bit 8 dst AND 0xFF) intensity;
          b = lerp_channel (src AND 0xFF) (dst AND 0xFF) intensity
      in push_bit 16 r OR push_bit 8 g OR b)"

text \<open>The loop of \<open>fb_clrscr\<close> stores to element 0 in every turn.\<close>

definition clear_pixels :: "gfx_state \<Rightarrow> memory \<Rightarrow> memory" where
  "clear_pixels g m =
     ((\<lambda>m. write32 m (fb_address (fb g)) 0) ^^ unat (fb_height (fb g) * fb_pitch (fb g))) m"

section \<open>Pixels\<close>

text \<open>A framebuffer whose lines hold their pixels and which fits into the address space.\<close>

definition gfx_ok :: "gfx_state \<Rightarrow> bool" where
  "gfx_ok g \<longleftrightarrow> 0 < g_scr_width g \<and> 0 < g_scr_height g \<and>
     g_scr_width g = fb_width (fb g) \<and> g_scr_height g = fb_height (fb g) \<and>
     4 * unat (fb_width (fb g)) \<le> unat (fb_pitch (fb g)) \<and> unat (fb_width (fb g)) < 2 ^ 31 \<and>
     unat (fb_height (fb g)) < 2 ^ 31 \<and>
     unat (fb_pitch (fb g)) * unat (fb_height (fb g)) < 2 ^ 64"

definition on_fb :: "gfx_state \<Rightarrow> int \<Rightarrow> int \<Rightarrow> bool" where
  "on_fb g x y \<longleftrightarrow> 0 \<le> x \<and> nat x < unat (fb_width (fb g)) \<and> 0 \<le> y \<and> nat y < unat (fb_height (fb g))"

definition is_c_int :: "int \<Rightarrow> bool" where
  "is_c_int x \<longleftrightarrow> - (2 ^ 31) \<le> x \<and> x < 2 ^ 31"

lemma word_of_c_int:
  assumes "0 \<le> x" "x < 2 ^ 31"
  shows "unat (word_of_int x :: u64) = nat x"
  using assms by (simp add: unsigned_of_int nat_mod_distrib take_bit_eq_mod)

lemma coordinate_iff:
  assumes "is_c_int x" "0 < (w :: u64)" "unat w = n"
  shows "\<not> (w - 1 < word_of_int x \<or> x < 0) \<longleftrightarrow> 0 \<le> x \<and> nat x < n"
proof (cases "x < 0")
  case False
  have "unat (w - 1) = n - 1" using assms(2,3) by (simp add: unat_minus_one word_gt_0)
  moreover have "0 < n" using assms(2,3) by (simp add: word_less_nat_alt)
  ultimately show ?thesis
    using False assms(1) word_of_c_int [of x] by (auto simp: is_c_int_def word_less_nat_alt nat_less_iff)
qed simp

lemma on_screen_iff:
  assumes "gfx_ok g" "is_c_int x" "is_c_int y"
  shows "on_screen g x y \<longleftrightarrow> on_fb g x y"
  using coordinate_iff [OF assms(2) _ refl, of "g_scr_width g"]
    coordinate_iff [OF assms(3) _ refl, of "g_scr_height g"] assms(1)
  by (auto simp: on_screen_def on_fb_def gfx_ok_def)

definition pixel_index :: "gfx_state \<Rightarrow> int \<Rightarrow> int \<Rightarrow> nat" where
  "pixel_index g x y = nat y * (unat (fb_pitch (fb g)) div 4) + nat x"

lemma pixel_index_bound:
  assumes "gfx_ok g" "on_fb g x y"
  shows "4 * pixel_index g x y + 4 \<le> unat (fb_pitch (fb g)) * unat (fb_height (fb g))"
proof -
  let ?P = "unat (fb_pitch (fb g)) div 4"
  have "nat x < ?P" "nat y + 1 \<le> unat (fb_height (fb g))" using assms by (auto simp: gfx_ok_def on_fb_def)
  then have "pixel_index g x y + 1 \<le> (nat y + 1) * ?P" by (simp add: pixel_index_def algebra_simps)
  also have "\<dots> \<le> unat (fb_height (fb g)) * ?P" using \<open>nat y + 1 \<le> _\<close> by (rule mult_le_mono1)
  finally have "4 * (pixel_index g x y + 1) \<le> unat (fb_height (fb g)) * (4 * ?P)" by simp
  also have "\<dots> \<le> unat (fb_height (fb g)) * unat (fb_pitch (fb g))" by (intro mult_le_mono2) simp
  finally show ?thesis by (simp add: mult.commute)
qed

lemma framebuffer_size: "gfx_ok g \<Longrightarrow> unat (fb_pitch (fb g)) * unat (fb_height (fb g)) < 2 ^ 64"
  unfolding gfx_ok_def by blast

lemmas pixel_index_below = le_less_trans [OF pixel_index_bound framebuffer_size]

lemma word_div_of_nat: "(p :: u64) div 4 = of_nat (unat p div 4)"
  using unat_lt64 [of p] by (simp add: word_unat_eq_iff unat_div unat_of_nat)

lemma pixel_addr_index:
  assumes "gfx_ok g" "on_fb g x y"
  shows "pixel_addr g x y = fb_address (fb g) + of_nat (4 * pixel_index g x y)"
proof -
  have "x < 2 ^ 31" "y < 2 ^ 31" "0 \<le> x" "0 \<le> y" using assms by (auto simp: gfx_ok_def on_fb_def)
  then have w: "(word_of_int x :: u64) = of_nat (nat x)" "(word_of_int y :: u64) = of_nat (nat y)"
    by simp_all
  have "fb_pitch (fb g) div 4 = of_nat (unat (fb_pitch (fb g)) div 4)" by (rule word_div_of_nat)
  then show ?thesis unfolding pixel_addr_def pixel_index_def w by simp
qed

lemma pixel_index_inj:
  assumes "gfx_ok g" "on_fb g x y" "on_fb g x' y'" "pixel_index g x y = pixel_index g x' y'"
  shows "x = x' \<and> y = y'"
proof -
  let ?P = "unat (fb_pitch (fb g)) div 4"
  have lt: "nat x < ?P" "nat x' < ?P" using assms(1-3) by (auto simp: gfx_ok_def on_fb_def)
  then have "nat y = nat y'" "nat x = nat x'"
    using assms(4) unfolding pixel_index_def by (blast dest: row_column_unique)+
  with assms(2,3) show ?thesis by (auto simp: on_fb_def)
qed

lemma pixels_sep:
  assumes "gfx_ok g" "on_fb g x y" "on_fb g x' y'" "(x, y) \<noteq> (x', y')"
  shows "sep (pixel_addr g x y) 4 (pixel_addr g x' y') 4"
proof -
  let ?i = "pixel_index g x y" and ?j = "pixel_index g x' y'"
  have ne: "?i \<noteq> ?j" using pixel_index_inj [OF assms(1-3)] assms(4) by auto
  have b: "4 * ?i + 4 < 2 ^ 64" "4 * ?j + 4 < 2 ^ 64"
    by (rule pixel_index_below [OF assms(1,2) assms(1)], rule pixel_index_below [OF assms(1,3) assms(1)])
  have "sep (of_nat (4 * ?i)) 4 (of_nat (4 * ?j)) 4"
  proof (cases "?i < ?j")
    case True
    then show ?thesis using b by (intro sep_nat) (simp_all add: unat_of_nat64 del: of_nat_mult)
  next
    case False
    then have "sep (of_nat (4 * ?j)) 4 (of_nat (4 * ?i)) 4"
      using b ne by (intro sep_nat) (simp_all add: unat_of_nat64 del: of_nat_mult)
    then show ?thesis by (simp add: sep_sym)
  qed
  then show ?thesis unfolding pixel_addr_index [OF assms(1,2)] pixel_addr_index [OF assms(1,3)]
    by (simp add: sep_def del: of_nat_mult)
qed

text \<open>
  C27. Pixels are independent cells: after a pixel of the screen is written, reading it returns
  the colour and reading any other coordinate, on the screen or off it, returns what it did
  before. The framebuffer only has to have lines at least as long as their pixels.
\<close>

theorem putpx_getpx:
  assumes "gfx_ok g" and "is_c_int x" "is_c_int y" "is_c_int x'" "is_c_int y'" and "on_fb g x y"
  shows "getpx g x' y' (putpx g x y colour m) = (if x' = x \<and> y' = y then colour else getpx g x' y' m)"
proof (cases "on_fb g x' y'")
  case True
  then show ?thesis
    using pixels_sep [OF assms(1,6) True] assms by (auto simp: getpx_def putpx_def on_screen_iff mem_simps)
next
  case False
  then show ?thesis using assms by (auto simp: getpx_def on_screen_iff)
qed

text \<open>A screen of 1024 by 768 pixels.\<close>

definition demo_gfx :: gfx_state where
  "demo_gfx = \<lparr>fb = \<lparr>fb_address = 0xFFFF8000FD000000, fb_width = 1024, fb_height = 768, fb_pitch = 4096\<rparr>,
     g_scr_width = 1024, g_scr_height = 768\<rparr>"

theorem putpx_getpx_witness:
  "getpx demo_gfx 1023 0 (putpx demo_gfx 1023 0 0xFFFFFF (\<lambda>_. 0)) = 0xFFFFFF \<and>
   getpx demo_gfx 0 1 (putpx demo_gfx 1023 0 0xFFFFFF (\<lambda>_. 0)) = getpx demo_gfx 0 1 (\<lambda>_. 0)"
  using putpx_getpx [of demo_gfx 1023 0 1023 0 "0xFFFFFF" "\<lambda>_. 0"] putpx_getpx [of demo_gfx 1023 0 0 1 "0xFFFFFF" "\<lambda>_. 0"]
  by (simp add: gfx_ok_def on_fb_def is_c_int_def demo_gfx_def)

text \<open>A pixel lies within the framebuffer, and nothing outside of it is written.\<close>

lemma putpx_outside:
  assumes "gfx_ok g" "is_c_int x" "is_c_int y" "\<not> in_region (fb_address (fb g)) (fb_pitch (fb g) * fb_height (fb g)) a"
  shows "putpx g x y colour m a = m a"
proof (cases "on_fb g x y")
  case True
  let ?n = "4 * pixel_index g x y" and ?s = "unat (fb_pitch (fb g)) * unat (fb_height (fb g))"
  have b: "?n + 4 \<le> ?s" "?s < 2 ^ 64"
    by (rule pixel_index_bound [OF assms(1) True], rule framebuffer_size [OF assms(1)])
  have s: "unat (fb_pitch (fb g) * fb_height (fb g)) = ?s" using b(2) by (simp add: unat_word_ariths)
  have "\<not> in_region (pixel_addr g x y) 4 a"
  proof
    assume "in_region (pixel_addr g x y) 4 a"
    then obtain k where "k < 4" and "a = pixel_addr g x y + k" by (rule in_regionE)
    then have k: "k < 4" "a = fb_address (fb g) + (of_nat ?n + k)"
      unfolding pixel_addr_index [OF assms(1) True] by (simp_all only: add.assoc)
    have "unat k < 4" using k(1) by (simp add: word_less_nat_alt)
    moreover have "unat (of_nat ?n :: u64) = ?n" using b by (intro unat_of_nat64) simp
    ultimately have "unat (of_nat ?n + k) = ?n + unat k" using b by (subst unat_add_nowrap) simp_all
    with \<open>unat k < 4\<close> b have "of_nat ?n + k < fb_pitch (fb g) * fb_height (fb g)"
      unfolding word_less_nat_alt s by simp
    with k(2) assms(4) show False by simp
  qed
  then show ?thesis by (simp add: putpx_def write32_outside)
next
  case False
  then show ?thesis using assms by (simp add: putpx_def on_screen_iff)
qed

text \<open>
  The loop that ends \<open>fb_clrscr\<close> changes the first pixel only.
\<close>

lemma clear_pixels_first:
  assumes "gfx_ok g" "is_c_int x" "is_c_int y" "(x, y) \<noteq> (0, 0)"
  shows "getpx g x y (clear_pixels g m) = getpx g x y m"
proof (cases "on_fb g x y")
  case True
  have z: "on_fb g 0 0" using assms(1) by (auto simp: on_fb_def gfx_ok_def unat_gt_0 word_gt_0)
  have "pixel_addr g 0 0 = fb_address (fb g)" by (simp add: pixel_addr_def)
  with pixels_sep [OF assms(1) z True] assms(4)
  have s: "sep (fb_address (fb g)) 4 (pixel_addr g x y) 4" by auto
  have "read32 (((\<lambda>m. write32 m (fb_address (fb g)) 0) ^^ n) m) (pixel_addr g x y) = read32 m (pixel_addr g x y)" for n
    by (induction n) (simp_all add: read32_write32_sep [OF s])
  then show ?thesis by (simp add: getpx_def clear_pixels_def)
next
  case False
  then show ?thesis using assms(1-3) by (simp add: getpx_def on_screen_iff)
qed

section \<open>Blending\<close>

lemma blend_bounds:
  fixes s d i :: int
  assumes "0 \<le> s" "s < 256" "0 \<le> d" "d < 256" "0 \<le> i" "i < 256"
  shows "- 65280 \<le> (d - s) * i" "(d - s) * i \<le> 65280"
    and "0 \<le> s + (d - s) * i div 256" "s + (d - s) * i div 256 < 256"
proof -
  have lo: "(- s) * i \<le> (d - s) * i" and hi: "(d - s) * i \<le> (255 - s) * i"
    by (rule mult_right_mono, use assms in simp, use assms in simp)+
  have "s * i \<le> s * 255" "(255 - s) * i \<le> (255 - s) * 255"
    by (rule mult_left_mono, use assms in simp, use assms in simp)+
  with lo hi assms have e: "- (256 * s) \<le> (d - s) * i" "(d - s) * i < 65536 - 256 * s"
    and "- 65280 \<le> (d - s) * i \<and> (d - s) * i \<le> 65280" by simp_all
  then show "- 65280 \<le> (d - s) * i" "(d - s) * i \<le> 65280" by simp_all
  obtain e where "e = (d - s) * i" by blast
  with e have "- (256 * s) \<le> e" "e < 65536 - 256 * s" by simp_all
  then have "0 \<le> s + e div 256" "s + e div 256 < 256" by linarith+
  then show "0 \<le> s + (d - s) * i div 256" "s + (d - s) * i div 256 < 256" using \<open>e = _\<close> by simp_all
qed

lemma small_sint:
  assumes "- 65280 \<le> e" "e \<le> 65280"
  shows "sint (word_of_int e :: u32) = e"
proof -
  have "signed_take_bit 31 (take_bit 32 e) = signed_take_bit 31 e" by (simp add: signed_take_bit_take_bit)
  also have "\<dots> = e" using assms by (intro signed_take_bit_int_eq_self) simp_all
  finally show ?thesis by (simp add: sint_uint unsigned_of_int)
qed

text \<open>A blended channel is the truncated weighted mean and stays within its eight bits.\<close>

lemma lerp_channel_value:
  assumes "s < 256" "d < 256"
  shows "uint (lerp_channel s d i) = uint s + (uint d - uint s) * uint i div 256"
    and "lerp_channel s d i < 256"
proof -
  let ?e = "(uint d - uint s) * uint i" and ?w = "(d - s) * ucast i :: u32"
  have "uint s < 256" "uint d < 256" "uint i < 256"
    using assms unsigned_less [of i, where 'a = int] by (simp_all add: word_less_def)
  note b = blend_bounds [OF unsigned_greater_eq this(1) unsigned_greater_eq this(2) unsigned_greater_eq this(3)]
  have "?w = word_of_int ?e" by simp
  then have "sint ?w = ?e"
    using small_sint [OF b(1,2)] by simp
  then have "sint (signed_drop_bit 8 ?w) = ?e div 256"
    by (simp add: sint_signed_drop_bit_eq drop_bit_eq_div)
  then have d8: "signed_drop_bit 8 ?w = word_of_int (?e div 256)"
    by (metis of_int_sint scast_id)
  have "lerp_channel s d i = word_of_int (uint s + ?e div 256)"
    unfolding lerp_channel_def d8 by simp
  moreover have "uint (word_of_int r :: u32) = r" if "0 \<le> r" "r < 256" for r
    using that by (simp add: unsigned_of_int take_bit_int_eq_self)
  ultimately show u: "uint (lerp_channel s d i) = uint s + ?e div 256" using b(3,4) by presburger
  with b(4) show "lerp_channel s d i < 256" by (simp add: word_less_def)
qed

end
