(* ===== verification/Ps2m.thy ===== *)
theory Ps2m
  imports Ldisc Gfx
begin

unbundle bit_operations_syntax

text \<open>
  The mouse driver, \<open>kernel/src/drivers/input/ps2m/ps2m.cpp\<close>: the bounded waits for the
  controller, the assembly of three-byte packets in the interrupt handler, and the movement of
  the pointer. Its variables extend the state of the keyboard and the line discipline.

  Positions are C ints and stay far from their limits, which is proved; they are modelled by
  integers. \<open>g_scr_width\<close> and \<open>g_scr_height\<close> are 64-bit variables of \<open>gfx.c\<close> that
  this file declares as \<open>int\<close>: it reads their low halves. \<open>draw_mouse_pointer\<close> only
  prints; its calls are collected in \<open>pointer_calls\<close>, newest first.
\<close>

section \<open>Data and operations\<close>

record mouse_state =
  mouse_cycle :: u8
  mouse_packet :: "u8 list"
  mouse_packet_ready :: bool
  mouse_pos :: "int \<times> int"
  mouse_pos_old :: "int \<times> int"
  mouse_skip :: bool
  pointer_calls :: "((int \<times> int) \<times> (int \<times> int) \<times> u8 \<times> u8 \<times> u8) list"

record 'd ps2m = "'d ldisc" +
  mouse :: mouse_state
  gfx :: gfx_state

text \<open>\<open>while (timeout--)\<close>: at most that many reads of the status port.\<close>

fun poll_status :: "'d device \<Rightarrow> (u8 \<Rightarrow> bool) \<Rightarrow> nat \<Rightarrow> ('d, 'a) cpu_scheme \<Rightarrow> ('d, 'a) cpu_scheme" where
  "poll_status hw stop timeout c =
     (if timeout = 0 then c
      else case inb hw 0x64 c of (v, c1) \<Rightarrow> if stop v then c1 else poll_status hw stop (timeout - 1) c1)"

declare poll_status.simps [simp del]

definition mouse_wait :: "'d device \<Rightarrow> ('d, 'a) cpu_scheme \<Rightarrow> ('d, 'a) cpu_scheme" where
  "mouse_wait hw c = poll_status hw (\<lambda>v. v AND 2 = 0) 100000 c"

definition mouse_waitinput :: "'d device \<Rightarrow> ('d, 'a) cpu_scheme \<Rightarrow> ('d, 'a) cpu_scheme" where
  "mouse_waitinput hw c = poll_status hw (\<lambda>v. v AND 1 \<noteq> 0) 100000 c"

definition mouse_write :: "'d device \<Rightarrow> u8 \<Rightarrow> ('d, 'a) cpu_scheme \<Rightarrow> ('d, 'a) cpu_scheme" where
  "mouse_write hw value c =
     (let c = mouse_wait hw c;
          c = outb hw 0x64 0xD4 c;
          c = mouse_wait hw c
      in outb hw 0x60 value c)"

definition mouse_read :: "'d device \<Rightarrow> ('d, 'a) cpu_scheme \<Rightarrow> u8 \<times> ('d, 'a) cpu_scheme" where
  "mouse_read hw c = inb hw 0x60 (mouse_waitinput hw c)"

text \<open>One coordinate: the sum with its byte or, if negative, the difference with its complement.\<close>

definition moved :: "bool \<Rightarrow> bool \<Rightarrow> u8 \<Rightarrow> int \<Rightarrow> int" where
  "moved subtract overflow b v =
     (if \<not> subtract then v + uint b + (if overflow then 255 else 0)
      else v - uint b - (if overflow then 255 else 0))"

definition clamped :: "u64 \<Rightarrow> int \<Rightarrow> int" where
  "clamped limit v =
     (let v = (if v < 0 then 0 else v);
          l = sint (ucast limit :: u32)
      in if v > l then l else v)"

definition process_mouse :: "gfx_state \<Rightarrow> mouse_state \<Rightarrow> mouse_state" where
  "process_mouse g st =
     (if \<not> mouse_packet_ready st then st
      else
        let p = mouse_packet st;
            xNegative = (p ! 0 AND 0x10 \<noteq> 0);
            yNegative = (p ! 0 AND 0x20 \<noteq> 0);
            xOverflow = (p ! 0 AND 0x40 \<noteq> 0);
            yOverflow = (p ! 0 AND 0x80 \<noteq> 0);
            p = (if xNegative then p[1 := word_of_int (256 - uint (p ! 1))] else p);
            x = moved xNegative xOverflow (p ! 1) (fst (mouse_pos st));
            p = (if yNegative then p[2 := word_of_int (256 - uint (p ! 2))] else p);
            y = moved (\<not> yNegative) yOverflow (p ! 2) (snd (mouse_pos st));
            pos = (clamped (g_scr_width g) x, clamped (g_scr_height g) y)
        in st\<lparr>mouse_packet := p, mouse_pos := pos,
              pointer_calls := (mouse_pos_old st, pos, p ! 0 AND 1, p ! 0 AND 4, p ! 0 AND 2) # pointer_calls st,
              mouse_packet_ready := False, mouse_pos_old := pos\<rparr>)"

definition mouse_byte :: "u8 \<Rightarrow> mouse_state \<Rightarrow> mouse_state" where
  "mouse_byte data st =
     (if mouse_skip st then st\<lparr>mouse_skip := False\<rparr>
      else if mouse_cycle st = 0 then
        if data AND 8 = 0 then st
        else st\<lparr>mouse_packet := (mouse_packet st)[0 := data], mouse_cycle := mouse_cycle st + 1\<rparr>
      else if mouse_cycle st = 1 then
        st\<lparr>mouse_packet := (mouse_packet st)[1 := data], mouse_cycle := mouse_cycle st + 1\<rparr>
      else if mouse_cycle st = 2 then
        st\<lparr>mouse_packet := (mouse_packet st)[2 := data], mouse_packet_ready := True, mouse_cycle := 0\<rparr>
      else st)"

definition ps2m_interrupt_handler :: "'d device \<Rightarrow> ('d, 'a) ps2m_scheme \<Rightarrow> ('d, 'a) ps2m_scheme" where
  "ps2m_interrupt_handler hw c =
     (case inb hw 0x60 c of (data, c1) \<Rightarrow>
        send_eoi hw 12 (c1\<lparr>mouse := mouse_byte data (process_mouse (gfx c1) (mouse c1))\<rparr>))"

definition ps2m_initialise :: "'d device \<Rightarrow> u64 \<Rightarrow> ('d, 'a) idt_scheme \<Rightarrow> ('d, 'a) idt_scheme" where
  "ps2m_initialise hw handler_addr c =
     (let c = outb hw 0x64 0xA8 c;
          c = mouse_wait hw c;
          c = outb hw 0x64 0x20 c;
          c = mouse_waitinput hw c;
          (status, c) = inb hw 0x60 c;
          status = status OR 2;
          c = mouse_wait hw c;
          c = outb hw 0x64 0x60 c;
          c = mouse_wait hw c;
          c = outb hw 0x60 status c;
          c = mouse_write hw 0xF6 c;
          (_, c) = mouse_read hw c;
          c = mouse_write hw 0xF4 c;
          (_, c) = mouse_read hw c;
          c = set_descriptor hw 0x2C handler_addr 0x8E c
      in irq_clear_mask hw 2 c)"

section \<open>The pointer stays on the screen\<close>

text \<open>A screen whose sides are C ints with room for one movement.\<close>

definition screen_ok :: "gfx_state \<Rightarrow> bool" where
  "screen_ok g \<longleftrightarrow> unat (g_scr_width g) < 2 ^ 31 - 510 \<and> unat (g_scr_height g) < 2 ^ 31 - 510"

definition pointer_ok :: "gfx_state \<Rightarrow> mouse_state \<Rightarrow> bool" where
  "pointer_ok g st \<longleftrightarrow>
     0 \<le> fst (mouse_pos st) \<and> fst (mouse_pos st) \<le> uint (g_scr_width g) \<and>
     0 \<le> snd (mouse_pos st) \<and> snd (mouse_pos st) \<le> uint (g_scr_height g) \<and>
     length (mouse_packet st) = 4 \<and> mouse_cycle st \<le> 2 \<and>
     (mouse_packet_ready st \<longrightarrow> mouse_cycle st = 0)"

lemma uint_less: "unat (w :: u64) < n \<Longrightarrow> uint w < int n"
  by (metis of_nat_less_iff uint_nat)

lemma limit_value:
  assumes "unat (w :: u64) < 2 ^ 31"
  shows "sint (ucast w :: u32) = uint w"
proof -
  have w: "uint w < 2 ^ 31" using uint_less [OF assms] by simp
  have "uint (ucast w :: u32) = uint w"
    using w by (simp add: unsigned_ucast_eq take_bit_int_eq_self)
  moreover have "signed_take_bit 31 (uint w) = uint w"
    by (rule signed_take_bit_int_eq_self [OF order_trans [OF _ unsigned_greater_eq] w]) simp
  ultimately show ?thesis by (simp add: sint_uint)
qed

lemma clamped_eq:
  assumes "unat limit < 2 ^ 31"
  shows "clamped limit v = max 0 (min v (uint limit))"
proof -
  obtain l where l: "uint limit = l" "0 \<le> l" by simp
  show ?thesis unfolding clamped_def Let_def limit_value [OF assms] l(1) using l(2) by auto
qed

lemma moved_bounds: "v - 510 \<le> moved s ov b v" "moved s ov b v \<le> v + 510"
proof -
  obtain k where k: "uint b = k" "0 \<le> k" "k < 256" using unsigned_less [of b, where 'a = int] by simp
  then show "v - 510 \<le> moved s ov b v" "moved s ov b v \<le> v + 510" unfolding moved_def k(1) by auto
qed

text \<open>The bounds make the additions of C ints exact.\<close>

lemma moved_is_c_int:
  assumes "0 \<le> v" "v \<le> uint w" "unat (w :: u64) < 2 ^ 31 - 510"
  shows "is_c_int (moved s ov b v)"
proof -
  have "uint w < 2 ^ 31 - 510" using uint_less [OF assms(3)] by simp
  then show ?thesis using moved_bounds [where v = v and s = s and ov = ov and b = b] assms(1,2) by (simp add: is_c_int_def)
qed

lemma process_mouse_fields:
  "mouse_cycle (process_mouse g st) = mouse_cycle st" "mouse_skip (process_mouse g st) = mouse_skip st"
  "\<not> mouse_packet_ready (process_mouse g st)"
  "length (mouse_packet (process_mouse g st)) = length (mouse_packet st)"
  "mouse_pos (process_mouse g st) = mouse_pos st \<or>
     (\<exists>x y. mouse_pos (process_mouse g st) = (clamped (g_scr_width g) x, clamped (g_scr_height g) y))"
  unfolding process_mouse_def Let_def by auto

lemma process_mouse_ok:
  assumes "screen_ok g" "pointer_ok g st"
  shows "pointer_ok g (process_mouse g st) \<and> \<not> mouse_packet_ready (process_mouse g st)"
proof -
  have c: "0 \<le> clamped (g_scr_width g) v \<and> clamped (g_scr_width g) v \<le> uint (g_scr_width g)"
    "0 \<le> clamped (g_scr_height g) v \<and> clamped (g_scr_height g) v \<le> uint (g_scr_height g)" for v
    using assms(1) by (simp_all add: clamped_eq screen_ok_def)
  note f = process_mouse_fields [of g st]
  from f(5) consider "mouse_pos (process_mouse g st) = mouse_pos st"
    | x y where "mouse_pos (process_mouse g st) = (clamped (g_scr_width g) x, clamped (g_scr_height g) y)" by blast
  then show ?thesis
    using assms(2) unfolding pointer_ok_def by cases (simp_all add: f(1-4) c)
qed

lemma mouse_byte_ok:
  assumes "pointer_ok g st" "\<not> mouse_packet_ready st"
  shows "pointer_ok g (mouse_byte data st)"
proof -
  have "(1 :: u8) \<le> 2" by (simp add: word_le_nat_alt)
  then show ?thesis using assms unfolding mouse_byte_def pointer_ok_def by auto
qed

text \<open>What an interrupt does, and what it leaves of the other drivers.\<close>

lemma handler_effect:
  assumes "inb hw 0x60 c = (v, c1)"
  shows "mouse (ps2m_interrupt_handler hw c) = mouse_byte v (process_mouse (gfx c) (mouse c))"
    and "gfx (ps2m_interrupt_handler hw c) = gfx c"
    and "evbuf (ps2m_interrupt_handler hw c) = evbuf c"
    and "current_scan_state (ps2m_interrupt_handler hw c) = current_scan_state c"
    and "ld (ps2m_interrupt_handler hw c) = ld c"
    and "idt_entries (ps2m_interrupt_handler hw c) = idt_entries c"
    and "dev (ps2m_interrupt_handler hw c) = wr8 hw PIC1_COMMAND PIC_EOI (wr8 hw PIC2_COMMAND PIC_EOI (dev c1))"
  using assms unfolding ps2m_interrupt_handler_def send_eoi_def inb_def outb_def
  by (auto simp: Let_def split: prod.splits)

lemma handler_ok:
  assumes "screen_ok (gfx c)" "pointer_ok (gfx c) (mouse c)"
  shows "pointer_ok (gfx c) (mouse (ps2m_interrupt_handler hw c)) \<and> gfx (ps2m_interrupt_handler hw c) = gfx c"
proof -
  obtain v c1 where i: "inb hw 0x60 c = (v, c1)" by fastforce
  show ?thesis
    unfolding handler_effect [OF i] using process_mouse_ok [OF assms] mouse_byte_ok by blast
qed

text \<open>
  C18. The pointer never leaves the screen: from the state at boot, through any number of mouse
  interrupts with any bytes from the controller, both coordinates stay between zero and the
  width or height, and every intermediate sum is a C int. The bounds are inclusive, so the
  pointer may stand one pixel right of the last column or below the last row.
\<close>

theorem pointer_on_screen:
  assumes "screen_ok (gfx c)" and "pointer_ok (gfx c) (mouse c)"
    and "c' = (ps2m_interrupt_handler hw ^^ n) c"
  shows "0 \<le> fst (mouse_pos (mouse c')) \<and> fst (mouse_pos (mouse c')) \<le> uint (g_scr_width (gfx c)) \<and>
    0 \<le> snd (mouse_pos (mouse c')) \<and> snd (mouse_pos (mouse c')) \<le> uint (g_scr_height (gfx c)) \<and>
    is_c_int (moved s ov b (fst (mouse_pos (mouse c')))) \<and> is_c_int (moved s ov b (snd (mouse_pos (mouse c'))))"
proof -
  have "pointer_ok (gfx c) (mouse ((ps2m_interrupt_handler hw ^^ n) c)) \<and>
      gfx ((ps2m_interrupt_handler hw ^^ n) c) = gfx c" for n
  proof (induction n)
    case (Suc n)
    then show ?case using handler_ok [of "(ps2m_interrupt_handler hw ^^ n) c" hw] assms(1) by simp
  qed (simp add: assms(2))
  then have ok: "pointer_ok (gfx c) (mouse c')" using assms(3) by simp
  then show ?thesis using assms(1)
    moved_is_c_int [of "fst (mouse_pos (mouse c'))" "g_scr_width (gfx c)" s ov b]
    moved_is_c_int [of "snd (mouse_pos (mouse c'))" "g_scr_height (gfx c)" s ov b]
    by (simp add: pointer_ok_def screen_ok_def)
qed

text \<open>The driver at boot, with a mouse that sends a fixed list of bytes.\<close>

definition boot_mouse :: mouse_state where
  "boot_mouse = \<lparr>mouse_cycle = 0, mouse_packet = [0, 0, 0, 0], mouse_packet_ready = False,
     mouse_pos = (0, 0), mouse_pos_old = (0, 0), mouse_skip = True, pointer_calls = []\<rparr>"

definition demo_ps2m :: "u8 list \<Rightarrow> u8 list ps2m" where
  "demo_ps2m bs = ldisc.extend (demo_ldisc bs) \<lparr>mouse = boot_mouse, gfx = demo_gfx\<rparr>"

theorem pointer_on_screen_witness:
  "fst (mouse_pos (mouse ((ps2m_interrupt_handler stream_hw ^^ 5) (demo_ps2m [0, 8, 200, 200, 0])))) \<le> 1024 \<and>
   0 \<le> snd (mouse_pos (mouse ((ps2m_interrupt_handler stream_hw ^^ 5) (demo_ps2m [0, 8, 200, 200, 0]))))"
  using pointer_on_screen [where c = "demo_ps2m [0, 8, 200, 200, 0]" and hw = stream_hw and n = 5, OF _ _ refl]
  by (simp add: screen_ok_def pointer_ok_def demo_ps2m_def demo_gfx_def boot_mouse_def ldisc.defs demo_ldisc_def
      del: funpow.simps)

section \<open>Packets move the pointer\<close>

text \<open>
  What a mouse means by a packet: a flag byte with the bit that marks a first byte, and two
  nine-bit movements whose signs are in the flags. The vertical axis of the screen points down.
\<close>

type_synonym packet = "u8 \<times> u8 \<times> u8"

definition delta :: "bool \<Rightarrow> bool \<Rightarrow> u8 \<Rightarrow> int" where
  "delta negative overflow b =
     (if negative then uint b - 256 else uint b) + (if overflow then if negative then - 255 else 255 else 0)"

definition move_by :: "gfx_state \<Rightarrow> packet \<Rightarrow> int \<times> int \<Rightarrow> int \<times> int" where
  "move_by g = (\<lambda>(f, dx, dy) (x, y).
     (max 0 (min (x + delta (f AND 0x10 \<noteq> 0) (f AND 0x40 \<noteq> 0) dx) (uint (g_scr_width g))),
      max 0 (min (y - delta (f AND 0x20 \<noteq> 0) (f AND 0x80 \<noteq> 0) dy) (uint (g_scr_height g)))))"

text \<open>A negative movement whose byte is zero, by 256 steps, is the one case that is not decoded.\<close>

definition valid_packet :: "packet \<Rightarrow> bool" where
  "valid_packet = (\<lambda>(f, dx, dy). f AND 8 \<noteq> 0 \<and> \<not> (f AND 0x10 \<noteq> 0 \<and> dx = 0) \<and> \<not> (f AND 0x20 \<noteq> 0 \<and> dy = 0))"

definition packet_bytes :: "packet \<Rightarrow> u8 list" where
  "packet_bytes = (\<lambda>(f, dx, dy). [f, dx, dy])"

fun mouse_delivers :: "'d device \<Rightarrow> u8 list \<Rightarrow> 'd \<Rightarrow> bool" where
  "mouse_delivers hw [] d = True"
| "mouse_delivers hw (b # bs) d =
     (case rd8 hw 0x60 d of (v, d1) \<Rightarrow> v = b \<and>
        mouse_delivers hw bs (wr8 hw PIC1_COMMAND PIC_EOI (wr8 hw PIC2_COMMAND PIC_EOI d1)))"

lemma complement_value:
  assumes "(b :: u8) \<noteq> 0"
  shows "uint (word_of_int (256 - uint b) :: u8) = 256 - uint b"
proof -
  obtain k where k: "uint b = k" "0 < k" "k < 256"
    using assms unsigned_less [of b, where 'a = int] by (simp add: uint_0_iff less_le)
  have "uint (word_of_int j :: u8) = j" if "0 \<le> j" "j < 256" for j
    using that by (simp add: unsigned_of_int take_bit_int_eq_self)
  from this [of "256 - uint b"] k show ?thesis by linarith
qed

lemma moved_delta:
  "\<not> (n \<and> b = 0) \<Longrightarrow> moved n ov (if n then word_of_int (256 - uint b) else b) v = v + delta n ov b"
  "\<not> (n \<and> b = 0) \<Longrightarrow> moved (\<not> n) ov (if n then word_of_int (256 - uint b) else b) v = v - delta n ov b"
  by (auto simp: moved_def delta_def complement_value [simplified])

definition idle :: "mouse_state \<Rightarrow> bool" where
  "idle st \<longleftrightarrow> \<not> mouse_skip st \<and> mouse_cycle st = 0 \<and> length (mouse_packet st) = 4"

lemma process_mouse_idle: "idle st \<Longrightarrow> idle (process_mouse g st) \<and> \<not> mouse_packet_ready (process_mouse g st)"
  by (auto simp: process_mouse_def idle_def Let_def)

lemma process_packet:
  assumes "screen_ok g" "valid_packet (a, b, d)" "mouse_packet_ready st" "mouse_packet st = [a, b, d, r]"
  shows "mouse_pos (process_mouse g st) = move_by g (a, b, d) (mouse_pos st)"
proof -
  obtain x y where p: "mouse_pos st = (x, y)" by fastforce
  have v: "\<not> (a AND 0x10 \<noteq> 0 \<and> b = 0)" "\<not> (a AND 0x20 \<noteq> 0 \<and> d = 0)" using assms(2) by (simp_all add: valid_packet_def)
  have c: "clamped (g_scr_width g) v = max 0 (min v (uint (g_scr_width g)))"
    "clamped (g_scr_height g) v = max 0 (min v (uint (g_scr_height g)))" for v
    using assms(1) by (simp_all add: clamped_eq screen_ok_def)
  have "mouse_pos (process_mouse g st) =
    (clamped (g_scr_width g) (moved (a AND 0x10 \<noteq> 0) (a AND 0x40 \<noteq> 0)
       (if a AND 0x10 \<noteq> 0 then word_of_int (256 - uint b) else b) x),
     clamped (g_scr_height g) (moved (\<not> a AND 0x20 \<noteq> 0) (a AND 0x80 \<noteq> 0)
       (if a AND 0x20 \<noteq> 0 then word_of_int (256 - uint d) else d) y))"
    unfolding process_mouse_def Let_def assms(4) using assms(3)
    by (simp add: p)
  then show ?thesis unfolding c moved_delta(1) [OF v(1)] moved_delta(2) [OF v(2)] by (simp add: move_by_def p)
qed

definition feed :: "gfx_state \<Rightarrow> u8 \<Rightarrow> mouse_state \<Rightarrow> mouse_state" where
  "feed g b st = mouse_byte b (process_mouse g st)"

lemma process_mouse_not_ready: "\<not> mouse_packet_ready st \<Longrightarrow> process_mouse g st = st"
  by (simp add: process_mouse_def)

lemma feed_packet:
  assumes "screen_ok g" "idle st" "valid_packet (a, b, d)"
    and st'_def: "st' = feed g d (feed g b (feed g a st))"
  shows "idle st' \<and> mouse_pos (process_mouse g st') = move_by g (a, b, d) (mouse_pos (process_mouse g st))"
proof -
  define s0 where "s0 = process_mouse g st"
  have i: "idle s0" "\<not> mouse_packet_ready s0" using process_mouse_idle [OF assms(2)] by (simp_all add: s0_def)
  obtain p0 p1 p2 r where p: "mouse_packet s0 = [p0, p1, p2, r]"
    using i(1) unfolding idle_def by (auto simp: numeral_eq_Suc length_Suc_conv)
  have a: "a AND 8 \<noteq> 0" using assms(3) by (simp add: valid_packet_def)
  have 1: "feed g a st = s0\<lparr>mouse_packet := [a, p1, p2, r], mouse_cycle := 1\<rparr>"
    using i a by (simp add: feed_def mouse_byte_def idle_def p flip: s0_def)
  have 2: "feed g b (feed g a st) = s0\<lparr>mouse_packet := [a, b, p2, r], mouse_cycle := 2\<rparr>"
    unfolding 1 unfolding feed_def using i by (simp add: process_mouse_not_ready mouse_byte_def idle_def)
  have 3: "st' = s0\<lparr>mouse_packet := [a, b, d, r], mouse_cycle := 0, mouse_packet_ready := True\<rparr>"
    unfolding st'_def 2 unfolding feed_def using i by (simp add: process_mouse_not_ready mouse_byte_def idle_def)
  have "mouse_pos (process_mouse g st') = move_by g (a, b, d) (mouse_pos st')"
    by (rule process_packet [OF assms(1,3)]) (simp_all add: 3)
  with i(1) show ?thesis unfolding s0_def [symmetric] by (simp add: 3 idle_def)
qed

lemma handler_feed:
  assumes "mouse_delivers hw (b # bs) (dev c)"
  shows "mouse (ps2m_interrupt_handler hw c) = feed (gfx c) b (mouse c) \<and>
    gfx (ps2m_interrupt_handler hw c) = gfx c \<and> mouse_delivers hw bs (dev (ps2m_interrupt_handler hw c))"
proof -
  obtain v c1 where i: "inb hw 0x60 c = (v, c1)" by fastforce
  then obtain d1 where "rd8 hw 0x60 (dev c) = (v, d1)" "dev c1 = d1" by (auto simp: inb_def split: prod.splits)
  then show ?thesis using assms unfolding handler_effect [OF i] feed_def by simp
qed

lemma funpow_three: "(f ^^ (3 * Suc n)) x = (f ^^ (3 * n)) (f (f (f x)))"
proof -
  have "3 * Suc n = Suc (Suc (Suc (3 * n)))" by simp
  then show ?thesis by (simp only: funpow_Suc_right o_apply)
qed


text \<open>Right and up, then left: from (100, 50) to (110, 45), then to (105, 45).\<close>

definition demo_moving :: "u8 list ps2m" where
  "demo_moving = (demo_ps2m [8, 10, 5, 0x18, 251, 0])\<lparr>mouse := boot_mouse\<lparr>mouse_skip := False, mouse_pos := (100, 50)\<rparr>\<rparr>"


text \<open>The movement by 256 to the left does not move the pointer.\<close>

lemma left_256_lost:
  assumes "mouse_packet_ready st" "mouse_packet st = [0x18, 0, 0, r]" "mouse_pos st = (x, y)"
    and "0 \<le> x" "x \<le> uint (g_scr_width g)" "0 \<le> y" "y \<le> uint (g_scr_height g)" "screen_ok g"
  shows "mouse_pos (process_mouse g st) = (x, y)"
  using assms unfolding process_mouse_def Let_def
  by (simp add: moved_def clamped_eq screen_ok_def)

section \<open>Initialisation\<close>

lemma poll_status_dev: "\<exists>d. poll_status hw stop n c = c\<lparr>dev := d\<rparr>"
proof (induction n arbitrary: c)
  case 0
  show ?case by (rule exI [of _ "dev c"]) (simp add: poll_status.simps)
next
  case (Suc n)
  obtain v d where r: "rd8 hw 0x64 (dev c) = (v, d)" by fastforce
  obtain d' where "poll_status hw stop n (c\<lparr>dev := d\<rparr>) = c\<lparr>dev := d\<rparr>\<lparr>dev := d'\<rparr>" using Suc by blast
  then show ?case by (subst poll_status.simps) (auto simp: inb_def r)
qed

lemma entries_kept:
  fixes c :: "('d, 'a) idt_scheme"
  shows "idt_entries (outb hw p v c) = idt_entries c" "idt_entries (snd (inb hw p c)) = idt_entries c"
    "idt_entries (mouse_wait hw c) = idt_entries c" "idt_entries (mouse_waitinput hw c) = idt_entries c"
proof -
  have "idt_entries (poll_status hw stop n c) = idt_entries c" for stop n
    using poll_status_dev [of hw stop n c] by auto
  then show "idt_entries (mouse_wait hw c) = idt_entries c" "idt_entries (mouse_waitinput hw c) = idt_entries c"
    by (simp_all add: mouse_wait_def mouse_waitinput_def)
qed (simp_all add: outb_def inb_def split: prod.splits)

lemma set_descriptor_entries:
  "idt_entries (set_descriptor hw v a fl c) = (idt_entries c)[unat v := gate a fl]"
  "idt_entries (irq_clear_mask hw irq c) = idt_entries c"
  by (simp_all add: set_descriptor_def irq_clear_mask_def Let_def split_beta entries_kept)

lemma mouse_io_entries:
  "idt_entries (mouse_write hw v c) = idt_entries c" "idt_entries (snd (mouse_read hw c)) = idt_entries c"
  by (simp_all add: mouse_write_def mouse_read_def Let_def entries_kept)

text \<open>The initialisation installs the handler at vector 0x2C and changes no other gate.\<close>

lemma ps2m_initialise_gate:
  "idt_entries (ps2m_initialise hw a c) = (idt_entries c)[0x2C := gate a 0x8E]"
  by (simp add: ps2m_initialise_def Let_def split_beta set_descriptor_entries entries_kept mouse_io_entries)

end
