(* ===== verification/Kernel_Api.thy ===== *)
theory Kernel_Api
  imports Pit Heap_Calls "HOL-Library.Monad_Syntax"
begin

unbundle bit_operations_syntax

text \<open>
  The services the kernel gives to the ACPI interpreter,
  \<open>kernel/src/arch/x86_64/acpi/kernel_api.cpp\<close>: memory mappings, PCI configuration space,
  port ranges, allocation, time, mutexes, events, interrupts, spinlocks and deferred work. The
  structures are bytes of the heap blocks allocated for them. Most operations take the state
  \<open>s\<close> of the memory managers and the state \<open>c\<close> of the timer, the interrupt table and the
  devices.

  \<open>panic\<close> does not return: an operation that may panic yields \<open>Inl\<close> of its message. A
  loop that waits for time to pass or for a lock is a partial function over the argument
  \<open>wake\<close>, what interrupts do to both states during one turn. Log output is left out.
\<close>

section \<open>Data\<close>

datatype uacpi_status = UACPI_STATUS_OK | UACPI_STATUS_OUT_OF_MEMORY | UACPI_STATUS_TIMEOUT

record uacpi_pci_address =
  pa_segment :: u16
  pa_bus :: u8
  pa_device :: u8
  pa_function :: u8

text \<open>\<open>sizeof\<close> of the structures.\<close>

abbreviation (input) sizeof_pci_dev :: u64 where "sizeof_pci_dev \<equiv> 3"
abbreviation (input) sizeof_io_entry :: u64 where "sizeof_io_entry \<equiv> 16"
abbreviation (input) sizeof_mutex :: u64 where "sizeof_mutex \<equiv> 1"
abbreviation (input) sizeof_event :: u64 where "sizeof_event \<equiv> 1"
abbreviation (input) sizeof_interrupt :: u64 where "sizeof_interrupt \<equiv> 16"
abbreviation (input) sizeof_spinlock :: u64 where "sizeof_spinlock \<equiv> 1"
abbreviation (input) sizeof_work :: u64 where "sizeof_work \<equiv> 16"

abbreviation set_byte :: "u64 \<Rightarrow> u8 \<Rightarrow> 'b pmm_scheme \<Rightarrow> 'b pmm_scheme" where
  "set_byte p v s \<equiv> s\<lparr>mem := (mem s)(p := v)\<rparr>"

section \<open>Tables and mappings\<close>

text \<open>The boot loader's answer: the address of the root pointer, if there is one.\<close>

definition uacpi_kernel_get_rsdp :: "u64 option \<Rightarrow> string + (uacpi_status \<times> u64)" where
  "uacpi_kernel_get_rsdp response =
     (case response of
        None \<Rightarrow> Inl ''K_NO_RSDP''
      | Some a \<Rightarrow> if a = 0 then Inl ''K_NO_RSDP'' else Inr (UACPI_STATUS_OK, a))"

definition map_pages :: "u64 \<Rightarrow> u64" where
  "map_pages len = (len + 0xFFF) div 0x1000"

definition uacpi_kernel_map :: "u64 \<Rightarrow> u64 \<Rightarrow> 'b vmm_scheme \<Rightarrow> u64 \<times> 'b vmm_scheme" where
  "uacpi_kernel_map addr len s =
     (addr, snd (mmap (addr AND NOT 0xFFF) (addr AND NOT 0xFFF) (map_pages len) (PAGE_PRESENT OR PAGE_RW) s))"

definition uacpi_kernel_unmap :: "u64 \<Rightarrow> u64 \<Rightarrow> 'b vmm_scheme \<Rightarrow> 'b vmm_scheme" where
  "uacpi_kernel_unmap addr len s = munmap (addr AND NOT 0xFFF) (map_pages len) s"

definition uacpi_kernel_initialize :: uacpi_status where
  "uacpi_kernel_initialize = UACPI_STATUS_OK"

section \<open>PCI configuration space\<close>

text \<open>The handle is returned through \<open>out_handle\<close>.\<close>

definition uacpi_kernel_pci_device_open ::
  "uacpi_pci_address \<Rightarrow> 'b heap_scheme \<Rightarrow> (uacpi_status \<times> u64 option \<times> 'b heap_scheme) option" where
  "uacpi_kernel_pci_device_open address s = do {
     (p, s1) \<leftarrow> malloc sizeof_pci_dev s;
     if p = 0 then Some (UACPI_STATUS_OUT_OF_MEMORY, None, s1)
     else Some (UACPI_STATUS_OK, Some p,
            set_byte (p + 2) (pa_function address) (set_byte (p + 1) (pa_device address)
              (set_byte p (pa_bus address) s1))) }"

definition uacpi_kernel_pci_device_close :: "u64 \<Rightarrow> 'b heap_scheme \<Rightarrow> 'b heap_scheme option" where
  "uacpi_kernel_pci_device_close handle s = heap_free handle s"

definition config_address :: "u8 \<Rightarrow> u8 \<Rightarrow> u8 \<Rightarrow> u64 \<Rightarrow> u32" where
  "config_address bus device func offset =
     0x80000000 OR push_bit 16 (ucast bus AND 0xFF) OR push_bit 11 (ucast device AND 0x1F) OR
     push_bit 8 (ucast func AND 0x07) OR ucast (offset AND 0xFC)"

definition byte_shift :: "u64 \<Rightarrow> nat" where "byte_shift offset = unat ((offset AND 3) * 8)"
definition word_shift :: "u64 \<Rightarrow> nat" where "word_shift offset = unat ((offset AND 2) * 8)"

definition uacpi_pci_read_helper ::
  "'d device \<Rightarrow> nat \<Rightarrow> u8 \<Rightarrow> u8 \<Rightarrow> u8 \<Rightarrow> u64 \<Rightarrow> ('d, 'a) cpu_scheme \<Rightarrow> u32 \<times> ('d, 'a) cpu_scheme" where
  "uacpi_pci_read_helper hw sz_order bus device func offset c =
     (let c1 = outl hw 0xCF8 (config_address bus device func offset) c
      in case inl hw 0xCFC c1 of (data, c2) \<Rightarrow>
        (if sz_order = 0 then drop_bit (byte_shift offset) data AND 0xFF
         else if sz_order = 1 then drop_bit (word_shift offset) data AND 0xFFFF
         else if sz_order = 2 then data else 0, c2))"

definition uacpi_pci_write_helper ::
  "'d device \<Rightarrow> nat \<Rightarrow> u8 \<Rightarrow> u8 \<Rightarrow> u8 \<Rightarrow> u64 \<Rightarrow> u32 \<Rightarrow> ('d, 'a) cpu_scheme \<Rightarrow> ('d, 'a) cpu_scheme" where
  "uacpi_pci_write_helper hw sz_order bus device func offset value c =
     (let c1 = outl hw 0xCF8 (config_address bus device func offset) c
      in case inl hw 0xCFC c1 of (data, c2) \<Rightarrow>
        if sz_order = 0
        then outl hw 0xCFC ((data AND NOT (push_bit (byte_shift offset) 0xFF)) OR
               push_bit (byte_shift offset) (value AND 0xFF)) c2
        else if sz_order = 1
        then outl hw 0xCFC ((data AND NOT (push_bit (word_shift offset) 0xFFFF)) OR
               push_bit (word_shift offset) (value AND 0xFFFF)) c2
        else if sz_order = 2 then outl hw 0xCFC value c2
        else c2)"

text \<open>The accessors read the address of the device from the handle.\<close>

definition uacpi_kernel_pci_read8 ::
  "'d device \<Rightarrow> u64 \<Rightarrow> u64 \<Rightarrow> 'b heap_scheme \<Rightarrow> ('d, 'a) cpu_scheme \<Rightarrow> uacpi_status \<times> u8 \<times> ('d, 'a) cpu_scheme" where
  "uacpi_kernel_pci_read8 hw handle offset s c =
     (case uacpi_pci_read_helper hw 0 (mem s handle) (mem s (handle + 1)) (mem s (handle + 2)) offset c of
        (v, c1) \<Rightarrow> (UACPI_STATUS_OK, ucast v, c1))"

definition uacpi_kernel_pci_read16 ::
  "'d device \<Rightarrow> u64 \<Rightarrow> u64 \<Rightarrow> 'b heap_scheme \<Rightarrow> ('d, 'a) cpu_scheme \<Rightarrow> uacpi_status \<times> u16 \<times> ('d, 'a) cpu_scheme" where
  "uacpi_kernel_pci_read16 hw handle offset s c =
     (case uacpi_pci_read_helper hw 1 (mem s handle) (mem s (handle + 1)) (mem s (handle + 2)) offset c of
        (v, c1) \<Rightarrow> (UACPI_STATUS_OK, ucast v, c1))"

definition uacpi_kernel_pci_read32 ::
  "'d device \<Rightarrow> u64 \<Rightarrow> u64 \<Rightarrow> 'b heap_scheme \<Rightarrow> ('d, 'a) cpu_scheme \<Rightarrow> uacpi_status \<times> u32 \<times> ('d, 'a) cpu_scheme" where
  "uacpi_kernel_pci_read32 hw handle offset s c =
     (case uacpi_pci_read_helper hw 2 (mem s handle) (mem s (handle + 1)) (mem s (handle + 2)) offset c of
        (v, c1) \<Rightarrow> (UACPI_STATUS_OK, v, c1))"

definition uacpi_kernel_pci_write8 ::
  "'d device \<Rightarrow> u64 \<Rightarrow> u64 \<Rightarrow> u8 \<Rightarrow> 'b heap_scheme \<Rightarrow> ('d, 'a) cpu_scheme \<Rightarrow> uacpi_status \<times> ('d, 'a) cpu_scheme" where
  "uacpi_kernel_pci_write8 hw handle offset value s c =
     (UACPI_STATUS_OK,
      uacpi_pci_write_helper hw 0 (mem s handle) (mem s (handle + 1)) (mem s (handle + 2)) offset (ucast value) c)"

definition uacpi_kernel_pci_write16 ::
  "'d device \<Rightarrow> u64 \<Rightarrow> u64 \<Rightarrow> u16 \<Rightarrow> 'b heap_scheme \<Rightarrow> ('d, 'a) cpu_scheme \<Rightarrow> uacpi_status \<times> ('d, 'a) cpu_scheme" where
  "uacpi_kernel_pci_write16 hw handle offset value s c =
     (UACPI_STATUS_OK,
      uacpi_pci_write_helper hw 1 (mem s handle) (mem s (handle + 1)) (mem s (handle + 2)) offset (ucast value) c)"

definition uacpi_kernel_pci_write32 ::
  "'d device \<Rightarrow> u64 \<Rightarrow> u64 \<Rightarrow> u32 \<Rightarrow> 'b heap_scheme \<Rightarrow> ('d, 'a) cpu_scheme \<Rightarrow> uacpi_status \<times> ('d, 'a) cpu_scheme" where
  "uacpi_kernel_pci_write32 hw handle offset value s c =
     (UACPI_STATUS_OK,
      uacpi_pci_write_helper hw 2 (mem s handle) (mem s (handle + 1)) (mem s (handle + 2)) offset value c)"

section \<open>Port ranges\<close>

text \<open>\<open>io_entry\<close>: the base and, at offset 8, the length.\<close>

definition uacpi_kernel_io_map ::
  "u64 \<Rightarrow> u64 \<Rightarrow> 'b heap_scheme \<Rightarrow> (uacpi_status \<times> u64 option \<times> 'b heap_scheme) option" where
  "uacpi_kernel_io_map base len s = do {
     (p, s1) \<leftarrow> malloc sizeof_io_entry s;
     if p = 0 then Some (UACPI_STATUS_OUT_OF_MEMORY, None, s1)
     else Some (UACPI_STATUS_OK, Some p,
            s1\<lparr>mem := write64 (write64 (mem s1) p base) (p + 8) len\<rparr>) }"

definition uacpi_kernel_io_unmap :: "u64 \<Rightarrow> 'b heap_scheme \<Rightarrow> 'b heap_scheme option" where
  "uacpi_kernel_io_unmap handle s = heap_free handle s"

definition io_port :: "u64 \<Rightarrow> u64 \<Rightarrow> 'b pmm_scheme \<Rightarrow> u16" where
  "io_port handle offset s = ucast (read64 (mem s) handle + offset)"

definition io_len :: "u64 \<Rightarrow> 'b pmm_scheme \<Rightarrow> u64" where
  "io_len handle s = read64 (mem s) (handle + 8)"

definition uacpi_kernel_io_read8 ::
  "'d device \<Rightarrow> u64 \<Rightarrow> u64 \<Rightarrow> 'b heap_scheme \<Rightarrow> ('d, 'a) cpu_scheme \<Rightarrow>
   string + (uacpi_status \<times> u8 \<times> ('d, 'a) cpu_scheme)" where
  "uacpi_kernel_io_read8 hw handle offset s c =
     (if io_len handle s < offset then Inl ''K_IO_OUT_OF_BOUND''
      else Inr (UACPI_STATUS_OK, inb hw (io_port handle offset s) c))"

definition uacpi_kernel_io_read16 ::
  "'d device \<Rightarrow> u64 \<Rightarrow> u64 \<Rightarrow> 'b heap_scheme \<Rightarrow> ('d, 'a) cpu_scheme \<Rightarrow>
   string + (uacpi_status \<times> u16 \<times> ('d, 'a) cpu_scheme)" where
  "uacpi_kernel_io_read16 hw handle offset s c =
     (if io_len handle s < offset then Inl ''K_IO_OUT_OF_BOUND''
      else Inr (UACPI_STATUS_OK, inw hw (io_port handle offset s) c))"

definition uacpi_kernel_io_read32 ::
  "'d device \<Rightarrow> u64 \<Rightarrow> u64 \<Rightarrow> 'b heap_scheme \<Rightarrow> ('d, 'a) cpu_scheme \<Rightarrow>
   string + (uacpi_status \<times> u32 \<times> ('d, 'a) cpu_scheme)" where
  "uacpi_kernel_io_read32 hw handle offset s c =
     (if io_len handle s < offset then Inl ''K_IO_OUT_OF_BOUND''
      else Inr (UACPI_STATUS_OK, inl hw (io_port handle offset s) c))"

definition uacpi_kernel_io_write8 ::
  "'d device \<Rightarrow> u64 \<Rightarrow> u64 \<Rightarrow> u8 \<Rightarrow> 'b heap_scheme \<Rightarrow> ('d, 'a) cpu_scheme \<Rightarrow>
   string + (uacpi_status \<times> ('d, 'a) cpu_scheme)" where
  "uacpi_kernel_io_write8 hw handle offset in_value s c =
     (if io_len handle s < offset then Inl ''K_IO_OUT_OF_BOUND''
      else Inr (UACPI_STATUS_OK, outb hw (io_port handle offset s) in_value c))"

definition uacpi_kernel_io_write16 ::
  "'d device \<Rightarrow> u64 \<Rightarrow> u64 \<Rightarrow> u16 \<Rightarrow> 'b heap_scheme \<Rightarrow> ('d, 'a) cpu_scheme \<Rightarrow>
   string + (uacpi_status \<times> ('d, 'a) cpu_scheme)" where
  "uacpi_kernel_io_write16 hw handle offset in_value s c =
     (if io_len handle s < offset then Inl ''K_IO_OUT_OF_BOUND''
      else Inr (UACPI_STATUS_OK, outw hw (io_port handle offset s) in_value c))"

definition uacpi_kernel_io_write32 ::
  "'d device \<Rightarrow> u64 \<Rightarrow> u64 \<Rightarrow> u32 \<Rightarrow> 'b heap_scheme \<Rightarrow> ('d, 'a) cpu_scheme \<Rightarrow>
   string + (uacpi_status \<times> ('d, 'a) cpu_scheme)" where
  "uacpi_kernel_io_write32 hw handle offset in_value s c =
     (if io_len handle s < offset then Inl ''K_IO_OUT_OF_BOUND''
      else Inr (UACPI_STATUS_OK, outl hw (io_port handle offset s) in_value c))"

section \<open>Memory and time\<close>

definition uacpi_kernel_alloc :: "u64 \<Rightarrow> 'b heap_scheme \<Rightarrow> (u64 \<times> 'b heap_scheme) option" where
  "uacpi_kernel_alloc n s = malloc n s"

definition uacpi_kernel_alloc_zeroed :: "u64 \<Rightarrow> 'b heap_scheme \<Rightarrow> (u64 \<times> 'b heap_scheme) option" where
  "uacpi_kernel_alloc_zeroed n s = calloc 1 n s"

definition uacpi_kernel_free :: "u64 \<Rightarrow> 'b heap_scheme \<Rightarrow> 'b heap_scheme option" where
  "uacpi_kernel_free p s = heap_free p s"

definition uacpi_kernel_get_nanoseconds_since_boot :: "('d, 'a) pit_scheme \<Rightarrow> u64" where
  "uacpi_kernel_get_nanoseconds_since_boot c = ns_elapsed_time c"

definition uacpi_kernel_stall ::
  "(('d, 'a) pit_scheme \<Rightarrow> ('d, 'a) pit_scheme) \<Rightarrow> u8 \<Rightarrow> ('d, 'a) pit_scheme \<Rightarrow> ('d, 'a) pit_scheme option" where
  "uacpi_kernel_stall wake usec c = (if usec = 0 then Some c else sleep_ms wake (ucast usec div 1000) c)"

definition uacpi_kernel_sleep ::
  "(('d, 'a) pit_scheme \<Rightarrow> ('d, 'a) pit_scheme) \<Rightarrow> u64 \<Rightarrow> ('d, 'a) pit_scheme \<Rightarrow> ('d, 'a) pit_scheme option" where
  "uacpi_kernel_sleep wake msec c = sleep_ms wake msec c"

section \<open>Mutexes and events\<close>

text \<open>A new object of one flag, cleared: mutexes, events and spinlocks are created alike.\<close>

definition new_flag :: "u64 \<Rightarrow> 'b heap_scheme \<Rightarrow> (u64 \<times> 'b heap_scheme) option" where
  "new_flag n s = do {
     (p, s1) \<leftarrow> malloc n s;
     Some (if p = 0 then (0, s1) else (p, set_byte p 0 s1)) }"

definition uacpi_kernel_create_mutex :: "'b heap_scheme \<Rightarrow> (u64 \<times> 'b heap_scheme) option" where
  "uacpi_kernel_create_mutex s = new_flag sizeof_mutex s"

definition uacpi_kernel_free_mutex :: "u64 \<Rightarrow> 'b heap_scheme \<Rightarrow> 'b heap_scheme option" where
  "uacpi_kernel_free_mutex handle s = heap_free handle s"

definition uacpi_kernel_create_event :: "'b heap_scheme \<Rightarrow> (u64 \<times> 'b heap_scheme) option" where
  "uacpi_kernel_create_event s = new_flag sizeof_event s"

definition uacpi_kernel_free_event :: "u64 \<Rightarrow> 'b heap_scheme \<Rightarrow> 'b heap_scheme option" where
  "uacpi_kernel_free_event handle s = heap_free handle s"

definition uacpi_kernel_get_thread_id :: u64 where "uacpi_kernel_get_thread_id = 1"

text \<open>Wait until a flag has a value or the time is over; the result says whether it had.\<close>

partial_function (option) wait_flag ::
  "('b heap_scheme \<times> ('d, 'a) pit_scheme \<Rightarrow> 'b heap_scheme \<times> ('d, 'a) pit_scheme) \<Rightarrow> bool \<Rightarrow> u64 \<Rightarrow> u64 \<Rightarrow>
   'b heap_scheme \<times> ('d, 'a) pit_scheme \<Rightarrow> (bool \<times> 'b heap_scheme \<times> ('d, 'a) pit_scheme) option" where
  "wait_flag wake wanted handle target_nsec x =
     (if ns_elapsed_time (snd x) < target_nsec
      then if (mem (fst x) handle \<noteq> 0) = wanted then Some (True, x)
           else wait_flag wake wanted handle target_nsec (wake x)
      else Some (False, x))"

definition wait_target :: "u16 \<Rightarrow> ('d, 'a) pit_scheme \<Rightarrow> u64" where
  "wait_target timeout c = (if timeout = 0xFFFF then - 1 else ns_elapsed_time c + ucast timeout * 1000)"

definition uacpi_kernel_acquire_mutex ::
  "('b heap_scheme \<times> ('d, 'a) pit_scheme \<Rightarrow> 'b heap_scheme \<times> ('d, 'a) pit_scheme) \<Rightarrow> u64 \<Rightarrow> u16 \<Rightarrow>
   'b heap_scheme \<times> ('d, 'a) pit_scheme \<Rightarrow> (uacpi_status \<times> 'b heap_scheme \<times> ('d, 'a) pit_scheme) option" where
  "uacpi_kernel_acquire_mutex wake handle timeout x =
     (if timeout = 0
      then Some (if mem (fst x) handle \<noteq> 0 then UACPI_STATUS_TIMEOUT else UACPI_STATUS_OK, x)
      else do {
        (op_successful, y) \<leftarrow> wait_flag wake False handle (wait_target timeout (snd x)) x;
        Some (if \<not> op_successful then UACPI_STATUS_TIMEOUT else UACPI_STATUS_OK, y) })"

definition uacpi_kernel_release_mutex :: "u64 \<Rightarrow> 'b heap_scheme \<Rightarrow> 'b heap_scheme" where
  "uacpi_kernel_release_mutex handle s = set_byte handle 0 s"

definition uacpi_kernel_wait_for_event ::
  "('b heap_scheme \<times> ('d, 'a) pit_scheme \<Rightarrow> 'b heap_scheme \<times> ('d, 'a) pit_scheme) \<Rightarrow> u64 \<Rightarrow> u16 \<Rightarrow>
   'b heap_scheme \<times> ('d, 'a) pit_scheme \<Rightarrow> (bool \<times> 'b heap_scheme \<times> ('d, 'a) pit_scheme) option" where
  "uacpi_kernel_wait_for_event wake handle timeout x =
     (if timeout = 0 then Some (\<not> mem (fst x) handle \<noteq> 0, x)
      else wait_flag wake True handle (wait_target timeout (snd x)) x)"

definition uacpi_kernel_signal_event :: "u64 \<Rightarrow> 'b heap_scheme \<Rightarrow> 'b heap_scheme" where
  "uacpi_kernel_signal_event handle s = set_byte handle 1 s"

definition uacpi_kernel_reset_event :: "u64 \<Rightarrow> 'b heap_scheme \<Rightarrow> 'b heap_scheme" where
  "uacpi_kernel_reset_event handle s = set_byte handle 0 s"

definition uacpi_kernel_handle_firmware_request :: uacpi_status where
  "uacpi_kernel_handle_firmware_request = UACPI_STATUS_OK"

section \<open>Interrupts, spinlocks and work\<close>

text \<open>\<open>interrupt\<close>: vector, irq and is_irq at offsets 0 to 2, ctx at offset 8.\<close>

definition uacpi_kernel_install_interrupt_handler ::
  "'d device \<Rightarrow> u32 \<Rightarrow> u64 \<Rightarrow> u64 \<Rightarrow> 'b heap_scheme \<Rightarrow> ('d, 'a) idt_scheme \<Rightarrow>
   (uacpi_status \<times> u64 option \<times> 'b heap_scheme \<times> ('d, 'a) idt_scheme) option" where
  "uacpi_kernel_install_interrupt_handler hw irq handler ctx s c = do {
     let vector = ucast (irq + 0x20);
     (p, s1) \<leftarrow> malloc sizeof_interrupt s;
     if p = 0 then Some (UACPI_STATUS_OUT_OF_MEMORY, None, s1, c)
     else Some (UACPI_STATUS_OK, Some p,
            s1\<lparr>mem := write64 ((mem s1)(p := vector, p + 1 := ucast irq, p + 2 := 1)) (p + 8) ctx\<rparr>,
            set_descriptor hw vector handler 0x8E c) }"

definition uacpi_kernel_uninstall_interrupt_handler ::
  "'d device \<Rightarrow> u64 \<Rightarrow> 'b heap_scheme \<Rightarrow> ('d, 'a) idt_scheme \<Rightarrow>
   (uacpi_status \<times> 'b heap_scheme \<times> ('d, 'a) idt_scheme) option" where
  "uacpi_kernel_uninstall_interrupt_handler hw irq_handle s c = do {
     let c1 = clear_descriptor hw (mem s irq_handle) c;
     s1 \<leftarrow> heap_free irq_handle s;
     Some (UACPI_STATUS_OK, s1, c1) }"

definition uacpi_kernel_create_spinlock :: "'b heap_scheme \<Rightarrow> (u64 \<times> 'b heap_scheme) option" where
  "uacpi_kernel_create_spinlock s = new_flag sizeof_spinlock s"

definition uacpi_kernel_free_spinlock :: "u64 \<Rightarrow> 'b heap_scheme \<Rightarrow> 'b heap_scheme option" where
  "uacpi_kernel_free_spinlock handle s = heap_free handle s"

partial_function (option) uacpi_kernel_lock_spinlock ::
  "('b heap_scheme \<Rightarrow> 'b heap_scheme) \<Rightarrow> u64 \<Rightarrow> 'b heap_scheme \<Rightarrow> 'b heap_scheme option" where
  "uacpi_kernel_lock_spinlock wake handle s =
     (if mem s handle \<noteq> 0 then uacpi_kernel_lock_spinlock wake handle (wake s)
      else Some (set_byte handle 1 s))"

definition uacpi_kernel_unlock_spinlock :: "u64 \<Rightarrow> 'b heap_scheme \<Rightarrow> 'b heap_scheme" where
  "uacpi_kernel_unlock_spinlock handle s = set_byte handle 0 s"

text \<open>\<open>work\<close>: signaled at offset 0, the type at offset 4, the handler at offset 8. Nothing runs it.\<close>

definition uacpi_kernel_schedule_work ::
  "u32 \<Rightarrow> u64 \<Rightarrow> 'b heap_scheme \<Rightarrow> (uacpi_status \<times> 'b heap_scheme) option" where
  "uacpi_kernel_schedule_work type handler s = do {
     (p, s1) \<leftarrow> malloc sizeof_work s;
     if p = 0 then Some (UACPI_STATUS_OUT_OF_MEMORY, s1)
     else Some (UACPI_STATUS_OK,
            s1\<lparr>mem := write64 (write_le 4 ((mem s1)(p := 0)) (p + 4) (ucast type)) (p + 8) handler\<rparr>) }"

definition uacpi_kernel_wait_for_work_completion :: uacpi_status where
  "uacpi_kernel_wait_for_work_completion = UACPI_STATUS_OK"

section \<open>Properties\<close>

text \<open>
  What the code relies on of the configuration mechanism: the address port selects a register,
  the data port reads and writes the one selected.
\<close>

definition config_registers :: "'d device \<Rightarrow> ('d \<Rightarrow> u32 \<Rightarrow> u32) \<Rightarrow> ('d \<Rightarrow> u32) \<Rightarrow> bool" where
  "config_registers hw regs selected \<longleftrightarrow>
     (\<forall>d a v. regs (wr32 hw 0xCF8 a d) = regs d \<and> selected (wr32 hw 0xCF8 a d) = a \<and>
        fst (rd32 hw 0xCFC d) = regs d (selected d) \<and> regs (snd (rd32 hw 0xCFC d)) = regs d \<and>
        selected (snd (rd32 hw 0xCFC d)) = selected d \<and>
        regs (wr32 hw 0xCFC v d) = (regs d)(selected d := v))"

lemma pci_read_helper_regs:
  assumes "config_registers hw regs selected"
  shows "fst (uacpi_pci_read_helper hw 0 b d f off c) =
      drop_bit (byte_shift off) (regs (dev c) (config_address b d f off)) AND 0xFF"
    and "regs (dev (snd (uacpi_pci_read_helper hw n b d f off c))) = regs (dev c)"
  using assms by (simp_all add: config_registers_def uacpi_pci_read_helper_def outl_def inl_def Let_def
      split: prod.splits) (metis fst_conv, metis snd_conv)

lemma pci_write_helper_regs:
  assumes "config_registers hw regs selected"
  shows "regs (dev (uacpi_pci_write_helper hw 0 b d f off v c)) =
    (regs (dev c))(config_address b d f off :=
      (regs (dev c) (config_address b d f off) AND NOT (push_bit (byte_shift off) 0xFF)) OR
      push_bit (byte_shift off) (v AND 0xFF))"
proof -
  obtain x d1 where r: "rd32 hw 0xCFC (wr32 hw 0xCF8 (config_address b d f off) (dev c)) = (x, d1)" by fastforce
  have "x = regs (dev c) (config_address b d f off)" "selected d1 = config_address b d f off" "regs d1 = regs (dev c)"
    using assms r unfolding config_registers_def by (metis fst_conv snd_conv)+
  then show ?thesis
    using assms by (simp add: uacpi_pci_write_helper_def outl_def inl_def r Let_def) (simp add: config_registers_def)
qed

text \<open>Replacing one byte of a register.\<close>

lemma byte_mask: "(0xFF :: u32) = mask 8"
  by (simp add: mask_eq_exp_minus_1)

lemma byte_inserted:
  fixes x v :: u32
  assumes "k \<le> 24"
  shows "drop_bit k ((x AND NOT (push_bit k 0xFF)) OR push_bit k (v AND 0xFF)) AND 0xFF = v AND 0xFF"
  unfolding byte_mask using assms by (intro bit_word_eqI) (auto simp: bit_simps)

lemma byte_kept:
  fixes x v :: u32
  assumes "k + 8 \<le> j \<or> j + 8 \<le> k" "j \<le> 24"
  shows "drop_bit j ((x AND NOT (push_bit k 0xFF)) OR push_bit k (v AND 0xFF)) AND 0xFF = drop_bit j x AND 0xFF"
  unfolding byte_mask using assms by (intro bit_word_eqI) (auto simp: bit_simps)

lemma byte_shift_cases: "byte_shift off = 8 * unat (off AND 3)" "unat (off AND 3) < 4"
proof -
  have "off AND 3 = take_bit 2 off" by (simp add: take_bit_eq_mask mask_eq_exp_minus_1)
  then have "off AND 3 = off mod 4" by (simp add: take_bit_eq_mod)
  then show lt: "unat (off AND 3) < 4" by (simp add: unat_mod)
  then show "byte_shift off = 8 * unat (off AND 3)"
    by (simp add: byte_shift_def unat_word_ariths)
qed

lemma config_address_offset: "config_address b d f off AND 0xFC = ucast (off AND 0xFC)"
proof (rule bit_word_eqI)
  have m: "(0xFC :: u32) = push_bit 2 (mask 6)" "(0xFC :: u64) = push_bit 2 (mask 6)" "(0x80000000 :: u32) = push_bit 31 1"
    by (simp_all add: mask_eq_exp_minus_1)
  fix n assume "n < LENGTH(32)"
  show "bit (config_address b d f off AND 0xFC) n = bit (ucast (off AND 0xFC) :: u32) n"
    unfolding config_address_def m(1,3) unfolding m(2)
    by (simp only: bit_and_iff bit_or_iff bit_push_bit_iff bit_1_iff bit_unsigned_iff bit_mask_iff) auto
qed


definition pci_byte :: "'d device \<Rightarrow> u64 \<Rightarrow> u64 \<Rightarrow> 'b heap_scheme \<Rightarrow> ('d, 'a) cpu_scheme \<Rightarrow> u8" where
  "pci_byte hw handle off s c = fst (snd (uacpi_kernel_pci_read8 hw handle off s c))"

lemma pci_byte_regs:
  assumes "config_registers hw regs selected"
  shows "pci_byte hw handle off s c = ucast (drop_bit (byte_shift off)
    (regs (dev c) (config_address (mem s handle) (mem s (handle + 1)) (mem s (handle + 2)) off)) AND 0xFF)"
  unfolding pci_byte_def uacpi_kernel_pci_read8_def pci_read_helper_regs(1) [OF assms, symmetric]
  by (simp add: case_prod_beta)

lemma ucast_offset: "ucast (ucast ((x :: u64) AND 0xFC) :: u32) = x AND 0xFC"
proof (rule bit_word_eqI)
  have m: "(0xFC :: u64) = push_bit 2 (mask 6)" by (simp add: mask_eq_exp_minus_1)
  show "bit (ucast (ucast (x AND 0xFC) :: u32) :: u64) n = bit (x AND 0xFC) n" for n
    unfolding m by (simp only: bit_and_iff bit_push_bit_iff bit_unsigned_iff bit_mask_iff) auto
qed

lemma offset_parts:
  assumes "(x :: u64) AND 0xFC = y AND 0xFC" "x AND 3 = y AND 3"
  shows "x AND 0xFF = y AND 0xFF"
proof -
  have "z AND 0xFF = (z AND 0xFC) OR (z AND 3)" for z :: u64
    unfolding bit.conj_disj_distrib [symmetric] by simp
  then show ?thesis by (simp only: assms)
qed


definition config_hw :: "(u32 \<times> (u32 \<Rightarrow> u32)) device" where
  "config_hw = \<lparr>rd8 = \<lambda>p d. (0, d), wr8 = \<lambda>p v d. d, rd16 = \<lambda>p d. (0, d), wr16 = \<lambda>p v d. d,
     rd32 = \<lambda>p d. (snd d (fst d), d),
     wr32 = \<lambda>p v d. if p = 0xCF8 then (v, snd d) else (fst d, (snd d)(fst d := v))\<rparr>"

lemma config_hw_registers: "config_registers config_hw snd fst"
  by (simp add: config_registers_def config_hw_def)


text \<open>
  C36. A mutex does not exclude: acquiring a free mutex succeeds, with any timeout that has not
  passed, and leaves the memory as it was, in particular the flag \<open>locked\<close>, so that the same
  mutex can be acquired again without being released.
\<close>

theorem mutex_not_exclusive:
  assumes "mem (fst x) handle = 0"
    and "timeout = 0 \<or> ns_elapsed_time (snd x) < wait_target timeout (snd x)"
  shows "uacpi_kernel_acquire_mutex wake handle timeout x = Some (UACPI_STATUS_OK, x) \<and>
    Option.bind (uacpi_kernel_acquire_mutex wake handle timeout x)
      (\<lambda>(status, y). uacpi_kernel_acquire_mutex wake handle timeout y) = Some (UACPI_STATUS_OK, x)"
proof -
  have "uacpi_kernel_acquire_mutex wake handle timeout x = Some (UACPI_STATUS_OK, x)"
    using assms by (cases "timeout = 0")
      (simp_all add: uacpi_kernel_acquire_mutex_def wait_flag.simps [of wake False handle])
  then show ?thesis by simp
qed

definition demo_timer :: "unit pit" where
  "demo_timer = \<lparr>dev = (), idt_entries = [], idt_set_vectors = [], idtr = \<lparr>idtr_limit = 0, idtr_base = 0\<rparr>,
     loaded_idtr = None, ticks = 5, pit_interrupts = [], attached = 0\<rparr>"

theorem mutex_not_exclusive_witness:
  "uacpi_kernel_acquire_mutex id 0x1000 50 (demo_heap\<lparr>mem := \<lambda>_. 0\<rparr>, demo_timer) =
     Some (UACPI_STATUS_OK, demo_heap\<lparr>mem := \<lambda>_. 0\<rparr>, demo_timer)"
  using mutex_not_exclusive [of "(demo_heap\<lparr>mem := \<lambda>_. 0\<rparr>, demo_timer)" "0x1000" 50 id]
  by (simp add: demo_timer_def wait_target_def ns_elapsed_time_def)

text \<open>
  An event that is not signaled and a timeout of zero: the wait reports success, and failure for
  a signaled one.
\<close>

lemma wait_for_event_inverted:
  "uacpi_kernel_wait_for_event wake handle 0 x = Some (mem (fst x) handle = 0, x)"
  by (simp add: uacpi_kernel_wait_for_event_def)

text \<open>A stall never waits: its argument is below 1000 microseconds.\<close>

lemma stall_returns_at_once: "uacpi_kernel_stall wake usec c = Some c"
proof -
  have "unat (ucast usec :: u64) < 256"
    using unsigned_less [of usec, where 'a = nat] by (simp add: unsigned_ucast_eq unsigned_take_bit_eq take_bit_eq_mod)
  then have "(ucast usec :: u64) div 1000 = 0" by (simp add: word_unat_eq_iff unat_div)
  then show ?thesis
    by (simp add: uacpi_kernel_stall_def sleep_ms_def safe_div_def sleep_until.simps)
qed

text \<open>
  The pages mapped for a range are counted from its length alone: a range that starts in the
  middle of a page and reaches into the next one is not covered.
\<close>

lemma map_pages_short:
  "map_pages 2 = 1" "in_region 0x1FFF 2 0x2000" "\<not> in_region (0x1FFF AND NOT 0xFFF) (map_pages 2 * 0x1000) 0x2000"
  by (simp_all add: map_pages_def in_region_def)

text \<open>A handle from \<open>io_map\<close> accepts offsets up to and including the length.\<close>

lemma io_bound_inclusive:
  "uacpi_kernel_io_read8 hw handle (io_len handle s) s c =
     Inr (UACPI_STATUS_OK, inb hw (io_port handle (io_len handle s) s) c)"
  by (simp add: uacpi_kernel_io_read8_def)

end
