(* ===== verification/Pci.thy ===== *)
theory Pci
  imports Kernel_Api
begin

unbundle bit_operations_syntax

text \<open>
  The enumeration of PCI devices, \<open>kernel/src/pci/pci.cpp\<close> with \<open>pci.hpp\<close>. The device
  structures are records indexed by the address \<open>malloc\<close> returned for them and linked by
  \<open>next\<close>; the other variables of the file are in the same record. The operations also take
  the state \<open>s\<close> of the heap and the state \<open>c\<close> of the ports. Searches follow \<open>next\<close>
  and are partial functions. Log output is left out.
\<close>

section \<open>Data\<close>

record pci_device =
  pd_vendor_id :: u16
  pd_device_id :: u16
  pd_command :: u16
  pd_status :: u16
  pd_revision_id :: u8
  pd_prog_if :: u8
  pd_subclass :: u8
  pd_class_code :: u8
  pd_cache_line_size :: u8
  pd_latency_timer :: u8
  pd_header_type :: u8
  pd_bist :: u8
  pd_bars :: "u32 list"
  pd_reserved :: u32
  pd_interrupt_line :: u8
  pd_interrupt_pin :: u8
  pd_min_grant :: u8
  pd_max_latency :: u8
  pd_bus :: u8
  pd_device :: u8
  pd_function :: u8
  pd_next :: u64

record pci_query =
  q_vendor_id :: u16
  q_device_id :: u16
  q_class_code :: u8
  q_subclass_code :: u8
  q_bus :: u8
  q_device :: u8
  q_function :: u8
  q_type :: u32
  q_prog_if :: u8

record pci_state =
  pci_devs :: "u64 \<Rightarrow> pci_device"
  pci_dev_head :: u64
  pci_dev_tail :: u64
  n_detected :: u64

text \<open>\<open>sizeof(pci_device)\<close> with the usual alignment is 64.\<close>

section \<open>Configuration space\<close>

definition pci_address :: "u8 \<Rightarrow> u8 \<Rightarrow> u8 \<Rightarrow> u32 \<Rightarrow> u32" where
  "pci_address bus device function offset =
     0x80000000 OR push_bit 16 (ucast bus) OR push_bit 11 (ucast device) OR push_bit 8 (ucast function) OR
     (offset AND 0xFC)"

definition pci_read_dword ::
  "'d device \<Rightarrow> u8 \<Rightarrow> u8 \<Rightarrow> u8 \<Rightarrow> u32 \<Rightarrow> ('d, 'a) cpu_scheme \<Rightarrow> u32 \<times> ('d, 'a) cpu_scheme" where
  "pci_read_dword hw bus device function offset c =
     inl hw 0xCFC (outl hw 0xCF8 (pci_address bus device function offset) c)"

definition pci_read_word ::
  "'d device \<Rightarrow> u8 \<Rightarrow> u8 \<Rightarrow> u8 \<Rightarrow> u32 \<Rightarrow> ('d, 'a) cpu_scheme \<Rightarrow> u16 \<times> ('d, 'a) cpu_scheme" where
  "pci_read_word hw bus device function offset c =
     (let c1 = outl hw 0xCF8 (pci_address bus device function offset) c
      in case inl hw 0xCFC c1 of (data, c2) \<Rightarrow>
        (ucast (drop_bit (unat ((offset AND 2) * 8)) data AND 0xFFFF), c2))"

definition pci_read_byte ::
  "'d device \<Rightarrow> u8 \<Rightarrow> u8 \<Rightarrow> u8 \<Rightarrow> u32 \<Rightarrow> ('d, 'a) cpu_scheme \<Rightarrow> u8 \<times> ('d, 'a) cpu_scheme" where
  "pci_read_byte hw bus device function offset c =
     (let c1 = outl hw 0xCF8 (pci_address bus device function offset) c
      in case inl hw 0xCFC c1 of (data, c2) \<Rightarrow>
        (ucast (drop_bit (unat ((offset AND 3) * 8)) data AND 0xFF), c2))"

section \<open>Enumeration\<close>

fun read_bars ::
  "'d device \<Rightarrow> u8 \<Rightarrow> u8 \<Rightarrow> u8 \<Rightarrow> u32 list \<Rightarrow> ('d, 'a) cpu_scheme \<Rightarrow> u32 list \<times> ('d, 'a) cpu_scheme" where
  "read_bars hw bus device function [] c = ([], c)"
| "read_bars hw bus device function (i # is) c =
     (case pci_read_dword hw bus device function (0x10 + i * 4) c of (v, c1) \<Rightarrow>
        case read_bars hw bus device function is c1 of (vs, c2) \<Rightarrow> (v # vs, c2))"

definition pci_enumerate_helper ::
  "'d device \<Rightarrow> u8 \<Rightarrow> u8 \<Rightarrow> u8 \<Rightarrow> 'b heap_scheme \<Rightarrow> pci_state \<Rightarrow> ('d, 'a) cpu_scheme \<Rightarrow>
   (u64 \<times> 'b heap_scheme \<times> pci_state \<times> ('d, 'a) cpu_scheme) option" where
  "pci_enumerate_helper hw bus device function s p c = do {
     (d, s1) \<leftarrow> malloc 64 s;
     if d = 0 then Some (0, s1, p, c)
     else
       let (vendor_id, c) = pci_read_word hw bus device function 0x00 c;
           (device_id, c) = pci_read_word hw bus device function 0x02 c;
           (command, c) = pci_read_word hw bus device function 0x04 c;
           (status, c) = pci_read_word hw bus device function 0x06 c;
           (revision_id, c) = pci_read_byte hw bus device function 0x08 c;
           (prog_if, c) = pci_read_byte hw bus device function 0x09 c;
           (subclass, c) = pci_read_byte hw bus device function 0x0A c;
           (class_code, c) = pci_read_byte hw bus device function 0x0B c;
           (cache_line_size, c) = pci_read_byte hw bus device function 0x0C c;
           (latency_timer, c) = pci_read_byte hw bus device function 0x0D c;
           (header_type, c) = pci_read_byte hw bus device function 0x0E c;
           (bist, c) = pci_read_byte hw bus device function 0x0F c;
           (bars, c) = read_bars hw bus device function [0, 1, 2, 3, 4, 5] c;
           (interrupt_line, c) = pci_read_byte hw bus device function 0x3C c;
           (interrupt_pin, c) = pci_read_byte hw bus device function 0x3D c;
           (min_grant, c) = pci_read_byte hw bus device function 0x3E c;
           (max_latency, c) = pci_read_byte hw bus device function 0x3F c
       in Some (d, s1, p\<lparr>pci_devs := (pci_devs p)(d :=
            \<lparr>pd_vendor_id = vendor_id, pd_device_id = device_id, pd_command = command, pd_status = status,
             pd_revision_id = revision_id, pd_prog_if = prog_if, pd_subclass = subclass, pd_class_code = class_code,
             pd_cache_line_size = cache_line_size, pd_latency_timer = latency_timer, pd_header_type = header_type,
             pd_bist = bist, pd_bars = bars, pd_reserved = pd_reserved (pci_devs p d),
             pd_interrupt_line = interrupt_line, pd_interrupt_pin = interrupt_pin, pd_min_grant = min_grant,
             pd_max_latency = max_latency, pd_bus = bus, pd_device = device, pd_function = function,
             pd_next = 0\<rparr>)\<rparr>, c) }"

definition pci_add_device :: "u64 \<Rightarrow> pci_state \<Rightarrow> bool \<times> pci_state" where
  "pci_add_device d p =
     (if d = 0 then (False, p)
      else
        let p1 = (if pci_dev_head p = 0 then p\<lparr>pci_dev_head := d, pci_dev_tail := d\<rparr>
                  else p\<lparr>pci_devs := (pci_devs p)(pci_dev_tail p := (pci_devs p (pci_dev_tail p))\<lparr>pd_next := d\<rparr>),
                         pci_dev_tail := d\<rparr>)
        in if pd_vendor_id (pci_devs p1 d) = 0xFFFF then (False, p1)
           else (True, p1\<lparr>n_detected := n_detected p1 + 1\<rparr>))"

text \<open>The names for log messages.\<close>

definition get_type :: "pci_device \<Rightarrow> string" where
  "get_type d =
     (let class_code = pd_class_code d; subclass = pd_subclass d
      in if class_code = 0x01 then
           if subclass = 0x01 then ''IDE Controller''
           else if subclass = 0x02 then ''Floppy Controller''
           else if subclass = 0x03 then ''SCSI Controller''
           else if subclass = 0x05 then ''ATA Controller''
           else if subclass = 0x06 then ''Serial ATA (AHCI)''
           else if subclass = 0x07 then ''Serial Attached SCSI (SAS)''
           else if subclass = 0x80 then ''Other Mass Storage''
           else ''Unknown Mass Storage''
         else if class_code = 0x02 then
           if subclass = 0x00 then ''Ethernet Controller''
           else if subclass = 0x01 then ''Token Ring Controller''
           else if subclass = 0x02 then ''FDDI Controller''
           else if subclass = 0x03 then ''ATM Controller''
           else if subclass = 0x80 then ''Other Network''
           else ''Unknown Network''
         else if class_code = 0x03 then
           if subclass = 0x00 then ''VGA Compatible Controller''
           else if subclass = 0x01 then ''XGA Controller''
           else if subclass = 0x80 then ''Other Display Controller''
           else ''Unknown Display''
         else if class_code = 0x06 then
           if subclass = 0x00 then ''Host Bridge''
           else if subclass = 0x01 then ''ISA Bridge''
           else if subclass = 0x04 then ''PCI-to-PCI Bridge''
           else ''Unknown Bridge''
         else if class_code = 0x0C then
           if subclass = 0x03 then ''USB Controller'' else ''Other Serial Bus Controller''
         else ''Unknown PCI Device'')"

text \<open>The body of the innermost loop, for the slots in their order.\<close>

type_synonym slot = "u8 \<times> u8 \<times> u8"

fun pci_scan ::
  "'d device \<Rightarrow> slot list \<Rightarrow> 'b heap_scheme \<Rightarrow> pci_state \<Rightarrow> ('d, 'a) cpu_scheme \<Rightarrow>
   ('b heap_scheme \<times> pci_state \<times> ('d, 'a) cpu_scheme) option" where
  "pci_scan hw [] s p c = Some (s, p, c)"
| "pci_scan hw ((bus, device, function) # slots) s p c = do {
     (d, s1, p1, c1) \<leftarrow> pci_enumerate_helper hw bus device function s p c;
     let (found, p2) = pci_add_device d p1;
     pci_scan hw slots s1 p2 c1 }"

definition all_slots :: "slot list" where
  "all_slots = concat (map (\<lambda>bus. concat (map (\<lambda>device. map (\<lambda>function. (of_nat bus, of_nat device, of_nat function))
     [0..<8]) [0..<32])) [0..<8])"

definition pci_initialise ::
  "'d device \<Rightarrow> 'b heap_scheme \<Rightarrow> pci_state \<Rightarrow> ('d, 'a) cpu_scheme \<Rightarrow>
   (u64 \<times> 'b heap_scheme \<times> pci_state \<times> ('d, 'a) cpu_scheme) option" where
  "pci_initialise hw s p c = do {
     (s1, p1, c1) \<leftarrow> pci_scan hw all_slots s p c;
     Some (n_detected p1, s1, p1, c1) }"

section \<open>Lookups\<close>

text \<open>The loop of every lookup: the first element that matches, 0 at the end of the list.\<close>

partial_function (option) find_dev :: "(u64 \<Rightarrow> u64) \<Rightarrow> (u64 \<Rightarrow> bool) \<Rightarrow> u64 \<Rightarrow> u64 option" where
  "find_dev lnk matches a =
     (if a = 0 then Some 0 else if matches a then Some a else find_dev lnk matches (lnk a))"

definition pci_find :: "(pci_device \<Rightarrow> bool) \<Rightarrow> pci_state \<Rightarrow> u64 option" where
  "pci_find matches p =
     find_dev (\<lambda>a. pd_next (pci_devs p a)) (\<lambda>a. matches (pci_devs p a)) (pci_dev_head p)"

definition query_match :: "pci_query \<Rightarrow> pci_device \<Rightarrow> bool" where
  "query_match query d =
     (let m = True;
          m = (if q_type query AND 1 \<noteq> 0 then
                 if pd_vendor_id d \<noteq> q_vendor_id query \<or> pd_device_id d \<noteq> q_device_id query then False else m
               else m);
          m = (if q_type query AND 2 \<noteq> 0 then
                 let m = (if pd_class_code d \<noteq> q_class_code query \<or> pd_subclass d \<noteq> q_subclass_code query then False
                          else m)
                 in if q_type query AND 0x4000 \<noteq> 0 \<and> m then if pd_prog_if d \<noteq> q_prog_if query then False else m else m
               else m)
      in if q_type query AND 4 \<noteq> 0 then
           if pd_bus d \<noteq> q_bus query \<or> pd_device d \<noteq> q_device query \<or> pd_function d \<noteq> q_function query then False else m
         else m)"

definition get_device :: "pci_query \<Rightarrow> pci_state \<Rightarrow> u64 option" where
  "get_device query p = pci_find (query_match query) p"

definition get_device_bdf :: "u8 \<Rightarrow> u8 \<Rightarrow> u8 \<Rightarrow> pci_state \<Rightarrow> u64 option" where
  "get_device_bdf bus device function p =
     pci_find (\<lambda>d. pd_bus d = bus \<and> pd_device d = device \<and> pd_function d = function) p"

definition get_device_class_code :: "u8 \<Rightarrow> u8 \<Rightarrow> bool \<Rightarrow> u8 \<Rightarrow> pci_state \<Rightarrow> u64 option" where
  "get_device_class_code class_code subclass check_progif prog_if p =
     pci_find (\<lambda>d.
       let m = True;
           m = (if pd_class_code d \<noteq> class_code then False else m);
           m = (if pd_subclass d \<noteq> subclass then False else m)
       in if check_progif \<and> pd_prog_if d \<noteq> prog_if then False else m) p"

definition get_device_vendor_id :: "u16 \<Rightarrow> u16 \<Rightarrow> pci_state \<Rightarrow> u64 option" where
  "get_device_vendor_id vendor_id device_id p =
     pci_find (\<lambda>d. pd_vendor_id d = vendor_id \<and> pd_device_id d = device_id) p"

section \<open>The lookups agree\<close>

text \<open>
  C32. The three specialised lookups are the general one: by address, by vendor and by class, with
  or without the programming interface, each returns on every list of devices what
  \<open>get_device\<close> returns for the query with the flag of that lookup, whatever the fields of the
  query hold that the flag does not select.
\<close>

theorem lookups_agree:
  "get_device_bdf b d f p = get_device (q\<lparr>q_type := 4, q_bus := b, q_device := d, q_function := f\<rparr>) p \<and>
   get_device_vendor_id v i p = get_device (q\<lparr>q_type := 1, q_vendor_id := v, q_device_id := i\<rparr>) p \<and>
   get_device_class_code cc sc chk pif p =
     get_device (q\<lparr>q_type := if chk then 0x4002 else 2, q_class_code := cc, q_subclass_code := sc,
       q_prog_if := pif\<rparr>) p"
proof -
  have "query_match (q\<lparr>q_type := 4, q_bus := b, q_device := d, q_function := f\<rparr>) =
      (\<lambda>x. pd_bus x = b \<and> pd_device x = d \<and> pd_function x = f)"
    "query_match (q\<lparr>q_type := 1, q_vendor_id := v, q_device_id := i\<rparr>) =
      (\<lambda>x. pd_vendor_id x = v \<and> pd_device_id x = i)"
    by (auto simp: query_match_def fun_eq_iff)
  moreover have "query_match (q\<lparr>q_type := if chk then 0x4002 else 2, q_class_code := cc, q_subclass_code := sc,
       q_prog_if := pif\<rparr>) = (\<lambda>x. pd_class_code x = cc \<and> pd_subclass x = sc \<and> (chk \<longrightarrow> pd_prog_if x = pif))"
    by (auto simp: query_match_def fun_eq_iff Let_def)
  moreover have "get_device_class_code cc sc chk pif p =
      pci_find (\<lambda>x. pd_class_code x = cc \<and> pd_subclass x = sc \<and> (chk \<longrightarrow> pd_prog_if x = pif)) p"
    unfolding get_device_class_code_def by (rule arg_cong [where f = "\<lambda>m. pci_find m p"]) (auto simp: fun_eq_iff Let_def)
  ultimately show ?thesis
    by (simp add: get_device_def get_device_bdf_def get_device_vendor_id_def)
qed

section \<open>Lists of devices\<close>

text \<open>The elements of a list from a pointer to the null pointer.\<close>

fun linked :: "(u64 \<Rightarrow> u64) \<Rightarrow> u64 \<Rightarrow> u64 list \<Rightarrow> bool" where
  "linked lnk a [] \<longleftrightarrow> a = 0"
| "linked lnk a (x # xs) \<longleftrightarrow> a = x \<and> x \<noteq> 0 \<and> linked lnk (lnk x) xs"

lemma find_dev_linked:
  "linked lnk a xs \<Longrightarrow> find_dev lnk matches a = Some (case find matches xs of None \<Rightarrow> 0 | Some x \<Rightarrow> x)"
proof (induction xs arbitrary: a)
  case Nil
  then show ?case by (simp add: find_dev.simps)
next
  case (Cons x xs)
  then show ?case by (subst find_dev.simps) simp
qed

lemma linked_cong: "(\<And>x. x \<in> set xs \<Longrightarrow> lnk x = lnk' x) \<Longrightarrow> linked lnk a xs = linked lnk' a xs"
  by (induction xs arbitrary: a) auto

lemma linked_snoc:
  assumes "linked lnk a xs" "xs \<noteq> []" "distinct xs" "d \<notin> set xs" "d \<noteq> 0" "lnk d = 0"
  shows "linked (lnk(last xs := d)) a (xs @ [d])"
  using assms
proof (induction xs arbitrary: a)
  case (Cons x xs)
  show ?case
  proof (cases "xs = []")
    case False
    then have "last xs \<in> set xs" by simp
    then show ?thesis using Cons False by auto
  qed (use Cons.prems in auto)
qed simp

section \<open>What the enumeration finds\<close>

text \<open>The device a slot describes, by the registers of its configuration space.\<close>

definition reg_word :: "(u32 \<Rightarrow> u32) \<Rightarrow> u8 \<Rightarrow> u8 \<Rightarrow> u8 \<Rightarrow> u32 \<Rightarrow> u16" where
  "reg_word r b d f off = ucast (drop_bit (unat ((off AND 2) * 8)) (r (pci_address b d f off)) AND 0xFFFF)"

definition reg_byte :: "(u32 \<Rightarrow> u32) \<Rightarrow> u8 \<Rightarrow> u8 \<Rightarrow> u8 \<Rightarrow> u32 \<Rightarrow> u8" where
  "reg_byte r b d f off = ucast (drop_bit (unat ((off AND 3) * 8)) (r (pci_address b d f off)) AND 0xFF)"

definition config_dev :: "(u32 \<Rightarrow> u32) \<Rightarrow> u8 \<Rightarrow> u8 \<Rightarrow> u8 \<Rightarrow> u32 \<Rightarrow> u64 \<Rightarrow> pci_device" where
  "config_dev r b d f rs nx =
     (let w = reg_word r b d f; y = reg_byte r b d f
      in \<lparr>pd_vendor_id = w 0, pd_device_id = w 2, pd_command = w 4, pd_status = w 6,
         pd_revision_id = y 8, pd_prog_if = y 9, pd_subclass = y 0xA, pd_class_code = y 0xB,
         pd_cache_line_size = y 0xC, pd_latency_timer = y 0xD, pd_header_type = y 0xE, pd_bist = y 0xF,
         pd_bars = map (\<lambda>i. r (pci_address b d f (0x10 + i * 4))) [0, 1, 2, 3, 4, 5], pd_reserved = rs,
         pd_interrupt_line = y 0x3C, pd_interrupt_pin = y 0x3D, pd_min_grant = y 0x3E, pd_max_latency = y 0x3F,
         pd_bus = b, pd_device = d, pd_function = f, pd_next = nx\<rparr>)"

definition slot_of :: "pci_device \<Rightarrow> slot" where
  "slot_of d = (pd_bus d, pd_device d, pd_function d)"

definition describes :: "(u32 \<Rightarrow> u32) \<Rightarrow> pci_device \<Rightarrow> bool" where
  "describes r d \<longleftrightarrow> d = config_dev r (pd_bus d) (pd_device d) (pd_function d) (pd_reserved d) (pd_next d)"

lemma config_dev_fields [simp]:
  "pd_bus (config_dev r b d f rs nx) = b" "pd_device (config_dev r b d f rs nx) = d"
  "pd_function (config_dev r b d f rs nx) = f" "pd_next (config_dev r b d f rs nx) = nx"
  "pd_reserved (config_dev r b d f rs nx) = rs" "pd_vendor_id (config_dev r b d f rs nx) = reg_word r b d f 0"
  "(config_dev r b d f rs nx)\<lparr>pd_next := x\<rparr> = config_dev r b d f rs x"
  by (simp_all add: config_dev_def Let_def)

lemma describes_next: "describes r d \<Longrightarrow> describes r (d\<lparr>pd_next := x\<rparr>)"
  unfolding describes_def by (metis config_dev_fields)

lemma slot_of_next [simp]: "slot_of (d\<lparr>pd_next := x\<rparr>) = slot_of d"
  by (simp add: slot_of_def)


lemma pci_reads:
  assumes "config_registers hw regs selected"
  shows "fst (pci_read_dword hw b d f off c) = regs (dev c) (pci_address b d f off)"
    and "regs (dev (snd (pci_read_dword hw b d f off c))) = regs (dev c)"
    and "fst (pci_read_word hw b d f off c) = reg_word (regs (dev c)) b d f off"
    and "regs (dev (snd (pci_read_word hw b d f off c))) = regs (dev c)"
    and "fst (pci_read_byte hw b d f off c) = reg_byte (regs (dev c)) b d f off"
    and "regs (dev (snd (pci_read_byte hw b d f off c))) = regs (dev c)"
proof -
  obtain x d1 where r: "rd32 hw 0xCFC (wr32 hw 0xCF8 (pci_address b d f off) (dev c)) = (x, d1)" by fastforce
  have "x = regs (dev c) (pci_address b d f off)" "regs d1 = regs (dev c)"
    using assms r unfolding config_registers_def by (metis fst_conv snd_conv)+
  then show "fst (pci_read_dword hw b d f off c) = regs (dev c) (pci_address b d f off)"
    "regs (dev (snd (pci_read_dword hw b d f off c))) = regs (dev c)"
    "fst (pci_read_word hw b d f off c) = reg_word (regs (dev c)) b d f off"
    "regs (dev (snd (pci_read_word hw b d f off c))) = regs (dev c)"
    "fst (pci_read_byte hw b d f off c) = reg_byte (regs (dev c)) b d f off"
    "regs (dev (snd (pci_read_byte hw b d f off c))) = regs (dev c)"
    by (simp_all add: pci_read_dword_def pci_read_word_def pci_read_byte_def reg_word_def reg_byte_def
        outl_def inl_def r Let_def)
qed

lemma read_bars_regs:
  assumes "config_registers hw regs selected"
  shows "fst (read_bars hw b d f is c) = map (\<lambda>i. regs (dev c) (pci_address b d f (0x10 + i * 4))) is \<and>
    regs (dev (snd (read_bars hw b d f is c))) = regs (dev c)"
  by (induction "is" arbitrary: c) (simp_all add: split_beta pci_reads [OF assms])

lemma enumerate_helper_spec:
  assumes "config_registers hw regs selected" and "malloc 64 s = Some (a, s1)" and "a \<noteq> 0"
  obtains c1 rs where "pci_enumerate_helper hw b d f s p c =
      Some (a, s1, p\<lparr>pci_devs := (pci_devs p)(a := config_dev (regs (dev c)) b d f rs 0)\<rparr>, c1)"
    "regs (dev c1) = regs (dev c)"
  using assms(2,3) unfolding pci_enumerate_helper_def
  by (simp add: split_beta Let_def pci_reads [OF assms(1)] read_bars_regs [OF assms(1)] config_dev_def
      del: read_bars.simps)

text \<open>The list, its last element, its blocks on the heap, and the count of the devices present.\<close>

definition present :: "pci_device \<Rightarrow> bool" where
  "present d \<longleftrightarrow> pd_vendor_id d \<noteq> 0xFFFF"

definition pci_ok :: "(u32 \<Rightarrow> u32) \<Rightarrow> blk list \<Rightarrow> pci_state \<Rightarrow> u64 list \<Rightarrow> bool" where
  "pci_ok r bs p xs \<longleftrightarrow>
     linked (\<lambda>a. pd_next (pci_devs p a)) (pci_dev_head p) xs \<and> distinct xs \<and>
     (xs \<noteq> [] \<longrightarrow> pci_dev_tail p = last xs) \<and> (\<forall>a \<in> set xs. a - block_size \<in> fst ` live bs) \<and>
     (\<forall>a \<in> set xs. describes r (pci_devs p a)) \<and>
     n_detected p = of_nat (length (filter present (map (pci_devs p) xs)))"

lemma add_device_first:
  assumes ok: "pci_ok r bs p []" and "a \<noteq> 0" "fresh_block n a bs bs'" and d: "describes r d" "pd_next d = 0"
  shows "pci_ok r bs' (snd (pci_add_device a (p\<lparr>pci_devs := (pci_devs p)(a := d)\<rparr>))) [a]"
proof -
  have h: "pci_dev_head p = 0" "n_detected p = 0" using ok by (simp_all add: pci_ok_def)
  have "a - block_size \<in> fst ` live bs'" using assms(3) by (auto simp: fresh_block_def)
  then show ?thesis
    using assms(2) d by (simp add: pci_ok_def pci_add_device_def h present_def Let_def)
qed

lemma add_device_next:
  assumes ok: "pci_ok r bs p xs" and ne: "xs \<noteq> []" and a: "a \<noteq> 0" "fresh_block n a bs bs'"
    and d: "describes r d" "pd_next d = 0"
    and p'_def: "p' = snd (pci_add_device a (p\<lparr>pci_devs := (pci_devs p)(a := d)\<rparr>))"
  shows "pci_ok r bs' p' (xs @ [a]) \<and> map (slot_of \<circ> pci_devs p') (xs @ [a]) = map (slot_of \<circ> pci_devs p) xs @ [slot_of d]"
proof -
  let ?l = "last xs"
  have o: "linked (\<lambda>x. pd_next (pci_devs p x)) (pci_dev_head p) xs" "distinct xs" "pci_dev_tail p = ?l"
    "\<forall>x \<in> set xs. x - block_size \<in> fst ` live bs" "\<forall>x \<in> set xs. describes r (pci_devs p x)"
    "n_detected p = of_nat (length (filter present (map (pci_devs p) xs)))"
    using ok ne by (simp_all add: pci_ok_def)
  have head: "pci_dev_head p \<noteq> 0" using o(1) ne by (cases xs) auto
  have l: "?l \<in> set xs" using ne by simp
  obtain a0 k where "a = a0 + block_size" "a0 \<notin> fst ` live bs" "live bs' = insert (a0, k) (live bs)"
    using a(2) unfolding fresh_block_def by blast
  then have "a - block_size \<notin> fst ` live bs" and live: "a - block_size \<in> fst ` live bs'" "fst ` live bs \<subseteq> fst ` live bs'"
    by simp_all blast
  then have fresh: "a \<notin> set xs" using o(4) by blast
  define g where "g = (pci_devs p)(a := d, ?l := (pci_devs p ?l)\<lparr>pd_next := a\<rparr>)"
  have la: "?l \<noteq> a" using l fresh by blast
  have p': "pci_devs p' = g" "pci_dev_head p' = pci_dev_head p" "pci_dev_tail p' = a"
    "n_detected p' = n_detected p + (if present d then 1 else 0)"
    unfolding p'_def pci_add_device_def Let_def using a(1) head la
    by (simp_all add: o(3) g_def present_def)
  have old: "slot_of (g x) = slot_of (pci_devs p x)" "present (g x) = present (pci_devs p x)"
    "describes r (g x)" if "x \<in> set xs" for x
    using that fresh la o(5) by (auto simp: g_def present_def describes_next)
  have new: "g a = d" using la by (simp add: g_def)
  let ?k = "\<lambda>x. pd_next (((pci_devs p)(a := d)) x)"
  have "linked ?k (pci_dev_head p) xs"
    using o(1) by (rule linked_cong [THEN iffD1, rotated]) (use fresh in auto)
  from linked_snoc [OF this ne o(2) fresh a(1)] d(2)
  have "linked (?k(?l := a)) (pci_dev_head p) (xs @ [a])" by simp
  moreover have "?k(?l := a) = (\<lambda>x. pd_next (g x))" using la by (auto simp: g_def fun_eq_iff)
  ultimately have "linked (\<lambda>x. pd_next (g x)) (pci_dev_head p) (xs @ [a])" by simp
  moreover have "length (filter present (map g xs)) = length (filter present (map (pci_devs p) xs))"
    using old(2) by (simp add: filter_map o_def cong: filter_cong)
  ultimately have "pci_ok r bs' p' (xs @ [a])"
    unfolding pci_ok_def p' using o fresh live old(3) d(1) by (auto simp: new)
  then show ?thesis using old(1) by (simp add: p' new)
qed

lemma linked_nonzero: "linked lnk a xs \<Longrightarrow> x \<in> set xs \<Longrightarrow> x \<noteq> 0"
  by (induction xs arbitrary: a) auto

lemma pci_scan_spec:
  assumes law: "config_registers hw regs selected"
  shows "heap_inv s bs \<Longrightarrow> has_room 64 (length slots) bs \<Longrightarrow> pci_ok (regs (dev c)) bs p xs \<Longrightarrow>
    \<exists>s' p' c' bs' ys. pci_scan hw slots s p c = Some (s', p', c') \<and> heap_inv s' bs' \<and>
      pci_ok (regs (dev c)) bs' p' ys \<and> regs (dev c') = regs (dev c) \<and>
      map (slot_of \<circ> pci_devs p') ys = map (slot_of \<circ> pci_devs p) xs @ slots"
proof (induction slots arbitrary: s p c bs xs)
  case Nil
  then show ?case by auto
next
  case (Cons sl slots)
  obtain b d f where sl: "sl = (b, d, f)" by (metis prod_cases3)
  obtain a m1 bs1 where m: "malloc 64 s = Some (a, s\<lparr>mem := m1\<rparr>)" "a \<noteq> 0" "heap_inv (s\<lparr>mem := m1\<rparr>) bs1"
    "has_room 64 (length slots) bs1" "fresh_block 64 a bs bs1"
    using malloc_room [OF Cons.prems(1), of 64 "length slots"] Cons.prems(2) by auto
  obtain c1 rs where h: "pci_enumerate_helper hw b d f s p c =
      Some (a, s\<lparr>mem := m1\<rparr>, p\<lparr>pci_devs := (pci_devs p)(a := config_dev (regs (dev c)) b d f rs 0)\<rparr>, c1)"
    "regs (dev c1) = regs (dev c)"
    by (rule enumerate_helper_spec [OF law m(1,2)])
  let ?d = "config_dev (regs (dev c)) b d f rs 0"
  define p2 where "p2 = snd (pci_add_device a (p\<lparr>pci_devs := (pci_devs p)(a := ?d)\<rparr>))"
  have ds: "describes (regs (dev c)) ?d" "pd_next ?d = 0" "slot_of ?d = sl"
    by (simp_all add: describes_def slot_of_def sl)
  have ok2: "pci_ok (regs (dev c1)) bs1 p2 (xs @ [a])"
    "map (slot_of \<circ> pci_devs p2) (xs @ [a]) = map (slot_of \<circ> pci_devs p) xs @ [sl]"
  proof -
    have "pci_ok (regs (dev c)) bs1 p2 (xs @ [a]) \<and>
      map (slot_of \<circ> pci_devs p2) (xs @ [a]) = map (slot_of \<circ> pci_devs p) xs @ [sl]"
    proof (cases "xs = []")
      case True
      have "pci_devs p2 a = ?d"
        using Cons.prems(3) m(2) by (simp add: p2_def pci_add_device_def Let_def pci_ok_def True)
      then show ?thesis
        using add_device_first [OF Cons.prems(3) [unfolded True] m(2,5) ds(1,2)] ds(3) by (simp add: True p2_def)
    next
      case False
      then show ?thesis using add_device_next [OF Cons.prems(3) False m(2,5) ds(1,2) p2_def] ds(3) by simp
    qed
    then show "pci_ok (regs (dev c1)) bs1 p2 (xs @ [a])"
      "map (slot_of \<circ> pci_devs p2) (xs @ [a]) = map (slot_of \<circ> pci_devs p) xs @ [sl]" by (simp_all add: h(2))
  qed
  have "pci_scan hw (sl # slots) s p c = pci_scan hw slots (s\<lparr>mem := m1\<rparr>) p2 c1"
    by (simp add: sl h(1) split_beta p2_def)
  then show ?case using Cons.IH [OF m(3,4) ok2(1)] unfolding h(2) ok2(2) by (simp add: o_def)
qed

lemma length_all_slots: "length all_slots = 2048"
  by (simp add: all_slots_def length_concat o_def sum_list_triv)

lemma slot_listed: "b < 8 \<Longrightarrow> d < 32 \<Longrightarrow> f < 8 \<Longrightarrow> (of_nat b, of_nat d, of_nat f) \<in> set all_slots"
  by (simp add: all_slots_def del: upt_rec_numeral) (metis atLeastLessThan_iff imageI le0)

lemma count_slots:
  assumes "\<forall>a \<in> set xs. describes r (g a)" "map (slot_of \<circ> g) xs = slots"
  shows "length (filter present (map g xs)) = length (filter (\<lambda>(b, d, f). reg_word r b d f 0 \<noteq> 0xFFFF) slots)"
proof -
  have "present (g a) = (case slot_of (g a) of (b, d, f) \<Rightarrow> reg_word r b d f 0 \<noteq> 0xFFFF)" if "a \<in> set xs" for a
    using assms(1) that unfolding describes_def slot_of_def present_def by (metis (mono_tags, lifting) config_dev_fields(6) case_prod_conv)
  then show ?thesis
    unfolding assms(2) [symmetric] by (simp add: filter_map o_def cong: filter_cong)
qed

lemma empty_ok: "pci_dev_head p = 0 \<Longrightarrow> n_detected p = 0 \<Longrightarrow> pci_ok r bs p []"
  by (simp add: pci_ok_def)

lemma pci_initialise_spec:
  assumes "config_registers hw regs selected" and "heap_inv s bs" and "has_room 64 2048 bs"
    and "pci_dev_head p = 0" and "n_detected p = 0"
  obtains s' p' c' bs' xs where "pci_initialise hw s p c = Some (n_detected p', s', p', c')" "heap_inv s' bs'"
    "pci_ok (regs (dev c)) bs' p' xs" "map (slot_of \<circ> pci_devs p') xs = all_slots"
  using pci_scan_spec [OF assms(1,2), of all_slots c p "[]"] assms(3) empty_ok [OF assms(4,5)]
  by (auto simp: pci_initialise_def length_all_slots)


text \<open>A heap of one megabyte, an empty list, and a machine in which no device answers.\<close>

definition demo_room :: heap where
  "demo_room = demo_heap_off\<lparr>heap_base := 0x200000, heap_size := 0x100000,
     mem := demo_header 0x200000 0xFFFD8 True 0 0 (\<lambda>_. 0)\<rparr>"

definition demo_pci :: pci_state where
  "demo_pci = \<lparr>pci_devs = \<lambda>_. config_dev (\<lambda>_. 0) 0 0 0 0 0, pci_dev_head = 0, pci_dev_tail = 0, n_detected = 0\<rparr>"

definition no_devices :: "(u32 \<times> (u32 \<Rightarrow> u32)) cpu" where
  "no_devices = \<lparr>dev = (0, \<lambda>_. - 1)\<rparr>"

lemma demo_room_inv: "heap_inv demo_room [(0x200000, 0xFFFD8, True)]"
  by (simp add: demo_room_def heap_inv_def demo_header_def block_size_def [symmetric])

lemma demo_room_room: "has_room 64 2048 [(0x200000, 0xFFFD8, True)]"
  by (simp add: has_room_def)

lemma demo_pci_empty: "pci_dev_head demo_pci = 0" "n_detected demo_pci = 0"
  by (simp_all add: demo_pci_def)


text \<open>
  C37. A slot without a device is found as well: after the enumeration, \<open>get_device_bdf\<close> returns
  for each of the 2048 addresses a structure with that address, also when nothing answers there
  and every register reads as ones, so a caller cannot take a pointer for a device.
\<close>

theorem absent_device_found:
  assumes "config_registers hw regs selected" and "heap_inv s bs" and "has_room 64 2048 bs"
    and "pci_dev_head p = 0" and "n_detected p = 0"
    and "(b, d, f) \<in> set all_slots" and "regs (dev c) (pci_address b d f 0) = - 1"
  shows "\<exists>n s' p' c' a. pci_initialise hw s p c = Some (n, s', p', c') \<and> get_device_bdf b d f p' = Some a \<and>
    a \<noteq> 0 \<and> slot_of (pci_devs p' a) = (b, d, f) \<and> pd_vendor_id (pci_devs p' a) = 0xFFFF"
proof -
  obtain s' p' c' bs' xs where i: "pci_initialise hw s p c = Some (n_detected p', s', p', c')"
    and ok: "pci_ok (regs (dev c)) bs' p' xs" and sl: "map (slot_of \<circ> pci_devs p') xs = all_slots"
    by (rule pci_initialise_spec [OF assms(1-5)])
  let ?m = "\<lambda>a. pd_bus (pci_devs p' a) = b \<and> pd_device (pci_devs p' a) = d \<and> pd_function (pci_devs p' a) = f"
  have l: "linked (\<lambda>a. pd_next (pci_devs p' a)) (pci_dev_head p') xs"
    and ds: "\<forall>a \<in> set xs. describes (regs (dev c)) (pci_devs p' a)" using ok by (simp_all add: pci_ok_def)
  have "(b, d, f) \<in> set (map (slot_of \<circ> pci_devs p') xs)" using assms(6) sl by simp
  then obtain x where "x \<in> set xs" "?m x" by (auto simp: slot_of_def)
  then obtain a where a: "find ?m xs = Some a" by (cases "find ?m xs") (auto simp: find_None_iff)
  then have "?m a" "a \<in> set xs" by (auto simp: find_Some_iff)
  moreover have "a \<noteq> 0" using l \<open>a \<in> set xs\<close> linked_nonzero by blast
  moreover have "get_device_bdf b d f p' = Some a"
    using find_dev_linked [OF l, of ?m] a by (simp add: get_device_bdf_def pci_find_def)
  moreover have "pd_vendor_id (pci_devs p' a) = reg_word (regs (dev c)) b d f 0"
    using ds \<open>a \<in> set xs\<close> \<open>?m a\<close> unfolding describes_def by (metis config_dev_fields(6))
  moreover have "reg_word (regs (dev c)) b d f 0 = 0xFFFF" by (simp add: reg_word_def assms(7))
  ultimately show ?thesis using i by (auto simp: slot_of_def)
qed

theorem absent_device_found_witness:
  "\<exists>n s' p' c' a. pci_initialise config_hw demo_room demo_pci no_devices = Some (n, s', p', c') \<and>
     get_device_bdf 0 31 7 p' = Some a \<and> a \<noteq> 0"
proof -
  have "(0, 31, 7) \<in> set all_slots" using slot_listed [of 0 31 7] by simp
  moreover have "snd (dev no_devices) (pci_address 0 31 7 0) = - 1" by (simp add: no_devices_def)
  ultimately show ?thesis
    using absent_device_found [OF config_hw_registers demo_room_inv demo_room_room demo_pci_empty, of 0 31 7 no_devices]
    by blast
qed

end
