(* ===== verification/Pcie.thy ===== *)
theory Pcie
  imports Pci
begin

unbundle bit_operations_syntax

text \<open>
  The enumeration of PCI Express devices, \<open>kernel/src/pcie/pcie.cpp\<close> with \<open>pcie.hpp\<close>. The
  MCFG table and the configuration windows are read from memory as the code reads them; the
  device structures are records indexed by the address \<open>malloc\<close> returned for them, with the
  fields this file sets. The search for the table in the ACPI interpreter is an argument of
  \<open>initialise\<close>: the address of the table, or an error. Log output is left out.
\<close>

section \<open>Data\<close>

record mcfg_allocation =
  al_base_address :: u64
  al_segment_group :: u16
  al_start_bus :: u8
  al_end_bus :: u8

record pcie_device =
  pe_vendor_id :: u16
  pe_device_id :: u16
  pe_revision_id :: u8
  pe_prog_if :: u8
  pe_subclass :: u8
  pe_class_code :: u8
  pe_header_type :: u8
  pe_bars :: "u32 list"
  pe_bus :: u8
  pe_device :: u8
  pe_function :: u8
  pe_segment :: u16
  pe_config_space :: u64
  pe_next :: u64

record pcie_state =
  mcfg :: u64
  num_allocations :: u32
  total_devices :: u32
  first_device :: u64
  num_devs :: u64
  pcie_devs :: "u64 \<Rightarrow> pcie_device"

text \<open>
  \<open>mcfg->allocations[i]\<close>: the packed table has a header of 36 bytes and 8 reserved ones
  before the array, whose elements have 16 bytes.
\<close>

definition allocation :: "memory \<Rightarrow> u64 \<Rightarrow> nat \<Rightarrow> mcfg_allocation" where
  "allocation m t i =
     (let a = t + 44 + 16 * of_nat i
      in \<lparr>al_base_address = read64 m a, al_segment_group = read16 m (a + 8),
          al_start_bus = m (a + 10), al_end_bus = m (a + 11)\<rparr>)"

section \<open>Operations\<close>

definition install_pcie_device :: "u64 \<Rightarrow> pcie_state \<Rightarrow> pcie_state" where
  "install_pcie_device d p =
     p\<lparr>pcie_devs := (pcie_devs p)(d := (pcie_devs p d)\<lparr>pe_next := first_device p\<rparr>), first_device := d,
       num_devs := num_devs p + 1, total_devices := total_devices p + 1\<rparr>"

definition config_offset :: "u8 \<Rightarrow> u8 \<Rightarrow> u8 \<Rightarrow> u8 \<Rightarrow> u64" where
  "config_offset start_bus bus device function =
     push_bit 20 (word_of_int (uint bus - uint start_bus)) OR push_bit 15 (ucast device) OR push_bit 12 (ucast function)"

definition get_config_space :: "memory \<Rightarrow> pcie_state \<Rightarrow> u16 \<Rightarrow> u8 \<Rightarrow> u8 \<Rightarrow> u8 \<Rightarrow> u64" where
  "get_config_space m p segment bus device function =
     (case find (\<lambda>al. al_base_address al \<noteq> 0 \<and> al_segment_group al = segment \<and>
                   al_start_bus al \<le> bus \<and> bus \<le> al_end_bus al)
             (map (allocation m (mcfg p)) [0..<unat (num_allocations p)]) of
        None \<Rightarrow> 0
      | Some al \<Rightarrow> pa_to_va (al_base_address al + config_offset (al_start_bus al) bus device function))"

text \<open>
  The loop over the functions of a device, which an absent or a single-function device ends at
  function 0. The result of \<open>malloc\<close> is not tested.
\<close>

fun pcie_functions ::
  "u16 \<Rightarrow> u8 \<Rightarrow> u8 \<Rightarrow> u8 list \<Rightarrow> 'b heap_scheme \<Rightarrow> pcie_state \<Rightarrow> ('b heap_scheme \<times> pcie_state) option" where
  "pcie_functions segment bus device [] s p = Some (s, p)"
| "pcie_functions segment bus device (function # fs) s p =
     (let config = get_config_space (mem s) p segment bus device function
      in if config = 0 then pcie_functions segment bus device fs s p
         else
           let vendor_id = read16 (mem s) config
           in if vendor_id = 0xFFFF \<or> vendor_id = 0x0000
              then if function = 0 then Some (s, p) else pcie_functions segment bus device fs s p
              else do {
                (d, s1) \<leftarrow> malloc 3925 s;
                let m = mem s1;
                let p1 = install_pcie_device d (p\<lparr>pcie_devs := (pcie_devs p)(d :=
                  \<lparr>pe_vendor_id = vendor_id, pe_device_id = read16 m (config + 2), pe_revision_id = m (config + 0x08),
                   pe_prog_if = m (config + 0x09), pe_subclass = m (config + 0x0A), pe_class_code = m (config + 0x0B),
                   pe_header_type = m (config + 0x0E) AND 0x7F,
                   pe_bars = map (\<lambda>i. read32 m (config + 4 * (4 + of_nat i))) [0..<6],
                   pe_bus = bus, pe_device = device, pe_function = function, pe_segment = segment,
                   pe_config_space = config, pe_next = pe_next (pcie_devs p d)\<rparr>)\<rparr>);
                if function = 0 \<and> m (config + 0x0E) AND 0x80 = 0 then Some (s1, p1)
                else pcie_functions segment bus device fs s1 p1 })"

text \<open>The loops over the busses and devices of an allocation, and over the allocations.\<close>

fun pcie_busses ::
  "u16 \<Rightarrow> (u8 \<times> u8) list \<Rightarrow> 'b heap_scheme \<Rightarrow> pcie_state \<Rightarrow> ('b heap_scheme \<times> pcie_state) option" where
  "pcie_busses segment [] s p = Some (s, p)"
| "pcie_busses segment ((bus, device) # bds) s p = do {
     (s1, p1) \<leftarrow> pcie_functions segment bus device (map of_nat [0..<8]) s p;
     pcie_busses segment bds s1 p1 }"

fun pcie_allocations :: "nat list \<Rightarrow> 'b heap_scheme \<Rightarrow> pcie_state \<Rightarrow> ('b heap_scheme \<times> pcie_state) option" where
  "pcie_allocations [] s p = Some (s, p)"
| "pcie_allocations (i # is) s p =
     (let al = allocation (mem s) (mcfg p) i
      in if al_base_address al = 0 then pcie_allocations is s p
         else do {
           (s1, p1) \<leftarrow> pcie_busses (al_segment_group al)
             (concat (map (\<lambda>bus. map (\<lambda>device. (of_nat bus, of_nat device)) [0..<32])
               [unat (al_start_bus al)..<unat (al_end_bus al) + 1])) s p;
           pcie_allocations is s1 p1 })"

definition enumerate_devices :: "'b heap_scheme \<Rightarrow> pcie_state \<Rightarrow> ('b heap_scheme \<times> pcie_state) option" where
  "enumerate_devices s p = pcie_allocations [0..<unat (num_allocations p)] s p"

definition get_num_devices :: "pcie_state \<Rightarrow> u32" where
  "get_num_devices p = ucast (num_devs p)"

definition pcie_initialise ::
  "u64 option \<Rightarrow> 'b heap_scheme \<Rightarrow> pcie_state \<Rightarrow> (u64 \<times> 'b heap_scheme \<times> pcie_state) option" where
  "pcie_initialise table s p =
     (case table of
        None \<Rightarrow> Some (1, s, p)
      | Some t \<Rightarrow> do {
          let p1 = p\<lparr>mcfg := t, num_allocations := ucast ((ucast (read32 (mem s) (t + 4)) - 44 :: u64) div 16)\<rparr>;
          (s1, p2) \<leftarrow> enumerate_devices s p1;
          Some (ucast (total_devices p2), s1, p2) })"

partial_function (option) cleanup_loop ::
  "(u64 \<Rightarrow> pcie_device) \<Rightarrow> u64 \<Rightarrow> 'b heap_scheme \<Rightarrow> 'b heap_scheme option" where
  "cleanup_loop devs a s =
     (if a = 0 then Some s
      else do {
        s1 \<leftarrow> heap_free a s;
        cleanup_loop devs (pe_next (devs a)) s1 })"

definition cleanup :: "'b heap_scheme \<Rightarrow> pcie_state \<Rightarrow> ('b heap_scheme \<times> pcie_state) option" where
  "cleanup s p = do {
     s1 \<leftarrow> cleanup_loop (pcie_devs p) (first_device p) s;
     Some (s1, p\<lparr>first_device := 0, num_devs := 0\<rparr>) }"

definition pcie_find :: "(pcie_device \<Rightarrow> bool) \<Rightarrow> pcie_state \<Rightarrow> u64 option" where
  "pcie_find matches p =
     find_dev (\<lambda>a. pe_next (pcie_devs p a)) (\<lambda>a. matches (pcie_devs p a)) (first_device p)"

definition pcie_get_device_bdf :: "u8 \<Rightarrow> u8 \<Rightarrow> u8 \<Rightarrow> pcie_state \<Rightarrow> u64 option" where
  "pcie_get_device_bdf bus device function p =
     pcie_find (\<lambda>d. pe_bus d = bus \<and> pe_device d = device \<and> pe_function d = function) p"

definition pcie_get_device_class_code :: "u8 \<Rightarrow> u8 \<Rightarrow> bool \<Rightarrow> u8 \<Rightarrow> pcie_state \<Rightarrow> u64 option" where
  "pcie_get_device_class_code class_code subclass check_progif prog_if p =
     pcie_find (\<lambda>d. pe_class_code d = class_code \<and> pe_subclass d = subclass \<and>
       (\<not> check_progif \<or> pe_prog_if d = prog_if)) p"

definition pcie_get_device_vendor_id :: "u16 \<Rightarrow> u16 \<Rightarrow> pcie_state \<Rightarrow> u64 option" where
  "pcie_get_device_vendor_id vendor_id device_id p =
     pcie_find (\<lambda>d. pe_vendor_id d = vendor_id \<and> pe_device_id d = device_id) p"

section \<open>Configuration windows\<close>

text \<open>
  A table whose ranges of configuration space lie below 128 TiB and do not meet.
\<close>

definition al_size :: "mcfg_allocation \<Rightarrow> nat" where
  "al_size al = (unat (al_end_bus al) + 1 - unat (al_start_bus al)) * 2 ^ 20"

definition mcfg_ok :: "memory \<Rightarrow> pcie_state \<Rightarrow> bool" where
  "mcfg_ok m p \<longleftrightarrow>
     (\<forall>i j. i < unat (num_allocations p) \<and> j < unat (num_allocations p) \<longrightarrow>
        (let x = allocation m (mcfg p) i; y = allocation m (mcfg p) j
         in unat (al_base_address x) + al_size x < 0x800000000000 \<and>
            (x \<noteq> y \<longrightarrow> unat (al_base_address x) + al_size x \<le> unat (al_base_address y) \<or>
              unat (al_base_address y) + al_size y \<le> unat (al_base_address x))))"

lemma field_bit:
  assumes "n < 2 ^ j" "bit (push_bit i (of_nat n :: u64)) k"
  shows "i \<le> k \<and> k < i + j"
proof -
  have "i \<le> k" "bit n (k - i)" using assms(2) by (simp_all add: bit_simps)
  moreover have "k - i < j" using assms(1) \<open>bit n (k - i)\<close> by (metis bit_take_bit_iff take_bit_nat_eq_self)
  ultimately show ?thesis by simp
qed

lemma config_offset_value:
  assumes "start \<le> bus" "device < 32" "function < 8"
  shows "unat (config_offset start bus device function) =
    (unat bus - unat start) * 2 ^ 20 + unat device * 2 ^ 15 + unat function * 2 ^ 12"
proof -
  let ?b = "unat bus - unat start" and ?d = "unat device" and ?f = "unat function"
  have lt: "?b < 2 ^ 8" "?d < 2 ^ 5" "?f < 2 ^ 3"
    using assms(2,3) unsigned_less [of bus, where 'a = nat] by (simp_all add: word_less_nat_alt)
  have "(word_of_int (uint bus - uint start) :: u64) = of_nat ?b"
    using assms(1) by (simp add: word_le_nat_alt of_nat_diff)
  moreover have "(ucast device :: u64) = of_nat ?d" "(ucast function :: u64) = of_nat ?f" by simp_all
  ultimately have e: "config_offset start bus device function =
      push_bit 20 (of_nat ?b) OR push_bit 15 (of_nat ?d) OR push_bit 12 (of_nat ?f)"
    unfolding config_offset_def by simp
  have dis: "bit (push_bit 20 (of_nat ?b) :: u64) n \<Longrightarrow> 20 \<le> n"
    "bit (push_bit 15 (of_nat ?d) :: u64) n \<Longrightarrow> 15 \<le> n \<and> n < 20"
    "bit (push_bit 12 (of_nat ?f) :: u64) n \<Longrightarrow> 12 \<le> n \<and> n < 15" for n
    using field_bit [OF lt(1), of 20 n] field_bit [OF lt(2), of 15 n] field_bit [OF lt(3), of 12 n] by simp_all
  have "push_bit 15 (of_nat ?d) OR push_bit 12 (of_nat ?f) = (push_bit 15 (of_nat ?d) + push_bit 12 (of_nat ?f) :: u64)"
    using dis by (intro disjunctive_add [symmetric]) fastforce
  moreover have "push_bit 20 (of_nat ?b) OR (push_bit 15 (of_nat ?d) OR push_bit 12 (of_nat ?f)) =
      (push_bit 20 (of_nat ?b) + (push_bit 15 (of_nat ?d) OR push_bit 12 (of_nat ?f)) :: u64)"
    using dis by (intro disjunctive_add [symmetric]) (fastforce simp: bit_or_iff)
  ultimately have "config_offset start bus device function = of_nat (?b * 2 ^ 20 + ?d * 2 ^ 15 + ?f * 2 ^ 12)"
    unfolding e by (simp add: push_bit_eq_mult or.assoc)
  moreover have "?b * 2 ^ 20 + ?d * 2 ^ 15 + ?f * 2 ^ 12 < 2 ^ 64" using lt by simp
  ultimately show ?thesis by (simp only: unat_of_nat64)
qed

definition fn_index :: "u8 \<Rightarrow> u8 \<Rightarrow> u8 \<Rightarrow> u8 \<Rightarrow> nat" where
  "fn_index start bus device function = (unat bus - unat start) * 256 + unat device * 8 + unat function"

lemma config_window:
  assumes "mcfg_ok m p" "get_config_space m p sg bus d f \<noteq> 0" "d < 32" "f < 8"
  obtains i al where "i < unat (num_allocations p)" "al = allocation m (mcfg p) i" "al_segment_group al = sg"
    "al_start_bus al \<le> bus" "4096 * fn_index (al_start_bus al) bus d f + 4096 \<le> al_size al"
    "unat (get_config_space m p sg bus d f) =
       0xFFFF800000000000 + unat (al_base_address al) + 4096 * fn_index (al_start_bus al) bus d f"
proof -
  let ?P = "\<lambda>al. al_base_address al \<noteq> 0 \<and> al_segment_group al = sg \<and> al_start_bus al \<le> bus \<and> bus \<le> al_end_bus al"
  let ?als = "map (allocation m (mcfg p)) [0..<unat (num_allocations p)]"
  obtain al where al: "find ?P ?als = Some al" using assms(2) by (cases "find ?P ?als") (auto simp: get_config_space_def)
  then obtain i where i: "i < unat (num_allocations p)" "al = allocation m (mcfg p) i" and P: "?P al"
    by (auto simp: find_Some_iff)
  let ?x = "fn_index (al_start_bus al) bus d f"
  have off: "unat (config_offset (al_start_bus al) bus d f) = 4096 * ?x"
    using config_offset_value [of "al_start_bus al" bus d f] P assms(3,4) by (simp add: fn_index_def)
  have lt: "unat d < 32" "unat f < 8" "unat (al_start_bus al) \<le> unat bus" "unat bus \<le> unat (al_end_bus al)"
    using assms(3,4) P by (simp_all add: word_less_nat_alt word_le_nat_alt)
  then have size: "4096 * ?x + 4096 \<le> al_size al" by (simp add: fn_index_def al_size_def)
  have range: "unat (al_base_address al) + al_size al < 0x800000000000"
    using assms(1) i unfolding mcfg_ok_def Let_def by blast
  have "unat (al_base_address al + config_offset (al_start_bus al) bus d f) = unat (al_base_address al) + 4096 * ?x"
    using unat_add_nowrap [of "al_base_address al" "config_offset (al_start_bus al) bus d f"] off size range by simp
  moreover have "get_config_space m p sg bus d f = pa_to_va (al_base_address al + config_offset (al_start_bus al) bus d f)"
    by (simp add: get_config_space_def al)
  ultimately have "unat (get_config_space m p sg bus d f) = 0xFFFF800000000000 + unat (al_base_address al) + 4096 * ?x"
    using pa_to_va_low(2) [of "al_base_address al + config_offset (al_start_bus al) bus d f"] size range by simp
  with i P size show thesis using that by blast
qed

lemma fn_index_inj:
  assumes "fn_index st b d f = fn_index st b' d' f'" "st \<le> b" "st \<le> b'" "d < 32" "d' < 32" "f < 8" "f' < 8"
  shows "b = b' \<and> d = d' \<and> f = f'"
proof -
  have l: "unat st \<le> unat b" "unat st \<le> unat b'" "unat d < 32" "unat d' < 32" "unat f < 8" "unat f' < 8"
    using assms(2-7) by (simp_all add: word_less_nat_alt word_le_nat_alt)
  let ?x = "unat b - unat st" and ?x' = "unat b' - unat st"
  have "(?x * 32 + unat d) * 8 + unat f = (?x' * 32 + unat d') * 8 + unat f'"
    using assms(1) by (simp add: fn_index_def)
  note e = row_column_unique [OF this l(5,6)]
  note e' = row_column_unique [OF e(1) l(3,4)]
  have "unat b = unat b'" using e'(1) l(1,2) by simp
  then show ?thesis using e(2) e'(2) by (simp add: word_unat_eq_iff)
qed

text \<open>
  C21. The configuration space of every function is its own page: for a table whose ranges do not
  meet, the 4096-byte windows that \<open>get_config_space\<close> returns for two different functions,
  of any segments and busses, share no byte.
\<close>

theorem config_windows_disjoint:
  assumes "mcfg_ok m p" and "d < 32" "f < 8" "d' < 32" "f' < 8" and "(sg, bus, d, f) \<noteq> (sg', bus', d', f')"
    and "get_config_space m p sg bus d f \<noteq> 0" and "get_config_space m p sg' bus' d' f' \<noteq> 0"
  shows "sep (get_config_space m p sg bus d f) 4096 (get_config_space m p sg' bus' d' f') 4096"
proof -
  obtain i al where a: "i < unat (num_allocations p)" "al = allocation m (mcfg p) i" "al_segment_group al = sg"
    "al_start_bus al \<le> bus" "4096 * fn_index (al_start_bus al) bus d f + 4096 \<le> al_size al"
    "unat (get_config_space m p sg bus d f) =
       0xFFFF800000000000 + unat (al_base_address al) + 4096 * fn_index (al_start_bus al) bus d f"
    by (rule config_window [OF assms(1,7,2,3)])
  obtain j al' where b: "j < unat (num_allocations p)" "al' = allocation m (mcfg p) j" "al_segment_group al' = sg'"
    "al_start_bus al' \<le> bus'" "4096 * fn_index (al_start_bus al') bus' d' f' + 4096 \<le> al_size al'"
    "unat (get_config_space m p sg' bus' d' f') =
       0xFFFF800000000000 + unat (al_base_address al') + 4096 * fn_index (al_start_bus al') bus' d' f'"
    by (rule config_window [OF assms(1,8,4,5)])
  have r: "unat (al_base_address al) + al_size al < 0x800000000000"
    "unat (al_base_address al') + al_size al' < 0x800000000000"
    "al \<noteq> al' \<Longrightarrow> unat (al_base_address al) + al_size al \<le> unat (al_base_address al') \<or>
       unat (al_base_address al') + al_size al' \<le> unat (al_base_address al)"
    using assms(1) a(1,2) b(1,2) unfolding mcfg_ok_def Let_def by metis+
  have ne: "al = al' \<Longrightarrow> fn_index (al_start_bus al) bus d f \<noteq> fn_index (al_start_bus al') bus' d' f'"
    using fn_index_inj [of "al_start_bus al" bus d f bus' d' f'] a(3,4) b(3,4) assms(2-6) by auto
  let ?a = "get_config_space m p sg bus d f" and ?b = "get_config_space m p sg' bus' d' f'"
  have "unat ?a + 4096 \<le> unat ?b \<or> unat ?b + 4096 \<le> unat ?a"
    using a(5) b(5) r ne unfolding a(6) b(6) by (cases "al = al'") auto
  moreover have "unat ?a + 4096 \<le> 2 ^ 64" "unat ?b + 4096 \<le> 2 ^ 64" using a(5) b(5) r(1,2) unfolding a(6) b(6) by simp_all
  ultimately show ?thesis using sep_nat [of ?a 4096 ?b 4096] sep_nat [of ?b 4096 ?a 4096] sep_sym by auto
qed

text \<open>A table with one entry: 256 busses of segment 0 at 0xE0000000.\<close>

definition demo_table :: memory where
  "demo_table = (\<lambda>_. 0)(0x902F := 0xE0, 0x9037 := 0xFF)"

definition demo_windows :: pcie_state where
  "demo_windows = \<lparr>mcfg = 0x9000, num_allocations = 1, total_devices = 0, first_device = 0, num_devs = 0,
     pcie_devs = \<lambda>_. undefined\<rparr>"

lemma demo_allocation:
  "allocation demo_table 0x9000 0 =
     \<lparr>al_base_address = 0xE0000000, al_segment_group = 0, al_start_bus = 0, al_end_bus = 0xFF\<rparr>"
  by (simp add: allocation_def demo_table_def read64_def read16_def read_le_numeral)

theorem config_windows_disjoint_witness:
  "sep (get_config_space demo_table demo_windows 0 0 0 0) 4096 (get_config_space demo_table demo_windows 0 255 31 7) 4096"
proof -
  have ok: "mcfg_ok demo_table demo_windows"
    by (simp add: mcfg_ok_def demo_windows_def demo_allocation al_size_def)
  have c: "get_config_space demo_table demo_windows 0 0 0 0 = 0xFFFF8000E0000000"
    "get_config_space demo_table demo_windows 0 255 31 7 = 0xFFFF8000EFFFF000"
    by (simp_all add: get_config_space_def demo_windows_def demo_allocation config_offset_def pa_to_va_def)
  show ?thesis by (rule config_windows_disjoint [OF ok]) (simp_all add: c)
qed

section \<open>Enumeration and cleanup\<close>

text \<open>
  The list, and the blocks of the heap: those of the list and those that were there before
  (\<open>old\<close>).
\<close>

definition answers :: "pcie_device \<Rightarrow> bool" where
  "answers d \<longleftrightarrow> pe_vendor_id d \<noteq> 0xFFFF \<and> pe_vendor_id d \<noteq> 0 \<and> pe_config_space d \<noteq> 0"

definition pcie_ok :: "(u64 \<times> u64) set \<Rightarrow> blk list \<Rightarrow> pcie_state \<Rightarrow> u64 list \<Rightarrow> bool" where
  "pcie_ok old bs p xs \<longleftrightarrow>
     linked (\<lambda>a. pe_next (pcie_devs p a)) (first_device p) xs \<and> distinct xs \<and>
     (\<forall>a \<in> set xs. a - block_size \<in> fst ` live bs) \<and> (\<forall>a \<in> set xs. answers (pcie_devs p a)) \<and>
     {(a, l) \<in> live bs. a + block_size \<notin> set xs} = old \<and> num_devs p = of_nat (length xs)"

lemma install_ok:
  assumes ok: "pcie_ok old bs p xs" and a: "a \<noteq> 0" "fresh_block n a bs bs'" and d: "answers d"
  shows "pcie_ok old bs' (install_pcie_device a (p\<lparr>pcie_devs := (pcie_devs p)(a := d)\<rparr>)) (a # xs)"
proof -
  let ?p = "install_pcie_device a (p\<lparr>pcie_devs := (pcie_devs p)(a := d)\<rparr>)"
  obtain a0 k where f: "a = a0 + block_size" "a0 \<notin> fst ` live bs" "live bs' = insert (a0, k) (live bs)"
    using a(2) unfolding fresh_block_def by blast
  have o: "linked (\<lambda>x. pe_next (pcie_devs p x)) (first_device p) xs" "distinct xs"
    "\<forall>x \<in> set xs. x - block_size \<in> fst ` live bs" "\<forall>x \<in> set xs. answers (pcie_devs p x)"
    "{(x, l) \<in> live bs. x + block_size \<notin> set xs} = old" "num_devs p = of_nat (length xs)"
    using ok by (simp_all add: pcie_ok_def)
  have "a - block_size = a0" using f(1) by simp
  then have fresh: "a \<notin> set xs" using o(3) f(2) by metis
  have p': "first_device ?p = a" "num_devs ?p = num_devs p + 1"
    "pcie_devs ?p = (pcie_devs p)(a := d\<lparr>pe_next := first_device p\<rparr>)"
    by (simp_all add: install_pcie_device_def)
  have "linked (\<lambda>x. pe_next (pcie_devs ?p x)) (first_device p) xs"
    using o(1) by (rule linked_cong [THEN iffD1, rotated]) (use fresh in \<open>auto simp: p'\<close>)
  then have "linked (\<lambda>x. pe_next (pcie_devs ?p x)) (first_device ?p) (a # xs)"
    using a(1) by (simp add: p')
  moreover have "{(x, l) \<in> live bs'. x + block_size \<notin> set (a # xs)} = old"
    using f(2) unfolding o(5) [symmetric] f(1,3) by force
  moreover have "\<forall>x \<in> set (a # xs). x - block_size \<in> fst ` live bs'" using o(3) f(1,3) by auto
  moreover have "\<forall>x \<in> set (a # xs). answers (pcie_devs ?p x)"
    using o(4) d fresh by (auto simp: p' answers_def)
  ultimately show ?thesis unfolding pcie_ok_def using o(2,6) fresh by (simp add: p'(2))
qed

lemma has_room_mono: "has_room n k bs \<Longrightarrow> j \<le> k \<Longrightarrow> has_room n j bs"
  unfolding has_room_def by (meson le_trans le_zero_eq mult_le_mono1)

lemma pcie_functions_ok:
  assumes "heap_inv s bs" "has_room 3925 (k + length fs) bs" "pcie_ok old bs p xs"
  shows "\<exists>s' p' bs' xs'. pcie_functions sg b d fs s p = Some (s', p') \<and> heap_inv s' bs' \<and>
    has_room 3925 k bs' \<and> pcie_ok old bs' p' xs'"
  using assms
proof (induction fs arbitrary: s p bs xs)
  case Nil
  then show ?case by auto
next
  case (Cons f fs)
  have room: "has_room 3925 (k + length fs) bs" "has_room 3925 k bs"
    using Cons.prems(2) by (auto elim: has_room_mono)
  let ?c = "get_config_space (mem s) p sg b d f" and ?v = "read16 (mem s) (get_config_space (mem s) p sg b d f)"
  consider "?c = 0" | "?c \<noteq> 0" "?v = 0xFFFF \<or> ?v = 0" | "?c \<noteq> 0" "\<not> (?v = 0xFFFF \<or> ?v = 0)" by blast
  then show ?case
  proof cases
    case 1
    then show ?thesis using Cons.IH [OF Cons.prems(1) room(1) Cons.prems(3)] by (simp add: Let_def)
  next
    case 2
    then show ?thesis
      using Cons.IH [OF Cons.prems(1) room(1) Cons.prems(3)] Cons.prems(1,3) room(2)
      by (cases "f = 0") (auto simp: Let_def)
  next
    case 3
    obtain a m1 bs1 where m: "malloc 3925 s = Some (a, s\<lparr>mem := m1\<rparr>)" "a \<noteq> 0" "heap_inv (s\<lparr>mem := m1\<rparr>) bs1"
      "has_room 3925 (k + length fs) bs1" "fresh_block 3925 a bs bs1"
      using malloc_room [OF Cons.prems(1), of 3925 "k + length fs"] Cons.prems(2) by auto
    obtain dv where e: "pcie_functions sg b d (f # fs) s p =
        (let p1 = install_pcie_device a (p\<lparr>pcie_devs := (pcie_devs p)(a := dv)\<rparr>)
         in if f = 0 \<and> m1 (?c + 0x0E) AND 0x80 = 0 then Some (s\<lparr>mem := m1\<rparr>, p1)
            else pcie_functions sg b d fs (s\<lparr>mem := m1\<rparr>) p1)" and dv: "answers dv"
      using 3 by (simp add: m(1) Let_def answers_def)
    let ?p = "install_pcie_device a (p\<lparr>pcie_devs := (pcie_devs p)(a := dv)\<rparr>)"
    note ok = install_ok [OF Cons.prems(3) m(2,5) dv]
    have "has_room 3925 k bs1" using m(4) by (rule has_room_mono) simp
    then show ?thesis unfolding e Let_def using Cons.IH [OF m(3,4) ok] m(3) ok
      by (cases "f = 0 \<and> m1 (?c + 0x0E) AND 0x80 = 0") auto
  qed
qed

lemma pcie_busses_ok:
  assumes "heap_inv s bs" "has_room 3925 (k + 8 * length bds) bs" "pcie_ok old bs p xs"
  shows "\<exists>s' p' bs' xs'. pcie_busses sg bds s p = Some (s', p') \<and> heap_inv s' bs' \<and>
    has_room 3925 k bs' \<and> pcie_ok old bs' p' xs'"
  using assms
proof (induction bds arbitrary: s p bs xs)
  case Nil
  then show ?case by auto
next
  case (Cons bd bds)
  obtain b d where bd: "bd = (b, d)" by fastforce
  have "has_room 3925 ((k + 8 * length bds) + length (map of_nat [0..<8] :: u8 list)) bs"
    using Cons.prems(2) by (simp add: algebra_simps)
  from pcie_functions_ok [OF Cons.prems(1) this Cons.prems(3)] obtain s1 p1 bs1 xs1 where
    f: "pcie_functions sg b d (map of_nat [0..<8]) s p = Some (s1, p1)" "heap_inv s1 bs1"
      "has_room 3925 (k + 8 * length bds) bs1" "pcie_ok old bs1 p1 xs1" by blast
  show ?case using Cons.IH [OF f(2-4)] unfolding bd pcie_busses.simps f(1) by simp
qed

lemma pcie_allocations_ok:
  assumes "heap_inv s bs" "has_room 3925 (65536 * length is) bs" "pcie_ok old bs p xs"
  shows "\<exists>s' p' bs' xs'. pcie_allocations is s p = Some (s', p') \<and> heap_inv s' bs' \<and> pcie_ok old bs' p' xs'"
  using assms
proof (induction "is" arbitrary: s p bs xs)
  case Nil
  then show ?case by auto
next
  case (Cons i "is")
  let ?al = "allocation (mem s) (mcfg p) i"
  let ?bds = "concat (map (\<lambda>bus. map (\<lambda>device. (of_nat bus, of_nat device)) [0..<32])
    [unat (al_start_bus ?al)..<unat (al_end_bus ?al) + 1]) :: (u8 \<times> u8) list"
  have "length ?bds = 32 * (unat (al_end_bus ?al) + 1 - unat (al_start_bus ?al))"
    by (simp add: length_concat o_def sum_list_triv Suc_diff_le)
  then have "8 * length ?bds \<le> 65536" using unsigned_less [of "al_end_bus ?al", where 'a = nat] by simp
  then have room: "has_room 3925 (65536 * length is + 8 * length ?bds) bs" "has_room 3925 (65536 * length is) bs"
    using has_room_mono [OF Cons.prems(2)] by (metis add.commute add_le_mono1 length_Cons mult_Suc_right, simp)
  from pcie_busses_ok [OF Cons.prems(1) room(1) Cons.prems(3)] obtain s1 p1 bs1 xs1 where
    f: "pcie_busses (al_segment_group ?al) ?bds s p = Some (s1, p1)" "heap_inv s1 bs1"
      "has_room 3925 (65536 * length is) bs1" "pcie_ok old bs1 p1 xs1" by blast
  show ?case
    using Cons.IH [OF Cons.prems(1) room(2) Cons.prems(3)] Cons.IH [OF f(2-4)]
    unfolding pcie_allocations.simps Let_def f(1) by simp
qed

lemma cleanup_loop_frees:
  assumes "heap_inv s bs" "linked (\<lambda>a. pe_next (g a)) a xs"
  shows "\<exists>s' bs'. cleanup_loop g a s = Some s' \<and> heap_inv s' bs' \<and>
    live bs' = {(x, l) \<in> live bs. x + block_size \<notin> set xs}"
  using assms
proof (induction xs arbitrary: a s bs)
  case Nil
  then show ?case by (subst cleanup_loop.simps) auto
next
  case (Cons y ys)
  then have a: "a = y" "y \<noteq> 0" "linked (\<lambda>a. pe_next (g a)) (pe_next (g y)) ys" by simp_all
  obtain m' bs1 where f: "heap_free y s = Some (s\<lparr>mem := m'\<rparr>)" "heap_inv (s\<lparr>mem := m'\<rparr>) bs1"
    "live bs1 = {(x, l) \<in> live bs. x + block_size \<noteq> y}"
    using free_live [OF Cons.prems(1) a(2)] by blast
  obtain s' bs' where "cleanup_loop g (pe_next (g y)) (s\<lparr>mem := m'\<rparr>) = Some s'" "heap_inv s' bs'"
    "live bs' = {(x, l) \<in> live bs1. x + block_size \<notin> set ys}"
    using Cons.IH [OF f(2) a(3)] by blast
  then show ?case using a(1,2) f(1,3) by (subst cleanup_loop.simps) auto
qed

text \<open>The number of entries \<open>initialise\<close> computes from the length of the table.\<close>

abbreviation table_entries :: "memory \<Rightarrow> u64 \<Rightarrow> nat" where
  "table_entries m t \<equiv> unat (ucast ((ucast (read32 m (t + 4)) - 44 :: u64) div 16) :: u32)"

text \<open>
  C13. The driver holds what answers and gives all of it back: with room on the heap for every
  function of the table and no device yet, \<open>initialise\<close> returns, the list of devices ends and
  holds only functions that answered with a vendor and have a configuration space, their
  number is \<open>num_devs\<close>, and \<open>cleanup\<close> then returns with exactly the blocks of the heap in use
  that were in use before.
\<close>

theorem pcie_cleanup_restores_heap:
  assumes "heap_inv s bs" and "has_room 3925 (65536 * table_entries (mem s) t) bs"
    and "first_device p = 0" and "num_devs p = 0"
  shows "\<exists>n s1 p1 xs s2 p2 bs2. pcie_initialise (Some t) s p = Some (n, s1, p1) \<and>
    linked (\<lambda>a. pe_next (pcie_devs p1 a)) (first_device p1) xs \<and> list_all (\<lambda>a. answers (pcie_devs p1 a)) xs \<and>
    num_devs p1 = of_nat (length xs) \<and>
    cleanup s1 p1 = Some (s2, p2) \<and> heap_inv s2 bs2 \<and> live bs2 = live bs \<and> first_device p2 = 0"
proof -
  let ?p = "p\<lparr>mcfg := t, num_allocations := ucast ((ucast (read32 (mem s) (t + 4)) - 44 :: u64) div 16)\<rparr>"
  have ok: "pcie_ok (live bs) bs ?p []" using assms(3,4) by (simp add: pcie_ok_def)
  have "has_room 3925 (65536 * length [0..<unat (num_allocations ?p)]) bs" using assms(2) by simp
  from pcie_allocations_ok [OF assms(1) this ok] obtain s1 p1 bs1 xs where
    e: "enumerate_devices s ?p = Some (s1, p1)" "heap_inv s1 bs1" "pcie_ok (live bs) bs1 p1 xs"
    unfolding enumerate_devices_def by blast
  then have l: "linked (\<lambda>a. pe_next (pcie_devs p1 a)) (first_device p1) xs"
    and r: "{(a, l) \<in> live bs1. a + block_size \<notin> set xs} = live bs"
    and an: "list_all (\<lambda>a. answers (pcie_devs p1 a)) xs" "num_devs p1 = of_nat (length xs)"
    by (simp_all add: pcie_ok_def list_all_iff)
  obtain s2 bs2 where c: "cleanup_loop (pcie_devs p1) (first_device p1) s1 = Some s2" "heap_inv s2 bs2" "live bs2 = live bs"
    using cleanup_loop_frees [OF e(2) l] unfolding r by blast
  have i: "pcie_initialise (Some t) s p = Some (ucast (total_devices p1), s1, p1)"
    by (simp add: pcie_initialise_def e(1))
  show ?thesis
    by (intro exI [of _ "ucast (total_devices p1)"] exI [of _ s1] exI [of _ p1] exI [of _ xs] exI [of _ s2]
        exI [of _ "p1\<lparr>first_device := 0, num_devs := 0\<rparr>"] exI [of _ bs2])
      (simp add: i l an c cleanup_def)
qed

text \<open>A heap of one gigabyte and a table with one empty entry.\<close>

definition demo_large :: heap where
  "demo_large = demo_heap_off\<lparr>heap_base := 0x200000, heap_size := 0x40000000,
     mem := demo_header 0x200000 0x3FFFFFD8 True 0 0 ((\<lambda>_. 0)(0x9004 := 60))\<rparr>"

definition demo_pcie :: pcie_state where
  "demo_pcie = \<lparr>mcfg = 0, num_allocations = 0, total_devices = 0, first_device = 0, num_devs = 0,
     pcie_devs = \<lambda>_. \<lparr>pe_vendor_id = 0, pe_device_id = 0, pe_revision_id = 0, pe_prog_if = 0, pe_subclass = 0,
       pe_class_code = 0, pe_header_type = 0, pe_bars = [], pe_bus = 0, pe_device = 0, pe_function = 0, pe_segment = 0,
       pe_config_space = 0, pe_next = 0\<rparr>\<rparr>"

lemma demo_large_inv: "heap_inv demo_large [(0x200000, 0x3FFFFFD8, True)]"
  by (simp add: demo_large_def heap_inv_def demo_header_def block_size_def [symmetric])

lemma demo_large_table: "table_entries (mem demo_large) 0x9000 = 1"
proof -
  have "mem demo_large x = ((\<lambda>_. 0)(0x9004 := 60)) x" if "x = 0x9004 \<or> x = 0x9005 \<or> x = 0x9006 \<or> x = 0x9007" for x
  proof -
    have "\<not> in_region 0x200000 block_size x" using that by (auto simp: in_region_def block_size_def)
    then show ?thesis by (simp add: demo_large_def demo_header_def set_outside)
  qed
  then have "read32 (mem demo_large) 0x9004 = 60" by (simp add: read32_def read_le_numeral)
  then show ?thesis by simp
qed

theorem pcie_cleanup_restores_heap_witness:
  "\<exists>n s1 p1 s2 p2 bs2. pcie_initialise (Some 0x9000) demo_large demo_pcie = Some (n, s1, p1) \<and>
     cleanup s1 p1 = Some (s2, p2) \<and> heap_inv s2 bs2 \<and> live bs2 = {}"
proof -
  have "has_room 3925 (65536 * table_entries (mem demo_large) 0x9000) [(0x200000, 0x3FFFFFD8, True)]"
    unfolding demo_large_table by (simp add: has_room_def)
  from pcie_cleanup_restores_heap [OF demo_large_inv this, of demo_pcie]
  show ?thesis by (simp add: demo_pcie_def live_Cons) blast
qed

end
