(* ===== verification/Tmpfs.thy ===== *)
theory Tmpfs
  imports Heap_Calls Cstring "HOL-Library.Monad_Syntax"
begin

unbundle bit_operations_syntax

text \<open>
  The in-memory file system, \<open>kernel/src/tmpfs/tmpfs.cpp\<close>, on top of the kernel heap.
  The directory nodes are kept as records indexed by the address \<open>malloc\<close> returned for
  them; file contents are bytes of the memory. Null pointers are 0. A C string passed to an
  operation is the list of its bytes before the terminator (\<open>None\<close> for a null pointer).
  Loops along \<open>next_sibling\<close> and \<open>parent\<close> links are partial functions, and so
  every operation that contains one, or calls the heap, returns an option.
\<close>

section \<open>Data\<close>

record node_struct =
  n_name :: "u8 list"
  n_is_dir :: bool
  n_is_symlink :: bool
  n_first_child :: u64
  n_next_sibling :: u64
  n_parent :: u64
  n_content :: u64
  n_size :: u64
  n_mode :: u32
  n_uid :: u32
  n_gid :: u32
  n_refcount :: int
  n_isdev :: bool
  n_devpath :: "u8 list"

record filedesc =
  f_fd :: int
  f_node :: u64
  f_offset :: u64
  f_flags :: u32
  f_mode :: u32
  f_is_dirent :: bool
  f_free :: bool

record tmpfs = heap +
  root :: u64
  cwd :: u64
  ftable :: "filedesc list"
  nodes :: "u64 \<Rightarrow> node_struct"
  console :: "u8 list"

abbreviation (input) O_CREAT :: u32 where "O_CREAT \<equiv> 0x40"
abbreviation (input) O_WRONLY :: u32 where "O_WRONLY \<equiv> 0x1"
abbreviation (input) O_TRUNC :: u32 where "O_TRUNC \<equiv> 0x200"
abbreviation (input) O_DIRECTORY :: u32 where "O_DIRECTORY \<equiv> 0x10000"
abbreviation (input) O_BUILTIN_DEVICE_FILE :: u32 where "O_BUILTIN_DEVICE_FILE \<equiv> 0x80000000"
definition SEEK_SET :: int where "SEEK_SET = 0"
definition SEEK_CUR :: int where "SEEK_CUR = 1"
definition SEEK_END :: int where "SEEK_END = 2"
abbreviation (input) S_IFDIR :: u32 where "S_IFDIR \<equiv> 0x4000"
abbreviation (input) S_IFREG :: u32 where "S_IFREG \<equiv> 0x8000"

text \<open>\<open>sizeof(node_struct)\<close> with the usual alignment.\<close>

definition node_size :: u64 where "node_size = 456"

abbreviation cstr :: "string \<Rightarrow> u8 list" where "cstr s \<equiv> map of_char s"

definition slash :: u8 where "slash = 47"
definition dot :: u8 where "dot = 46"

definition upd_node :: "u64 \<Rightarrow> (node_struct \<Rightarrow> node_struct) \<Rightarrow> 'a tmpfs_scheme \<Rightarrow> 'a tmpfs_scheme" where
  "upd_node p f s = s\<lparr>nodes := (nodes s)(p := f (nodes s p))\<rparr>"

text \<open>An index outside the descriptor table changes nothing here.\<close>

definition upd_fd :: "int \<Rightarrow> (filedesc \<Rightarrow> filedesc) \<Rightarrow> 'a tmpfs_scheme \<Rightarrow> 'a tmpfs_scheme" where
  "upd_fd fd f s =
     (if fd < 0 then s else s\<lparr>ftable := (ftable s)[nat fd := f (ftable s ! nat fd)]\<rparr>)"

abbreviation fd_of :: "'a tmpfs_scheme \<Rightarrow> int \<Rightarrow> filedesc" where
  "fd_of s fd \<equiv> ftable s ! nat fd"

text \<open>Bytes of a buffer of the stack stored to memory.\<close>

fun write_bytes :: "memory \<Rightarrow> u64 \<Rightarrow> u8 list \<Rightarrow> memory" where
  "write_bytes m p [] = m"
| "write_bytes m p (x # xs) = write_bytes (m(p := x)) (p + 1) xs"

section \<open>Paths\<close>

text \<open>The tokens \<open>strtok\<close> and \<open>strtok_r\<close> yield one after the other.\<close>

lemma next_token_shorter:
  assumes h: "next_token ds xs = Some (t, Some r)"
  shows "length r < length xs"
proof -
  obtain ys where ys: "ys = dropWhile (\<lambda>x. x \<in> ds) xs" by simp
  obtain zs where zs: "zs = dropWhile (\<lambda>x. x \<notin> ds) ys" by simp
  have "next_token ds xs = (if ys = [] then None
      else Some (takeWhile (\<lambda>x. x \<notin> ds) ys, if zs = [] then None else Some (tl zs)))"
    unfolding next_token_def Let_def zs ys ..
  then have "zs \<noteq> [] \<and> r = tl zs" using h by (cases "ys = []"; cases "zs = []") simp_all
  moreover have "length zs \<le> length ys" "length ys \<le> length xs"
    unfolding zs ys by (rule length_dropWhile_le)+
  ultimately show ?thesis by (cases zs) auto
qed

function path_tokens :: "u8 list option \<Rightarrow> u8 list list" where
  "path_tokens save =
     (case save of
        None \<Rightarrow> []
      | Some xs \<Rightarrow>
          (case next_token {slash} xs of None \<Rightarrow> [] | Some (t, rest) \<Rightarrow> t # path_tokens rest))"
  by pat_completeness auto
termination
proof (relation "measure (\<lambda>save. case save of None \<Rightarrow> 0 | Some xs \<Rightarrow> Suc (length xs))")
  show "(rest, save) \<in> measure (\<lambda>save. case save of None \<Rightarrow> 0 | Some xs \<Rightarrow> Suc (length xs))"
    if "save = Some xs" "next_token {slash} xs = Some y" "(t, rest) = y" for save xs y t rest
  proof (cases rest)
    case (Some r)
    then have "next_token {slash} xs = Some (t, Some r)" using that(2,3) by simp
    from next_token_shorter [OF this] show ?thesis by (simp add: that(1) Some)
  qed (simp add: that(1))
qed simp

declare path_tokens.simps [simp del]

partial_function (option) build_path_loop :: "(u64 \<Rightarrow> node_struct) \<Rightarrow> u64 \<Rightarrow> u8 list \<Rightarrow> u8 list option option" where
  "build_path_loop ns cur acc =
     (if cur = 0 then Some (Some acc)
      else if n_parent (ns cur) = 0 then Some (Some (if acc = [] then [slash] else acc))
      else if 1023 - length acc < length (n_name (ns cur)) + 1 then Some None
      else build_path_loop ns (n_parent (ns cur)) (slash # n_name (ns cur) @ acc))"

definition build_path_at_node :: "u64 \<Rightarrow> 'a tmpfs_scheme \<Rightarrow> (u64 \<times> 'a tmpfs_scheme) option" where
  "build_path_at_node n s =
     (if n = 0 then Some (0, s)
      else do {
        path \<leftarrow> build_path_loop (nodes s) n [];
        (case path of
           None \<Rightarrow> Some (0, s)
         | Some p \<Rightarrow> do {
             (result, s1) \<leftarrow> malloc (of_nat (length p + 1)) s;
             Some (if result = 0 then (0, s1)
                   else (result, s1\<lparr>mem := write_bytes (mem s1) result (p @ [0])\<rparr>)) })
      })"

section \<open>Descriptors and nodes\<close>

fun alloc_fd_from :: "nat \<Rightarrow> nat \<Rightarrow> 'a tmpfs_scheme \<Rightarrow> int \<times> 'a tmpfs_scheme" where
  "alloc_fd_from 0 i s = (- 1, s)"
| "alloc_fd_from (Suc n) i s =
     (if f_free (ftable s ! i)
      then (int i, upd_fd (int i) (\<lambda>f. f\<lparr>f_free := False, f_offset := 0, f_node := 0, f_flags := 0,
              f_mode := 0, f_fd := int i\<rparr>) s)
      else alloc_fd_from n (Suc i) s)"

definition alloc_fd :: "'a tmpfs_scheme \<Rightarrow> int \<times> 'a tmpfs_scheme" where
  "alloc_fd s = alloc_fd_from 256 0 s"

text \<open>\<open>name\<close> is the first field of the node, so \<open>free(n->name)\<close> frees the node.\<close>

definition free_node :: "u64 \<Rightarrow> 'a tmpfs_scheme \<Rightarrow> 'a tmpfs_scheme option" where
  "free_node n s =
     (if n = 0 then Some s
      else
        let s1 = upd_node n (\<lambda>x. x\<lparr>n_refcount := n_refcount x - 1\<rparr>) s in
        if 0 < n_refcount (nodes s1 n) then Some s1
        else do {
          s2 \<leftarrow> (if n_content (nodes s1 n) \<noteq> 0 then heap_free (n_content (nodes s1 n)) s1 else Some s1);
          s3 \<leftarrow> heap_free n s2;
          heap_free n s3 })"

partial_function (option) find_child :: "(u64 \<Rightarrow> node_struct) \<Rightarrow> u8 list \<Rightarrow> u64 \<Rightarrow> u64 option" where
  "find_child ns token child =
     (if child \<noteq> 0 \<and> n_name (ns child) \<noteq> token then find_child ns token (n_next_sibling (ns child))
      else Some child)"

partial_function (option) last_sibling :: "(u64 \<Rightarrow> node_struct) \<Rightarrow> u64 \<Rightarrow> u64 option" where
  "last_sibling ns c =
     (if n_next_sibling (ns c) \<noteq> 0 then last_sibling ns (n_next_sibling (ns c)) else Some c)"

text \<open>Append a node to the children of a directory.\<close>

definition append_child :: "u64 \<Rightarrow> u64 \<Rightarrow> 'a tmpfs_scheme \<Rightarrow> 'a tmpfs_scheme option" where
  "append_child cur child s =
     (if n_first_child (nodes s cur) = 0
      then Some (upd_node cur (\<lambda>x. x\<lparr>n_first_child := child\<rparr>) s)
      else do {
        c \<leftarrow> last_sibling (nodes s) (n_first_child (nodes s cur));
        Some (upd_node c (\<lambda>x. x\<lparr>n_next_sibling := child\<rparr>) s) })"

definition new_node :: "u64 \<Rightarrow> u8 list \<Rightarrow> bool \<Rightarrow> u32 \<Rightarrow> node_struct" where
  "new_node cur token dir mode =
     \<lparr>n_name = take 127 token, n_is_dir = dir, n_is_symlink = False, n_first_child = 0,
      n_next_sibling = 0, n_parent = cur, n_content = 0, n_size = 0, n_mode = mode, n_uid = 0,
      n_gid = 0, n_refcount = 1, n_isdev = False, n_devpath = []\<rparr>"

text \<open>The loop of \<open>create_at_path_internal\<close> over the tokens of the path.\<close>

fun create_loop :: "bool \<Rightarrow> u32 \<Rightarrow> u64 \<Rightarrow> u8 list list \<Rightarrow> 'a tmpfs_scheme \<Rightarrow> (u64 \<times> 'a tmpfs_scheme) option" where
  "create_loop dir mode cur [] s = Some (cur, s)"
| "create_loop dir mode cur (token # rest) s =
     (if token = [dot] then create_loop dir mode cur rest s
      else if token = [dot, dot]
      then create_loop dir mode
             (if n_parent (nodes s cur) \<noteq> 0 then n_parent (nodes s cur) else cur) rest s
      else do {
        child \<leftarrow> find_child (nodes s) token (n_first_child (nodes s cur));
        if child \<noteq> 0 then create_loop dir mode child rest s
        else do {
          (p, s1) \<leftarrow> malloc node_size s;
          if p = 0 then Some (0, s1)
          else do {
            s2 \<leftarrow> append_child cur p
                   (upd_node p (\<lambda>_. if rest = [] then new_node cur token dir mode
                                    else new_node cur token True 0x1ED) s1);
            create_loop dir mode p rest s2 } } })"

definition create_at_path_internal ::
  "u64 \<Rightarrow> u8 list option \<Rightarrow> bool \<Rightarrow> u32 \<Rightarrow> 'a tmpfs_scheme \<Rightarrow> (u64 \<times> 'a tmpfs_scheme) option" where
  "create_at_path_internal base path dir mode s =
     (case path of
        None \<Rightarrow> Some (0, s)
      | Some p \<Rightarrow>
          if base = 0 \<or> p = [] then Some (0, s)
          else let tmp = take 511 p in
               create_loop dir mode (if hd tmp = slash then root s else base) (path_tokens (Some tmp)) s)"

definition create_at_path :: "u8 list option \<Rightarrow> bool \<Rightarrow> u32 \<Rightarrow> 'a tmpfs_scheme \<Rightarrow> (u64 \<times> 'a tmpfs_scheme) option" where
  "create_at_path path dir mode s = create_at_path_internal (cwd s) path dir mode s"

fun resolve_loop :: "(u64 \<Rightarrow> node_struct) \<Rightarrow> u64 \<Rightarrow> u8 list list \<Rightarrow> u64 option" where
  "resolve_loop ns cur [] = Some cur"
| "resolve_loop ns cur (token # rest) =
     (if token = [dot] then resolve_loop ns cur rest
      else if token = [dot, dot]
      then resolve_loop ns (if n_parent (ns cur) \<noteq> 0 then n_parent (ns cur) else cur) rest
      else do {
        child \<leftarrow> find_child ns token (n_first_child (ns cur));
        if child = 0 then Some 0 else resolve_loop ns child rest })"

definition resolve_path_internal :: "u64 \<Rightarrow> u8 list option \<Rightarrow> 'a tmpfs_scheme \<Rightarrow> u64 option" where
  "resolve_path_internal base path s =
     (case path of
        None \<Rightarrow> Some 0
      | Some p \<Rightarrow>
          if base = 0 then Some 0
          else resolve_loop (nodes s) (if p \<noteq> [] \<and> hd p = slash then root s else base)
                 (path_tokens (Some (take 511 p))))"

definition resolve_path :: "u8 list option \<Rightarrow> 'a tmpfs_scheme \<Rightarrow> u64 option" where
  "resolve_path path s = resolve_path_internal (cwd s) path s"

section \<open>Operations\<close>

definition fs_initialise :: "'a tmpfs_scheme \<Rightarrow> 'a tmpfs_scheme option" where
  "fs_initialise s = do {
     let s1 = s\<lparr>ftable := map (\<lambda>i. (ftable s ! i)\<lparr>f_fd := int i, f_free := True, f_node := 0\<rparr>) [0..<256]\<rparr>;
     (p, s2) \<leftarrow> malloc node_size s1;
     let s3 = upd_node p (\<lambda>x. x\<lparr>n_name := [slash], n_is_dir := True, n_is_symlink := False,
                n_first_child := 0, n_next_sibling := 0, n_parent := 0, n_content := 0, n_size := 0,
                n_mode := 0x1ED, n_uid := 0, n_gid := 0, n_refcount := 1\<rparr>) s2;
     Some (s3\<lparr>root := p, cwd := p\<rparr>) }"

definition fs_chdir :: "u8 list \<Rightarrow> 'a tmpfs_scheme \<Rightarrow> (int \<times> 'a tmpfs_scheme) option" where
  "fs_chdir path s =
     (if path = [slash] then Some (0, s\<lparr>cwd := root s\<rparr>)
      else do {
        n \<leftarrow> resolve_path (Some path) s;
        Some (if n = 0 then (- 1, s) else (0, s\<lparr>cwd := n\<rparr>)) })"

definition fs_mkdir :: "u8 list option \<Rightarrow> u32 \<Rightarrow> 'a tmpfs_scheme \<Rightarrow> (int \<times> 'a tmpfs_scheme) option" where
  "fs_mkdir path mode s = do {
     (n, s1) \<leftarrow> create_at_path path True mode s;
     Some (if n = 0 then (- 1, s1)
           else (0, upd_node n (\<lambda>x. x\<lparr>n_is_dir := True, n_first_child := 0, n_next_sibling := 0,
                      n_content := 0, n_size := 0, n_mode := mode\<rparr>) s1)) }"

definition valid_dirfd :: "int \<Rightarrow> 'a tmpfs_scheme \<Rightarrow> bool" where
  "valid_dirfd dirfd s \<longleftrightarrow> 0 \<le> dirfd \<and> dirfd < 256 \<and> f_node (fd_of s dirfd) \<noteq> 0"

definition fs_mkdirat :: "int \<Rightarrow> u8 list option \<Rightarrow> u32 \<Rightarrow> 'a tmpfs_scheme \<Rightarrow> (int \<times> 'a tmpfs_scheme) option" where
  "fs_mkdirat dirfd path mode s = do {
     let saved = cwd s;
     let s1 = (if valid_dirfd dirfd s then s\<lparr>cwd := f_node (fd_of s dirfd)\<rparr> else s);
     (ret, s2) \<leftarrow> fs_mkdir path mode s1;
     Some (ret, s2\<lparr>cwd := saved\<rparr>) }"

text \<open>Taking a node out of the children of its parent, as \<open>rmdir\<close> and \<open>unlink\<close> do.\<close>

partial_function (option) find_prev :: "(u64 \<Rightarrow> node_struct) \<Rightarrow> u64 \<Rightarrow> u64 \<Rightarrow> u64 option" where
  "find_prev ns n c =
     (if c \<noteq> 0 \<and> n_next_sibling (ns c) \<noteq> n then find_prev ns n (n_next_sibling (ns c)) else Some c)"

definition unlink_child :: "u64 \<Rightarrow> u64 \<Rightarrow> 'a tmpfs_scheme \<Rightarrow> 'a tmpfs_scheme option" where
  "unlink_child parent n s =
     (if n_first_child (nodes s parent) = n
      then Some (upd_node parent (\<lambda>x. x\<lparr>n_first_child := n_next_sibling (nodes s n)\<rparr>) s)
      else do {
        c \<leftarrow> find_prev (nodes s) n (n_first_child (nodes s parent));
        Some (if c \<noteq> 0 then upd_node c (\<lambda>x. x\<lparr>n_next_sibling := n_next_sibling (nodes s n)\<rparr>) s else s) })"

definition fs_rmdir :: "u8 list option \<Rightarrow> 'a tmpfs_scheme \<Rightarrow> (int \<times> 'a tmpfs_scheme) option" where
  "fs_rmdir path s = do {
     n \<leftarrow> resolve_path path s;
     if n = 0 \<or> \<not> n_is_dir (nodes s n) \<or> n_first_child (nodes s n) \<noteq> 0 then Some (- 1, s)
     else if n_parent (nodes s n) = 0 then Some (- 1, s)
     else do {
       s1 \<leftarrow> unlink_child (n_parent (nodes s n)) n s;
       s2 \<leftarrow> free_node n s1;
       Some (0, s2) } }"

text \<open>The second half of \<open>open\<close>: a descriptor for a node.\<close>

definition open_node :: "u64 \<Rightarrow> u32 \<Rightarrow> u32 \<Rightarrow> 'a tmpfs_scheme \<Rightarrow> int \<times> 'a tmpfs_scheme" where
  "open_node n flags mode s =
     (if n = 0 then (- 3, s)
      else case alloc_fd s of (fd, s1) \<Rightarrow>
        if fd < 0 then (- 4, s1)
        else (fd, upd_node n (\<lambda>x. x\<lparr>n_refcount := n_refcount x + 1\<rparr>)
                    (upd_fd fd (\<lambda>f. f\<lparr>f_node := n, f_flags := flags, f_mode := mode, f_offset := 0,
                       f_is_dirent := n_is_dir (nodes s1 n)\<rparr>) s1)))"

definition fs_open ::
  "u8 list option \<Rightarrow> u32 \<Rightarrow> u32 \<Rightarrow> u8 list \<Rightarrow> 'a tmpfs_scheme \<Rightarrow> (int \<times> 'a tmpfs_scheme) option" where
  "fs_open path flags mode devpath s =
     (if path = None then Some (- 1, s)
      else do {
        n \<leftarrow> resolve_path path s;
        if n = 0 \<and> flags AND O_CREAT \<noteq> 0
        then do {
          (n', s1) \<leftarrow> create_at_path path False mode s;
          Some (if n' = 0 then (- 2, s1)
                else open_node n' flags mode
                  (if flags AND O_BUILTIN_DEVICE_FILE \<noteq> 0
                   then upd_node n' (\<lambda>x. x\<lparr>n_isdev := True, n_devpath := take 255 devpath\<rparr>) s1 else s1)) }
        else Some (open_node n flags mode s) })"

definition fs_openat ::
  "int \<Rightarrow> u8 list option \<Rightarrow> u32 \<Rightarrow> u32 \<Rightarrow> 'a tmpfs_scheme \<Rightarrow> (int \<times> 'a tmpfs_scheme) option" where
  "fs_openat dirfd path flags mode s = do {
     let saved = cwd s;
     let s1 = (if valid_dirfd dirfd s then s\<lparr>cwd := f_node (fd_of s dirfd)\<rparr> else s);
     (fd, s2) \<leftarrow> fs_open path flags mode [] s1;
     Some (fd, s2\<lparr>cwd := saved\<rparr>) }"

definition fs_close :: "int \<Rightarrow> 'a tmpfs_scheme \<Rightarrow> (int \<times> 'a tmpfs_scheme) option" where
  "fs_close fd s =
     (if fd < 0 \<or> 256 \<le> fd then Some (- 1, s)
      else do {
        s1 \<leftarrow> (if f_node (fd_of s fd) \<noteq> 0 then free_node (f_node (fd_of s fd)) s else Some s);
        Some (0, upd_fd fd (\<lambda>f. f\<lparr>f_node := 0, f_free := True\<rparr>) s1) })"

text \<open>A descriptor that \<open>read\<close>, \<open>write\<close> and \<open>ftruncate\<close> reject.\<close>

definition not_a_file :: "int \<Rightarrow> 'a tmpfs_scheme \<Rightarrow> bool" where
  "not_a_file fd s \<longleftrightarrow> f_node (fd_of s fd) = 0 \<or> n_is_dir (nodes s (f_node (fd_of s fd))) \<or>
     n_is_symlink (nodes s (f_node (fd_of s fd)))"

definition fs_read :: "int \<Rightarrow> u64 \<Rightarrow> u64 \<Rightarrow> 'a tmpfs_scheme \<Rightarrow> int \<times> 'a tmpfs_scheme" where
  "fs_read fd buf count s =
     (if fd < 0 \<or> 256 \<le> fd then (- 1, s)
      else if not_a_file fd s then (- 1, s)
      else
        let f = fd_of s fd;
            n = nodes s (f_node f);
            rem = n_size n - f_offset f;
            to_read = (if count < rem then count else rem);
            m1 = (if 0 < to_read then snd (memcpy (mem s) buf (n_content n + f_offset f) to_read) else mem s);
            m2 = (if buf \<noteq> 0 then m1(buf + to_read := 0) else m1)
        in (sint to_read, upd_fd fd (\<lambda>f. f\<lparr>f_offset := f_offset f + to_read\<rparr>) (s\<lparr>mem := m2\<rparr>)))"

definition fs_lseek :: "int \<Rightarrow> u64 \<Rightarrow> int \<Rightarrow> 'a tmpfs_scheme \<Rightarrow> int \<times> 'a tmpfs_scheme" where
  "fs_lseek fd offset whence s =
     (if fd < 0 \<or> 256 \<le> fd then (- 1, s)
      else if f_node (fd_of s fd) = 0 then (- 1, s)
      else
        let f = fd_of s fd in
        if whence \<noteq> SEEK_SET \<and> whence \<noteq> SEEK_CUR \<and> whence \<noteq> SEEK_END then (- 1, s)
        else
          let new_offset = (if whence = SEEK_SET then offset
                            else if whence = SEEK_CUR then f_offset f + offset
                            else n_size (nodes s (f_node f)) + offset)
          in if sint new_offset < 0 then (- 1, s)
             else (sint new_offset, upd_fd fd (\<lambda>f. f\<lparr>f_offset := new_offset\<rparr>) s))"

definition fs_pread :: "int \<Rightarrow> u64 \<Rightarrow> u64 \<Rightarrow> u64 \<Rightarrow> 'a tmpfs_scheme \<Rightarrow> int \<times> 'a tmpfs_scheme" where
  "fs_pread fd buf count offset s =
     (let orig = f_offset (fd_of s fd);
          s1 = snd (fs_lseek fd offset SEEK_SET s)
      in case fs_read fd buf count s1 of (ret, s2) \<Rightarrow> (ret, upd_fd fd (\<lambda>f. f\<lparr>f_offset := orig\<rparr>) s2))"

text \<open>The part of \<open>write\<close> behind the allocation.\<close>

definition finish_write :: "int \<Rightarrow> u64 \<Rightarrow> u64 \<Rightarrow> u64 \<Rightarrow> 'a tmpfs_scheme \<Rightarrow> 'a tmpfs_scheme" where
  "finish_write fd buf count tmp s =
     (let p = f_node (fd_of s fd);
          s2 = upd_node p (\<lambda>x. x\<lparr>n_content := tmp\<rparr>) s;
          s3 = s2\<lparr>mem := snd (memcpy (mem s2) (tmp + f_offset (fd_of s2 fd)) buf count)\<rparr>;
          s4 = upd_fd fd (\<lambda>f. f\<lparr>f_offset := f_offset f + count\<rparr>) s3;
          s5 = (if n_size (nodes s4 p) < f_offset (fd_of s4 fd)
                then upd_node p (\<lambda>x. x\<lparr>n_size := f_offset (fd_of s4 fd)\<rparr>) s4 else s4)
      in if fd = 1 \<or> fd = 2
         then s5\<lparr>console := console s5 @ mem_bytes (mem s5) buf (unat count)\<rparr> else s5)"

definition fs_write :: "int \<Rightarrow> u64 \<Rightarrow> u64 \<Rightarrow> 'a tmpfs_scheme \<Rightarrow> (int \<times> 'a tmpfs_scheme) option" where
  "fs_write fd buf count s =
     (if fd < 0 \<or> 256 \<le> fd then Some (- 1, s)
      else if not_a_file fd s then Some (- 1, s)
      else
        let content = n_content (nodes s (f_node (fd_of s fd)));
            new_size = f_offset (fd_of s fd) + count
        in do {
          (tmp, s1) \<leftarrow> (if content = 0 then malloc new_size s else realloc content new_size s);
          Some (if content \<noteq> 0 \<and> tmp = 0 then (- 1, s1) else (sint count, finish_write fd buf count tmp s1)) })"

definition fs_pwrite :: "int \<Rightarrow> u64 \<Rightarrow> u64 \<Rightarrow> u64 \<Rightarrow> 'a tmpfs_scheme \<Rightarrow> (int \<times> 'a tmpfs_scheme) option" where
  "fs_pwrite fd buf count offset s =
     (let orig = f_offset (fd_of s fd);
          s1 = snd (fs_lseek fd offset SEEK_SET s)
      in do {
        (ret, s2) \<leftarrow> fs_write fd buf count s1;
        Some (ret, upd_fd fd (\<lambda>f. f\<lparr>f_offset := orig\<rparr>) s2) })"

text \<open>\<open>struct stat\<close>: \<open>st_mode\<close> is at 16, \<open>st_uid\<close> at 24, \<open>st_gid\<close> at 28, \<open>st_size\<close> at 40.\<close>

definition fs_fstat :: "int \<Rightarrow> u64 \<Rightarrow> 'a tmpfs_scheme \<Rightarrow> int \<times> 'a tmpfs_scheme" where
  "fs_fstat fd buf s =
     (if fd < 0 \<or> 256 \<le> fd then (- 1, s)
      else if f_node (fd_of s fd) = 0 then (- 1, s)
      else
        let n = nodes s (f_node (fd_of s fd));
            m1 = write_le 4 (mem s) (buf + 16) (ucast (if n_is_dir n then S_IFDIR OR n_mode n else S_IFREG OR n_mode n));
            m2 = write_le 8 m1 (buf + 40) (n_size n + 1);
            m3 = write_le 4 m2 (buf + 24) (ucast (n_uid n));
            m4 = write_le 4 m3 (buf + 28) (ucast (n_gid n))
        in (0, s\<lparr>mem := m4\<rparr>))"

definition fs_fchmod :: "int \<Rightarrow> u32 \<Rightarrow> 'a tmpfs_scheme \<Rightarrow> int \<times> 'a tmpfs_scheme" where
  "fs_fchmod fd mode s =
     (if fd < 0 \<or> 256 \<le> fd then (- 1, s)
      else if f_node (fd_of s fd) = 0 then (- 1, s)
      else (0, upd_node (f_node (fd_of s fd)) (\<lambda>x. x\<lparr>n_mode := mode\<rparr>) s))"

definition fs_fchown :: "int \<Rightarrow> u32 \<Rightarrow> u32 \<Rightarrow> 'a tmpfs_scheme \<Rightarrow> int \<times> 'a tmpfs_scheme" where
  "fs_fchown fd owner grp s =
     (if fd < 0 \<or> 256 \<le> fd then (- 1, s)
      else if f_node (fd_of s fd) = 0 then (- 1, s)
      else (0, upd_node (f_node (fd_of s fd)) (\<lambda>x. x\<lparr>n_uid := owner, n_gid := grp\<rparr>) s))"

definition fs_ftruncate :: "int \<Rightarrow> u64 \<Rightarrow> 'a tmpfs_scheme \<Rightarrow> (int \<times> 'a tmpfs_scheme) option" where
  "fs_ftruncate fd len s =
     (if fd < 0 \<or> 256 \<le> fd then Some (- 1, s)
      else if not_a_file fd s then Some (- 1, s)
      else
        let p = f_node (fd_of s fd); n = nodes s p in
        if len < n_size n
        then do {
          (tmp, s1) \<leftarrow> realloc (n_content n) len s;
          if tmp = 0 \<and> 0 < sint len then Some (- 1, s1)
          else
            let s2 = upd_node p (\<lambda>x. x\<lparr>n_content := tmp, n_size := len\<rparr>) s1
            in Some (0, if sint len < sint (f_offset (fd_of s2 fd))
                        then upd_fd fd (\<lambda>f. f\<lparr>f_offset := len\<rparr>) s2 else s2) }
        else if n_size n < len
        then do {
          (tmp, s1) \<leftarrow> realloc (n_content n) len s;
          if tmp = 0 then Some (- 1, s1)
          else
            let s2 = s1\<lparr>mem := snd (memset (mem s1) (tmp + n_size n) 0 (len - n_size n))\<rparr>
            in Some (0, upd_node p (\<lambda>x. x\<lparr>n_content := tmp, n_size := len\<rparr>) s2) }
        else Some (0, s))"

definition fs_fsync :: "int \<Rightarrow> int" where "fs_fsync fd = 0"
definition fs_fdatasync :: "int \<Rightarrow> int" where "fs_fdatasync fd = 0"

text \<open>\<open>created\<close> is read before it is set: its value is an argument here.\<close>

definition fs_link :: "bool \<Rightarrow> u8 list option \<Rightarrow> u8 list option \<Rightarrow> 'a tmpfs_scheme \<Rightarrow> (int \<times> 'a tmpfs_scheme) option" where
  "fs_link created oldpath newpath s = do {
     n \<leftarrow> resolve_path oldpath s;
     if n = 0 \<or> n_is_dir (nodes s n) then Some (- 1, s)
     else do {
       (new, s1) \<leftarrow> create_at_path newpath False 0x1ED s;
       Some (if new = 0 \<or> \<not> created then (- 1, s1)
             else (0, upd_node n (\<lambda>x. x\<lparr>n_refcount := n_refcount x + 1\<rparr>)
                       (upd_node new (\<lambda>x. x\<lparr>n_is_dir := n_is_dir (nodes s1 n),
                          n_is_symlink := n_is_symlink (nodes s1 n), n_content := n_content (nodes s1 n),
                          n_size := n_size (nodes s1 n), n_mode := n_mode (nodes s1 n),
                          n_uid := n_uid (nodes s1 n), n_gid := n_gid (nodes s1 n),
                          n_refcount := n_refcount (nodes s1 n)\<rparr>) s1))) } }"

definition fs_unlink :: "u8 list option \<Rightarrow> 'a tmpfs_scheme \<Rightarrow> (int \<times> 'a tmpfs_scheme) option" where
  "fs_unlink path s = do {
     n \<leftarrow> resolve_path path s;
     if n = 0 \<or> n_is_dir (nodes s n) then Some (- 1, s)
     else if n_parent (nodes s n) = 0 then Some (- 1, s)
     else do {
       s1 \<leftarrow> unlink_child (n_parent (nodes s n)) n s;
       s2 \<leftarrow> free_node n s1;
       Some (0, s2) } }"

text \<open>What follows the last slash of a path: \<open>strrchr\<close> and the pointer behind it.\<close>

definition base_name :: "u8 list \<Rightarrow> u8 list" where
  "base_name path = rev (takeWhile (\<lambda>c. c \<noteq> slash) (rev path))"

definition fs_rename :: "u8 list option \<Rightarrow> u8 list \<Rightarrow> 'a tmpfs_scheme \<Rightarrow> (int \<times> 'a tmpfs_scheme) option" where
  "fs_rename oldpath newpath s = do {
     n \<leftarrow> resolve_path oldpath s;
     if n = 0 then Some (- 1, s)
     else do {
       (r, s1) \<leftarrow> fs_unlink (Some newpath) s;
       s2 \<leftarrow> heap_free n s1;
       Some (0, upd_node n (\<lambda>x. x\<lparr>n_name := take 127 (base_name newpath)\<rparr>) s2) } }"

definition fs_symlink :: "u8 list option \<Rightarrow> u8 list \<Rightarrow> 'a tmpfs_scheme \<Rightarrow> (int \<times> 'a tmpfs_scheme) option" where
  "fs_symlink target linkpath s = do {
     target_node \<leftarrow> resolve_path target s;
     if target_node = 0 then Some (- 1, s)
     else do {
       (abs_target, s1) \<leftarrow> build_path_at_node target_node s;
       if abs_target = 0 then Some (- 1, s1)
       else do {
         (n, s2) \<leftarrow> malloc node_size s1;
         len \<leftarrow> strlen (mem s2) abs_target;
         s3 \<leftarrow> append_child (cwd s2) n
                (upd_node n (\<lambda>_. (new_node (cwd s2) (base_name linkpath) False 0x1FF)
                   \<lparr>n_is_symlink := True, n_content := abs_target, n_size := ucast len\<rparr>) s2);
         Some (0, s3) } } }"

definition fs_readlink :: "u8 list option \<Rightarrow> u64 \<Rightarrow> u64 \<Rightarrow> 'a tmpfs_scheme \<Rightarrow> (int \<times> 'a tmpfs_scheme) option" where
  "fs_readlink path buf bufsize s = do {
     n \<leftarrow> resolve_path path s;
     if n = 0 \<or> \<not> n_is_symlink (nodes s n) then Some (- 1, s)
     else do {
       let m1 = snd (strncpy buf (n_content (nodes s n)) (ucast bufsize) (mem s));
       len \<leftarrow> strlen m1 buf;
       Some (uint len, s\<lparr>mem := m1\<rparr>) } }"

partial_function (option) getdents_loop ::
  "(u64 \<Rightarrow> node_struct) \<Rightarrow> u64 \<Rightarrow> u64 \<Rightarrow> u64 \<Rightarrow> u64 \<Rightarrow> memory \<Rightarrow> (u64 \<times> memory) option" where
  "getdents_loop ns out bufsize c used m =
     (if c = 0 then Some (used, m)
      else
        let len = of_nat (length (n_name (ns c))) in
        if bufsize < used + len + 1 then Some (used, m)
        else getdents_loop ns out bufsize (n_next_sibling (ns c)) (used + (len + 1))
               (write_bytes m (out + used) (n_name (ns c) @ [0])))"

definition fs_getdents :: "int \<Rightarrow> u64 \<Rightarrow> u64 \<Rightarrow> 'a tmpfs_scheme \<Rightarrow> (int \<times> 'a tmpfs_scheme) option" where
  "fs_getdents fd buf bufsize s =
     (if fd < 0 \<or> 256 \<le> fd then Some (- 1, s)
      else if f_node (fd_of s fd) = 0 \<or> \<not> n_is_dir (nodes s (f_node (fd_of s fd))) then Some (- 1, s)
      else do {
        (used, m) \<leftarrow> getdents_loop (nodes s) buf bufsize
                       (n_first_child (nodes s (f_node (fd_of s fd)))) 0 (mem s);
        Some (sint used, s\<lparr>mem := m\<rparr>) })"

section \<open>The initial ram disk\<close>

abbreviation (input) TAR_BLOCK_SIZE :: u64 where "TAR_BLOCK_SIZE \<equiv> 512"

text \<open>\<open>ustar_header\<close>: the fields the loader uses and their offsets.\<close>

abbreviation (input) tar_name :: u64 where "tar_name \<equiv> 0"
abbreviation (input) tar_size :: u64 where "tar_size \<equiv> 124"
abbreviation (input) tar_typeflag :: u64 where "tar_typeflag \<equiv> 156"
abbreviation (input) tar_prefix :: u64 where "tar_prefix \<equiv> 345"

function oct_loop :: "memory \<Rightarrow> u64 \<Rightarrow> u64 \<Rightarrow> u64 \<Rightarrow> u64 \<Rightarrow> u64" where
  "oct_loop m str i n res =
     (if i < n \<and> 48 \<le> m (str + i) \<and> m (str + i) \<le> 55
      then oct_loop m str (i + 1) n (push_bit 3 res OR ucast (m (str + i) - 48)) else res)"
  by pat_completeness auto
termination
  by (relation "measure (\<lambda>(m, str, i, n, res). unat (n - i))") (auto simp: word_diff_measure)

declare oct_loop.simps [simp del]

definition oct_to_size :: "memory \<Rightarrow> u64 \<Rightarrow> u64 \<Rightarrow> u64" where
  "oct_to_size m str n = oct_loop m str 0 n 0"

text \<open>The string a \<open>%s\<close> conversion or \<open>strcmp\<close> reads: up to the next zero byte.\<close>

partial_function (option) read_string :: "memory \<Rightarrow> u64 \<Rightarrow> u8 list option" where
  "read_string m p =
     (if m p = 0 then Some [] else do { xs \<leftarrow> read_string m (p + 1); Some (m p # xs) })"

text \<open>The cleaning loop: runs of slashes become one, \<open>.\<close> components go away.\<close>

fun clean_path :: "u8 \<Rightarrow> u8 list \<Rightarrow> u8 list" where
  "clean_path prev [] = []"
| "clean_path prev (c # cs) =
     (if c = slash
      then if prev \<noteq> slash then slash # clean_path slash cs else clean_path prev cs
      else if c = dot \<and> (prev = slash \<or> prev = 0) \<and> (cs = [] \<or> hd cs = slash)
      then clean_path prev (tl cs)
      else c # clean_path c cs)"

text \<open>Creating the directories a path passes through.\<close>

fun mkdir_prefixes :: "nat \<Rightarrow> u8 list \<Rightarrow> u8 list \<Rightarrow> 'a tmpfs_scheme \<Rightarrow> 'a tmpfs_scheme option" where
  "mkdir_prefixes i path [] s = Some s"
| "mkdir_prefixes i path (c # cs) s =
     (if c = slash
      then do { (r, s1) \<leftarrow> fs_mkdir (Some (take i path)) 0x1ED s; mkdir_prefixes (Suc i) path cs s1 }
      else mkdir_prefixes (Suc i) path cs s)"

definition tar_next :: "u64 \<Rightarrow> u64 \<Rightarrow> u64" where
  "tar_next ptr file_size =
     ptr + ((file_size + TAR_BLOCK_SIZE - 1) div TAR_BLOCK_SIZE + 1) * TAR_BLOCK_SIZE"

text \<open>One archive member that is neither empty nor a dot entry.\<close>

definition load_member :: "u64 \<Rightarrow> u64 \<Rightarrow> u8 list \<Rightarrow> 'a tmpfs_scheme \<Rightarrow> 'a tmpfs_scheme option" where
  "load_member ptr file_size path s =
     (let typeflag = mem s (ptr + tar_typeflag) in
      if typeflag = 53
      then do { (r, s1) \<leftarrow> fs_mkdir (Some path) 0x1ED s; Some s1 }
      else if typeflag = 48 \<or> typeflag = 0
      then do {
        s1 \<leftarrow> mkdir_prefixes 1 path (tl path) s;
        (fd, s2) \<leftarrow> fs_open (Some path) (O_CREAT OR O_WRONLY OR O_TRUNC) 0x1A4 [] s1;
        s3 \<leftarrow> (if 0 \<le> fd \<and> 0 < file_size
              then do { (r, t) \<leftarrow> fs_write fd (ptr + TAR_BLOCK_SIZE) file_size s2; Some t } else Some s2);
        if 0 \<le> fd then do { (r, s4) \<leftarrow> fs_close fd s3; Some s4 } else Some s3 }
      else Some s)"

definition member_path :: "memory \<Rightarrow> u64 \<Rightarrow> u8 list option" where
  "member_path m ptr = do {
     nm \<leftarrow> read_string m (ptr + tar_name);
     full \<leftarrow> (if m (ptr + tar_prefix) \<noteq> 0
             then do { pre \<leftarrow> read_string m (ptr + tar_prefix);
                       Some (cstr ''/initrd/'' @ pre @ [slash] @ nm) }
             else Some (cstr ''/initrd/'' @ nm));
     Some (clean_path 0 (take 255 full)) }"

partial_function (option) load_loop :: "u64 \<Rightarrow> u64 \<Rightarrow> 'a tmpfs_scheme \<Rightarrow> 'a tmpfs_scheme option" where
  "load_loop ptr end_ptr s =
     (if \<not> ptr + TAR_BLOCK_SIZE \<le> end_ptr then Some s
      else if \<forall>i \<in> set [0..<512]. mem s (ptr + of_nat i) = 0 then Some s
      else do {
        let file_size = oct_to_size (mem s) (ptr + tar_size) 12;
        nm \<leftarrow> read_string (mem s) (ptr + tar_name);
        if nm = [dot] \<or> nm = [dot, dot] then load_loop (tar_next ptr file_size) end_ptr s
        else do {
          path \<leftarrow> member_path (mem s) ptr;
          s1 \<leftarrow> load_member ptr file_size path s;
          load_loop (tar_next ptr file_size) end_ptr s1 } })"

definition load_initrd :: "u64 \<Rightarrow> u64 \<Rightarrow> 'a tmpfs_scheme \<Rightarrow> 'a tmpfs_scheme option" where
  "load_initrd base sz s = do {
     (r, s1) \<leftarrow> fs_mkdir (Some (cstr ''/initrd'')) 0x1ED s;
     s2 \<leftarrow> load_loop base (base + sz) s1;
     (dev_fd, s3) \<leftarrow> fs_open (Some (cstr ''/dev/initrd'')) (O_CREAT OR O_BUILTIN_DEVICE_FILE) 0x1A4
                        (cstr ''/initrd'') s2;
     if 0 \<le> dev_fd then do { (r, s4) \<leftarrow> fs_close dev_fd s3; Some s4 } else Some s3 }"

text \<open>
  \<open>list_initrd\<close>: the names come from the stack buffer at \<open>dents\<close>; the descriptor it
  opens is not closed.
\<close>

partial_function (option) list_loop :: "memory \<Rightarrow> u64 \<Rightarrow> u64 \<Rightarrow> u64 \<Rightarrow> u8 list \<Rightarrow> u8 list option" where
  "list_loop m dents off nread out =
     (if \<not> off < nread then Some out
      else do {
        nm \<leftarrow> read_string m (dents + off);
        list_loop m dents (off + of_nat (length nm) + 1) nread
          (if nm \<noteq> [dot] \<and> nm \<noteq> [dot, dot] then out @ nm @ [10, 13] else out) })"

definition list_initrd :: "u64 \<Rightarrow> 'a tmpfs_scheme \<Rightarrow> 'a tmpfs_scheme option" where
  "list_initrd dents s = do {
     (dfd, s1) \<leftarrow> fs_open (Some (cstr ''/initrd'')) O_DIRECTORY 0x1ED [] s;
     if dfd < 0 then Some s1
     else do {
       (nread, s2) \<leftarrow> fs_getdents dfd dents 512 s1;
       if nread \<le> 0 then Some s2
       else do {
         out \<leftarrow> list_loop (mem s2) dents 0 (of_int nread) [];
         Some (s2\<lparr>console := console s2 @ out\<rparr>) } } }"

end
