(* ===== verification/Tmpfs_Tree.thy ===== *)
theory Tmpfs_Tree
  imports Tmpfs
begin

text \<open>
  The directory tree of the file system: chains of siblings, the invariant \<open>tree_wf\<close> that
  ties the nodes to blocks of the heap in use, and the agreement of creating a path with looking
  it up.
\<close>

section \<open>Chains of siblings\<close>

fun chain :: "(u64 \<Rightarrow> node_struct) \<Rightarrow> u64 \<Rightarrow> u64 list \<Rightarrow> bool" where
  "chain ns p [] \<longleftrightarrow> p = 0"
| "chain ns p (x # xs) \<longleftrightarrow> p = x \<and> x \<noteq> 0 \<and> chain ns (n_next_sibling (ns x)) xs"

lemma chain_cong:
  assumes "\<forall>x \<in> set xs. n_next_sibling (ns' x) = n_next_sibling (ns x)"
  shows "chain ns' p xs = chain ns p xs"
  using assms by (induction xs arbitrary: p) auto

lemma chain_zero [simp]: "chain ns 0 xs \<longleftrightarrow> xs = []"
  by (cases xs) auto

text \<open>The first entry with the name, as \<open>find_child\<close> finds it.\<close>

fun first_named :: "(u64 \<Rightarrow> node_struct) \<Rightarrow> u8 list \<Rightarrow> u64 list \<Rightarrow> u64" where
  "first_named ns t [] = 0"
| "first_named ns t (x # xs) = (if n_name (ns x) = t then x else first_named ns t xs)"

lemma find_child_chain: "chain ns p xs \<Longrightarrow> find_child ns t p = Some (first_named ns t xs)"
proof (induction xs arbitrary: p)
  case (Cons x xs)
  then show ?case by (subst find_child.simps) auto
qed (simp add: find_child.simps)

lemma first_named_append:
  "0 \<notin> set xs \<Longrightarrow>
   first_named ns t (xs @ ys) = (if first_named ns t xs = 0 then first_named ns t ys else first_named ns t xs)"
  by (induction xs) auto

lemma first_named_cong:
  "\<forall>x \<in> set xs. n_name (ns' x) = n_name (ns x) \<Longrightarrow> first_named ns' t xs = first_named ns t xs"
  by (induction xs) auto

lemma first_named_mem: "first_named ns t xs \<noteq> 0 \<Longrightarrow>
    first_named ns t xs \<in> set xs \<and> n_name (ns (first_named ns t xs)) = t"
  by (induction xs) auto

lemma chain_nonzero: "chain ns p xs \<Longrightarrow> 0 \<notin> set xs"
  by (induction xs arbitrary: p) auto

lemma chain_last: "chain ns p xs \<Longrightarrow> xs \<noteq> [] \<Longrightarrow> n_next_sibling (ns (last xs)) = 0"
proof (induction xs arbitrary: p)
  case (Cons x xs)
  then show ?case by (cases xs) auto
qed simp

lemma last_sibling_chain: "chain ns p xs \<Longrightarrow> xs \<noteq> [] \<Longrightarrow> last_sibling ns p = Some (last xs)"
proof (induction xs arbitrary: p)
  case (Cons x xs)
  show ?case
  proof (cases "xs = []")
    case True
    then show ?thesis using Cons.prems by (subst last_sibling.simps) auto
  next
    case False
    then have "n_next_sibling (ns x) \<noteq> 0" using Cons.prems(1) by (cases xs) auto
    then show ?thesis using Cons False by (subst last_sibling.simps) auto
  qed
qed simp

lemma chain_end: "chain ns p xs \<Longrightarrow> y \<in> set xs \<Longrightarrow> n_next_sibling (ns y) = 0 \<Longrightarrow> y = last xs"
proof (induction xs arbitrary: p)
  case (Cons x xs)
  then show ?case by (cases xs) auto
qed simp

lemma chain_distinct: "chain ns p xs \<Longrightarrow> distinct xs"
proof (induction "length xs" arbitrary: p xs rule: less_induct)
  case less
  show ?case
  proof (cases xs)
    case (Cons x ys)
    have y: "chain ns (n_next_sibling (ns x)) ys" using less.prems Cons by simp
    have "x \<notin> set ys"
    proof
      assume "x \<in> set ys"
      then obtain as bs where sp: "ys = as @ x # bs" by (auto dest: split_list)
      have c: "chain ns q (as @ x # bs) \<Longrightarrow> chain ns (n_next_sibling (ns x)) bs" for q
        by (induction as arbitrary: q) auto
      have "chain ns (n_next_sibling (ns x)) bs" using c y sp by blast
      moreover have det: "chain ns q us \<Longrightarrow> chain ns q vs \<Longrightarrow> us = vs" for q us vs
      proof (induction us arbitrary: q vs)
        case (Cons u us)
        then show ?case by (cases vs) auto
      qed simp
      ultimately have "ys = bs" using y by blast
      then show False using sp by simp
    qed
    then show ?thesis using less.hyps [OF _ y] Cons by simp
  qed simp
qed

text \<open>Linking a fresh node behind the last entry \<open>y\<close> extends exactly the chains that end in \<open>y\<close>.\<close>

lemma chain_extend:
  assumes "chain ns q xs" and "n_next_sibling (ns y) = 0" and "p \<notin> set xs" and "p \<noteq> 0"
    and ns': "\<forall>x. x \<noteq> p \<longrightarrow> n_next_sibling (ns' x) = (if x = y then p else n_next_sibling (ns x))"
    and "n_next_sibling (ns' p) = 0" and "y \<noteq> p"
  shows "chain ns' q (if y \<in> set xs then xs @ [p] else xs)"
  using assms(1,3)
proof (induction xs arbitrary: q)
  case (Cons x xs)
  show ?case
  proof (cases "x = y")
    case True
    then have "y = last (x # xs)" using chain_end [OF Cons.prems(1), of y] assms(2) by simp
    then have "xs = []" using True chain_distinct [OF Cons.prems(1)] last_in_set [of xs] by (auto split: if_splits)
    then show ?thesis using Cons.prems True ns' assms(4,6,7) by auto
  next
    case False
    have "chain ns' (n_next_sibling (ns x)) (if y \<in> set xs then xs @ [p] else xs)"
      using Cons by auto
    moreover have "n_next_sibling (ns' x) = n_next_sibling (ns x)" using ns' False Cons.prems(2) by auto
    ultimately show ?thesis using Cons.prems(1) False by auto
  qed
qed simp

section \<open>The directory tree\<close>

text \<open>
  The nodes of the file system: each is a block of the heap in use, its links stay inside the
  set, and every directory has a finite list of entries.
\<close>

definition tree_wf :: "'a tmpfs_scheme \<Rightarrow> blk list \<Rightarrow> u64 set \<Rightarrow> bool" where
  "tree_wf s bs N \<longleftrightarrow> heap_inv s bs \<and> 0 \<notin> N \<and> root s \<in> N \<and> cwd s \<in> N \<and>
     (\<forall>n \<in> N. \<exists>k. node_size \<le> k \<and> (n - block_size, k) \<in> live bs) \<and>
     (\<forall>n \<in> N. n_parent (nodes s n) \<in> insert 0 N \<and>
        (\<exists>xs. chain (nodes s) (n_first_child (nodes s n)) xs \<and> set xs \<subseteq> N))"

lemma upd_node_simps [simp]:
  "mem (upd_node p f s) = mem s" "heap_base (upd_node p f s) = heap_base s"
  "heap_size (upd_node p f s) = heap_size s" "root (upd_node p f s) = root s"
  "cwd (upd_node p f s) = cwd s" "ftable (upd_node p f s) = ftable s"
  "console (upd_node p f s) = console s"
  "nodes (upd_node p f s) = (nodes s)(p := f (nodes s p))"
  by (simp_all add: upd_node_def)

lemma heap_inv_upd_node [simp]: "heap_inv (upd_node p f s) bs = heap_inv s bs"
  by (simp add: heap_inv_def)

text \<open>A lookup that succeeds keeps its result.\<close>

definition keeps_lookups :: "u64 set \<Rightarrow> 'a tmpfs_scheme \<Rightarrow> 'a tmpfs_scheme \<Rightarrow> bool" where
  "keeps_lookups N s s' \<longleftrightarrow> root s' = root s \<and> cwd s' = cwd s \<and> ftable s' = ftable s \<and>
     (\<forall>d \<in> N. n_parent (nodes s' d) = n_parent (nodes s d) \<and> n_name (nodes s' d) = n_name (nodes s d) \<and>
        (\<forall>t c. c \<noteq> 0 \<longrightarrow> find_child (nodes s) t (n_first_child (nodes s d)) = Some c \<longrightarrow>
           find_child (nodes s') t (n_first_child (nodes s' d)) = Some c))"

lemma keeps_lookups_refl: "keeps_lookups N s s"
  by (simp add: keeps_lookups_def)

lemma keeps_lookups_trans:
  "keeps_lookups N s s1 \<Longrightarrow> keeps_lookups N' s1 s2 \<Longrightarrow> N \<subseteq> N' \<Longrightarrow> keeps_lookups N s s2"
  unfolding keeps_lookups_def by (metis subsetD)

text \<open>
  A fresh node \<open>p\<close> that is appended to some lists of entries, those of \<open>cur\<close> among them.
\<close>

lemma tree_extend:
  assumes wf: "tree_wf s bs N" and cur: "cur \<in> N" and p: "p \<notin> N" "p \<noteq> 0"
    and blk: "node_size \<le> k" "(p - block_size, k) \<in> live bs"
    and node: "n_first_child (nodes s' p) = 0" "n_parent (nodes s' p) = cur"
    and same: "mem s' = mem s" "heap_base s' = heap_base s" "heap_size s' = heap_size s" "root s' = root s"
      "cwd s' = cwd s" "ftable s' = ftable s"
      "\<forall>d \<in> N. n_parent (nodes s' d) = n_parent (nodes s d) \<and> n_name (nodes s' d) = n_name (nodes s d)"
    and ext: "\<And>d xs. d \<in> N \<Longrightarrow> chain (nodes s) (n_first_child (nodes s d)) xs \<Longrightarrow> set xs \<subseteq> N \<Longrightarrow>
      \<exists>xs'. (xs' = xs @ [p] \<or> d \<noteq> cur \<and> xs' = xs) \<and> chain (nodes s') (n_first_child (nodes s' d)) xs'"
  shows "tree_wf s' bs (insert p N)" and "keeps_lookups N s s'"
    and "find_child (nodes s) (n_name (nodes s' p)) (n_first_child (nodes s cur)) = Some 0 \<Longrightarrow>
       find_child (nodes s') (n_name (nodes s' p)) (n_first_child (nodes s' cur)) = Some p"
proof -
  have inv: "heap_inv s' bs" using wf same(1-3) by (simp add: tree_wf_def heap_inv_def)
  have ch: "\<exists>xs. chain (nodes s) (n_first_child (nodes s d)) xs \<and> set xs \<subseteq> N" if "d \<in> N" for d
    using wf that by (auto simp: tree_wf_def)
  have "\<exists>xs. chain (nodes s') (n_first_child (nodes s' d)) xs \<and> set xs \<subseteq> insert p N" if d: "d \<in> N" for d
  proof -
    obtain xs where xs: "chain (nodes s) (n_first_child (nodes s d)) xs" "set xs \<subseteq> N" using ch [OF d] by blast
    obtain xs' where "xs' = xs @ [p] \<or> d \<noteq> cur \<and> xs' = xs" "chain (nodes s') (n_first_child (nodes s' d)) xs'"
      using ext [OF d xs] by blast
    then show ?thesis using xs(2) by (intro exI [of _ xs']) auto
  qed
  then show "tree_wf s' bs (insert p N)"
    using wf inv cur p blk node same(4-7) unfolding tree_wf_def by (auto intro: exI [of _ "[]"])
  have names: "first_named (nodes s') t xs = first_named (nodes s) t xs" if "set xs \<subseteq> N" for t xs
    using same(7) that by (intro first_named_cong) blast
  show "keeps_lookups N s s'"
    unfolding keeps_lookups_def
  proof (intro conjI ballI allI impI)
    fix d t c
    assume d: "d \<in> N" and c: "c \<noteq> 0" "find_child (nodes s) t (n_first_child (nodes s d)) = Some c"
    obtain xs where xs: "chain (nodes s) (n_first_child (nodes s d)) xs" "set xs \<subseteq> N" using ch [OF d] by blast
    obtain xs' where xs': "xs' = xs @ [p] \<or> xs' = xs" "chain (nodes s') (n_first_child (nodes s' d)) xs'"
      using ext [OF d xs] by blast
    have "first_named (nodes s) t xs = c" using find_child_chain [OF xs(1)] c(2) by simp
    then have "first_named (nodes s') t xs' = c"
      using xs'(1) names [OF xs(2)] c(1) chain_nonzero [OF xs(1)] by (auto simp: first_named_append)
    then show "find_child (nodes s') t (n_first_child (nodes s' d)) = Some c"
      using find_child_chain [OF xs'(2)] by simp
  qed (use same in auto)
  assume none: "find_child (nodes s) (n_name (nodes s' p)) (n_first_child (nodes s cur)) = Some 0"
  obtain xs where xs: "chain (nodes s) (n_first_child (nodes s cur)) xs" "set xs \<subseteq> N" using ch [OF cur] by blast
  have xs': "chain (nodes s') (n_first_child (nodes s' cur)) (xs @ [p])" using ext [OF cur xs] by blast
  have "first_named (nodes s') (n_name (nodes s' p)) (xs @ [p]) = p"
    using none find_child_chain [OF xs(1)] names [OF xs(2)] chain_nonzero [OF xs(1)]
    by (simp add: first_named_append)
  then show "find_child (nodes s') (n_name (nodes s' p)) (n_first_child (nodes s' cur)) = Some p"
    using find_child_chain [OF xs'] by simp
qed

lemma append_child_spec:
  assumes wf: "tree_wf s bs N" and cur: "cur \<in> N" and p: "p \<notin> N" "p \<noteq> 0"
    and blk: "node_size \<le> k" "(p - block_size, k) \<in> live bs"
    and v: "n_first_child v = 0" "n_next_sibling v = 0" "n_parent v = cur"
  obtains s' where "append_child cur p (upd_node p (\<lambda>_. v) s) = Some s'" "tree_wf s' bs (insert p N)"
    "keeps_lookups N s s'" "nodes s' p = v" "mem s' = mem s"
    "find_child (nodes s) (n_name v) (n_first_child (nodes s cur)) = Some 0 \<Longrightarrow>
       find_child (nodes s') (n_name v) (n_first_child (nodes s' cur)) = Some p"
proof -
  let ?s0 = "upd_node p (\<lambda>_. v) s"
  have cp: "cur \<noteq> p" using cur p by auto
  obtain xs where xs: "chain (nodes s) (n_first_child (nodes s cur)) xs" "set xs \<subseteq> N"
    using wf cur by (auto simp: tree_wf_def)
  show thesis
  proof (cases "xs = []")
    case True
    let ?s' = "upd_node cur (\<lambda>x. x\<lparr>n_first_child := p\<rparr>) ?s0"
    have z: "n_first_child (nodes s cur) = 0" using xs True by simp
    have ap: "append_child cur p ?s0 = Some ?s'" using z cp by (simp add: append_child_def)
    have ext: "\<exists>xs'. (xs' = zs @ [p] \<or> d \<noteq> cur \<and> xs' = zs) \<and> chain (nodes ?s') (n_first_child (nodes ?s' d)) xs'"
      if d: "d \<in> N" and zs: "chain (nodes s) (n_first_child (nodes s d)) zs" "set zs \<subseteq> N" for d zs
    proof (cases "d = cur")
      case True
      then have "zs = []" using zs(1) z by simp
      then show ?thesis using True p cp v by (intro exI [of _ "[p]"]) simp
    next
      case False
      have "chain (nodes ?s') q zs = chain (nodes s) q zs" for q
        using zs(2) p(1) by (intro chain_cong) auto
      then show ?thesis using zs(1) False d p(1) by (intro exI [of _ zs]) auto
    qed
    have "n_first_child (nodes ?s' p) = 0" "n_parent (nodes ?s' p) = cur" "nodes ?s' p = v"
      using v cp by simp_all
    moreover have "\<forall>d \<in> N. n_parent (nodes ?s' d) = n_parent (nodes s d) \<and> n_name (nodes ?s' d) = n_name (nodes s d)"
      using p(1) by auto
    ultimately show thesis
      using tree_extend [OF wf cur p blk _ _ _ _ _ _ _ _ _ ext] ap by (intro that [of ?s']) simp_all
  next
    case False
    let ?y = "last xs"
    let ?s' = "upd_node ?y (\<lambda>x. x\<lparr>n_next_sibling := p\<rparr>) ?s0"
    have yN: "?y \<in> N" using xs(2) False last_in_set by blast
    have yp: "?y \<noteq> p" using yN p(1) by auto
    have fc: "n_first_child (nodes s cur) \<noteq> 0" using xs(1) False by (cases xs) auto
    have "chain (nodes ?s0) (n_first_child (nodes s cur)) xs"
      using xs p(1) by (subst chain_cong [of _ _ "nodes s"]) auto
    then have ls: "last_sibling (nodes ?s0) (n_first_child (nodes ?s0 cur)) = Some ?y"
      using last_sibling_chain False cp by simp
    have ap: "append_child cur p ?s0 = Some ?s'" using fc ls cp by (simp add: append_child_def)
    have ext: "\<exists>xs'. (xs' = zs @ [p] \<or> d \<noteq> cur \<and> xs' = zs) \<and> chain (nodes ?s') (n_first_child (nodes ?s' d)) xs'"
      if d: "d \<in> N" and zs: "chain (nodes s) (n_first_child (nodes s d)) zs" "set zs \<subseteq> N" for d zs
    proof -
      have "chain (nodes ?s') (n_first_child (nodes s d)) (if ?y \<in> set zs then zs @ [p] else zs)"
        using zs p yp v chain_last [OF xs(1) False] by (intro chain_extend [OF zs(1)]) auto
      moreover have "n_first_child (nodes ?s' d) = n_first_child (nodes s d)" using d p(1) by auto
      moreover have "?y \<in> set zs" if "d = cur"
      proof -
        have "chain ns q us \<Longrightarrow> chain ns q ws \<Longrightarrow> us = ws" for ns q us ws
        proof (induction us arbitrary: q ws)
          case (Cons u us)
          then show ?case by (cases ws) auto
        qed simp
        then have "zs = xs" using zs(1) xs(1) that by blast
        then show ?thesis using False by simp
      qed
      ultimately show ?thesis by (intro exI [of _ "if ?y \<in> set zs then zs @ [p] else zs"]) auto
    qed
    have "n_first_child (nodes ?s' p) = 0" "n_parent (nodes ?s' p) = cur" "nodes ?s' p = v"
      using v yp by simp_all
    moreover have "\<forall>d \<in> N. n_parent (nodes ?s' d) = n_parent (nodes s d) \<and> n_name (nodes ?s' d) = n_name (nodes s d)"
      using p(1) by auto
    ultimately show thesis
      using tree_extend [OF wf cur p blk _ _ _ _ _ _ _ _ _ ext] ap by (intro that [of ?s']) simp_all
  qed
qed

lemma malloc_tree:
  assumes wf: "tree_wf s bs N"
  obtains p m' bs' where "malloc n s = Some (p, s\<lparr>mem := m'\<rparr>)" "tree_wf (s\<lparr>mem := m'\<rparr>) bs' N"
    "live bs \<subseteq> live bs'" "intact 0 bs (mem s) bs' m'"
    "p \<noteq> 0 \<Longrightarrow> p \<notin> N \<and> (\<exists>k. n \<le> k \<and> (p - block_size, k) \<in> live bs')"
proof -
  have inv: "heap_inv s bs" using wf by (simp add: tree_wf_def)
  obtain p m' bs' where r: "malloc n s = Some (p, s\<lparr>mem := m'\<rparr>)" "heap_inv (s\<lparr>mem := m'\<rparr>) bs'"
    "heap_writes bs (mem s) m'" "if p = 0 then m' = mem s \<and> bs' = bs \<and> (\<forall>b \<in> set bs. \<not> fitting n b)
      else fresh_block n p bs bs'"
    using malloc_live [OF inv, of n] by blast
  have sub: "live bs \<subseteq> live bs'" using r(4) by (cases "p = 0") (auto simp: fresh_block_def)
  have it: "intact 0 bs (mem s) bs' m'" using r fresh_block_intact [OF inv] by (cases "p = 0") auto
  have blocks: "\<forall>q \<in> N. \<exists>k. node_size \<le> k \<and> (q - block_size, k) \<in> live bs'"
    using wf sub unfolding tree_wf_def by blast
  have "tree_wf (s\<lparr>mem := m'\<rparr>) bs' N"
    using wf r(2) blocks unfolding tree_wf_def by (simp del: inv_update_mem)
  moreover have "p \<notin> N \<and> (\<exists>k. n \<le> k \<and> (p - block_size, k) \<in> live bs')" if "p \<noteq> 0"
  proof -
    have "fresh_block n p bs bs'" using r(4) that by (simp only: if_False)
    then obtain a l where a: "p = a + block_size" "n \<le> l" "(a, l, False) \<in> set bs'" "a \<notin> fst ` live bs"
      unfolding fresh_block_def by blast
    have "p \<notin> N"
    proof
      assume "p \<in> N"
      then obtain k where "(a, k) \<in> live bs" using wf a(1) by (auto simp: tree_wf_def)
      then show False using a(4) by force
    qed
    then show ?thesis using a(1-3) by (auto simp: live_def)
  qed
  ultimately show thesis using that r(1) sub it by blast
qed

lemma resolve_keeps:
  assumes "keeps_lookups N s s'" and "tree_wf s bs N" and "cur \<in> N"
    and "resolve_loop (nodes s) cur toks = Some n" and "n \<noteq> 0"
  shows "resolve_loop (nodes s') cur toks = Some n"
  using assms(3,4)
proof (induction toks arbitrary: cur)
  case (Cons t toks)
  have par: "n_parent (nodes s' cur) = n_parent (nodes s cur)" "n_parent (nodes s cur) \<in> insert 0 N"
    using assms(1,2) Cons.prems(1) by (auto simp: keeps_lookups_def tree_wf_def)
  show ?case
  proof (cases "t = [dot] \<or> t = [dot, dot]")
    case True
    then show ?thesis using Cons.IH Cons.prems par by (auto simp: dot_def split: if_splits)
  next
    case False
    obtain xs where xs: "chain (nodes s) (n_first_child (nodes s cur)) xs" "set xs \<subseteq> N"
      using assms(2) Cons.prems(1) by (auto simp: tree_wf_def)
    let ?c = "first_named (nodes s) t xs"
    have f: "find_child (nodes s) t (n_first_child (nodes s cur)) = Some ?c" by (rule find_child_chain [OF xs(1)])
    have c: "?c \<noteq> 0" using Cons.prems(2) False f assms(5) by (auto split: if_splits)
    then have "?c \<in> N" using first_named_mem xs(2) by blast
    moreover have "find_child (nodes s') t (n_first_child (nodes s' cur)) = Some ?c"
      using assms(1) Cons.prems(1) f c by (auto simp: keeps_lookups_def)
    ultimately show ?thesis using Cons.IH [of ?c] Cons.prems(2) False f c by simp
  qed
qed simp

lemma create_loop_spec:
  assumes "tree_wf s bs N" and "cur \<in> N"
  shows "\<exists>n s' bs' N'. create_loop dir mode cur toks s = Some (n, s') \<and> tree_wf s' bs' N' \<and> N \<subseteq> N' \<and>
    keeps_lookups N s s' \<and> intact 0 bs (mem s) bs' (mem s') \<and> n \<in> insert 0 N' \<and>
    (n \<noteq> 0 \<and> (\<forall>t \<in> set toks. length t \<le> 127) \<longrightarrow> resolve_loop (nodes s') cur toks = Some n)"
  using assms
proof (induction toks arbitrary: cur s bs N)
  case Nil
  have "create_loop dir mode cur [] s = Some (cur, s)" by simp
  then show ?case
    using Nil keeps_lookups_refl [of N s]
    by (intro exI [of _ cur] exI [of _ s] exI [of _ bs] exI [of _ N]) simp
next
  case (Cons t toks)
  have par: "n_parent (nodes s cur) \<in> insert 0 N" using Cons.prems by (auto simp: tree_wf_def)
  show ?case
  proof (cases "t = [dot] \<or> t = [dot, dot]")
    case True
    let ?cur = "if t = [dot] then cur else if n_parent (nodes s cur) \<noteq> 0 then n_parent (nodes s cur) else cur"
    have cN: "?cur \<in> N" using Cons.prems(2) par by auto
    obtain n s' bs' N' where IH: "create_loop dir mode ?cur toks s = Some (n, s')" "tree_wf s' bs' N'" "N \<subseteq> N'"
      "keeps_lookups N s s'" "intact 0 bs (mem s) bs' (mem s')" "n \<in> insert 0 N'"
      "n \<noteq> 0 \<and> (\<forall>t \<in> set toks. length t \<le> 127) \<longrightarrow> resolve_loop (nodes s') ?cur toks = Some n"
      using Cons.IH [OF Cons.prems(1) cN] by metis
    have c: "create_loop dir mode cur (t # toks) s = create_loop dir mode ?cur toks s"
      using True by (auto simp: dot_def)
    have "n_parent (nodes s' cur) = n_parent (nodes s cur)"
      using IH(4) Cons.prems(2) by (simp add: keeps_lookups_def)
    then have "resolve_loop (nodes s') cur (t # toks) = resolve_loop (nodes s') ?cur toks"
      using True by (auto simp: dot_def)
    then show ?thesis
      using c IH by (intro exI [of _ n] exI [of _ s'] exI [of _ bs'] exI [of _ N']) simp
  next
    case False
    obtain xs where xs: "chain (nodes s) (n_first_child (nodes s cur)) xs" "set xs \<subseteq> N"
      using Cons.prems by (auto simp: tree_wf_def)
    let ?c = "first_named (nodes s) t xs"
    have f: "find_child (nodes s) t (n_first_child (nodes s cur)) = Some ?c" by (rule find_child_chain [OF xs(1)])
    show ?thesis
    proof (cases "?c = 0")
      case found: False
      have cN: "?c \<in> N" using first_named_mem [OF found] xs(2) by blast
      obtain n s' bs' N' where IH: "create_loop dir mode ?c toks s = Some (n, s')" "tree_wf s' bs' N'" "N \<subseteq> N'"
        "keeps_lookups N s s'" "intact 0 bs (mem s) bs' (mem s')" "n \<in> insert 0 N'"
        "n \<noteq> 0 \<and> (\<forall>t \<in> set toks. length t \<le> 127) \<longrightarrow> resolve_loop (nodes s') ?c toks = Some n"
        using Cons.IH [OF Cons.prems(1) cN] by metis
      have "find_child (nodes s') t (n_first_child (nodes s' cur)) = Some ?c"
        using IH(4) Cons.prems(2) f found by (auto simp: keeps_lookups_def)
      then have "resolve_loop (nodes s') cur (t # toks) = resolve_loop (nodes s') ?c toks"
        using False found by simp
      moreover have "create_loop dir mode cur (t # toks) s = Some (n, s')" using False f found IH(1) by simp
      ultimately show ?thesis
        using IH by (intro exI [of _ n] exI [of _ s'] exI [of _ bs'] exI [of _ N']) simp
    next
      case none: True
      obtain p m1 bs1 where m: "malloc node_size s = Some (p, s\<lparr>mem := m1\<rparr>)" "tree_wf (s\<lparr>mem := m1\<rparr>) bs1 N"
        "live bs \<subseteq> live bs1" "intact 0 bs (mem s) bs1 m1"
        "p \<noteq> 0 \<Longrightarrow> p \<notin> N \<and> (\<exists>k. node_size \<le> k \<and> (p - block_size, k) \<in> live bs1)"
        using malloc_tree [OF Cons.prems(1)] by blast
      let ?s1 = "s\<lparr>mem := m1\<rparr>"
      show ?thesis
      proof (cases "p = 0")
        case True
        have "create_loop dir mode cur (t # toks) s = Some (0, ?s1)" using False f none m(1) True by simp
        then show ?thesis
          using m(2,4) by (intro exI [of _ 0] exI [of _ ?s1] exI [of _ bs1] exI [of _ N])
            (simp add: keeps_lookups_def)
      next
        case p0: False
        obtain k where k: "p \<notin> N" "node_size \<le> k" "(p - block_size, k) \<in> live bs1" using m(5) [OF p0] by blast
        let ?v = "if toks = [] then new_node cur t dir mode else new_node cur t True 0x1ED"
        have v: "n_first_child ?v = 0" "n_next_sibling ?v = 0" "n_parent ?v = cur" "n_name ?v = take 127 t"
          by (simp_all add: new_node_def)
        obtain s2 where a: "append_child cur p (upd_node p (\<lambda>_. ?v) ?s1) = Some s2" "tree_wf s2 bs1 (insert p N)"
          "keeps_lookups N ?s1 s2" "nodes s2 p = ?v" "mem s2 = mem ?s1"
          "find_child (nodes ?s1) (n_name ?v) (n_first_child (nodes ?s1 cur)) = Some 0 \<Longrightarrow>
             find_child (nodes s2) (n_name ?v) (n_first_child (nodes s2 cur)) = Some p"
          using append_child_spec [OF m(2) Cons.prems(2) k(1) p0 k(2,3) v(1-3)] by blast
        obtain n s' bs' N' where IH: "create_loop dir mode p toks s2 = Some (n, s')" "tree_wf s' bs' N'"
          "insert p N \<subseteq> N'" "keeps_lookups (insert p N) s2 s'" "intact 0 bs1 (mem s2) bs' (mem s')" "n \<in> insert 0 N'"
          "n \<noteq> 0 \<and> (\<forall>t \<in> set toks. length t \<le> 127) \<longrightarrow> resolve_loop (nodes s') p toks = Some n"
          using Cons.IH [OF a(2) insertI1] by metis
        have c: "create_loop dir mode cur (t # toks) s = Some (n, s')"
          using False f none m(1) p0 a(1) IH(1) by simp
        have keep: "keeps_lookups N s s'"
        proof (rule keeps_lookups_trans [OF _ IH(4)])
          show "keeps_lookups N s s2" using a(3) by (simp add: keeps_lookups_def)
        qed blast
        have "resolve_loop (nodes s') cur (t # toks) = Some n"
          if "n \<noteq> 0" "\<forall>t \<in> set (t # toks). length t \<le> 127"
        proof -
          have "find_child (nodes s2) t (n_first_child (nodes s2 cur)) = Some p"
            using a(6) f none v(4) that(2) by simp
          then have "find_child (nodes s') t (n_first_child (nodes s' cur)) = Some p"
            using IH(4) Cons.prems(2) p0 by (auto simp: keeps_lookups_def)
          then show ?thesis using IH(7) that False p0 by simp
        qed
        moreover have "intact 0 bs (mem s) bs' (mem s')" using intact_trans [OF m(4)] IH(5) a(5) by simp
        ultimately show ?thesis
          using c keep IH(2,3,6) by (intro exI [of _ n] exI [of _ s'] exI [of _ bs'] exI [of _ N']) simp
      qed
    qed
  qed
qed

lemma initialise_tree:
  assumes inv: "heap_inv s bs" and p: "fst (spec_malloc node_size bs) = p" "p \<noteq> 0"
  shows "\<exists>s' bs'. fs_initialise s = Some s' \<and> tree_wf s' bs' {p} \<and> root s' = p \<and> cwd s' = p \<and>
    n_first_child (nodes s' p) = 0 \<and> n_is_dir (nodes s' p) \<and> length (ftable s') = 256 \<and>
    (\<forall>i<256. f_free (ftable s' ! i) \<and> f_node (ftable s' ! i) = 0) \<and> intact 0 bs (mem s) bs' (mem s')"
proof -
  let ?s1 = "s\<lparr>ftable := map (\<lambda>i. (ftable s ! i)\<lparr>f_fd := int i, f_free := True, f_node := 0\<rparr>) [0..<256]\<rparr>"
  have inv1: "heap_inv ?s1 bs" using inv by (simp add: heap_inv_def)
  obtain q m' bs' where r: "malloc node_size ?s1 = Some (q, ?s1\<lparr>mem := m'\<rparr>)" "heap_inv (?s1\<lparr>mem := m'\<rparr>) bs'"
    "heap_writes bs (mem ?s1) m'" "if q = 0 then m' = mem ?s1 \<and> bs' = bs \<and> (\<forall>b \<in> set bs. \<not> fitting node_size b)
      else fresh_block node_size q bs bs'"
    using malloc_live [OF inv1, of node_size] by blast
  have q: "q = p" using malloc_refines [OF inv1, of node_size] r(1) p(1) by auto
  have fr: "fresh_block node_size q bs bs'" using r(4) q p(2) by simp
  then obtain a l where a: "q = a + block_size" "node_size \<le> l" "(a, l, False) \<in> set bs'"
    unfolding fresh_block_def by blast
  have it: "intact 0 bs (mem s) bs' m'" using fresh_block_intact [OF inv1 r(3) fr] by simp
  show ?thesis
    using r(1,2) a p(2) q it
    by (simp add: fs_initialise_def tree_wf_def live_def upd_node_def heap_inv_def) blast
qed

lemma create_at_path_spec:
  assumes wf: "tree_wf s bs N" and path: "path \<noteq> []"
  obtains n s' bs' N' where "create_at_path (Some path) dir mode s = Some (n, s')" "tree_wf s' bs' N'" "N \<subseteq> N'"
    "keeps_lookups N s s'" "intact 0 bs (mem s) bs' (mem s')" "n \<in> insert 0 N'"
    "n \<noteq> 0 \<Longrightarrow> \<forall>t \<in> set (path_tokens (Some (take 511 path))). length t \<le> 127 \<Longrightarrow>
       resolve_path (Some path) s' = Some n"
proof -
  let ?base = "if hd path = slash then root s else cwd s"
  have b: "?base \<in> N" "cwd s \<noteq> 0" using wf by (auto simp: tree_wf_def)
  have hd: "hd (take 511 path) = hd path" using path by (cases path) simp_all
  obtain n s' bs' N' where r: "create_loop dir mode ?base (path_tokens (Some (take 511 path))) s = Some (n, s')"
    "tree_wf s' bs' N'" "N \<subseteq> N'" "keeps_lookups N s s'" "intact 0 bs (mem s) bs' (mem s')" "n \<in> insert 0 N'"
    "n \<noteq> 0 \<and> (\<forall>t \<in> set (path_tokens (Some (take 511 path))). length t \<le> 127) \<longrightarrow>
       resolve_loop (nodes s') ?base (path_tokens (Some (take 511 path))) = Some n"
    using create_loop_spec [OF wf b(1)] by metis
  have "create_at_path (Some path) dir mode s = Some (n, s')"
    using r(1) b(2) path hd by (simp add: create_at_path_def create_at_path_internal_def Let_def)
  moreover have "resolve_path (Some path) s' = resolve_loop (nodes s') ?base (path_tokens (Some (take 511 path)))"
    using r(4) b(2) path by (simp add: resolve_path_def resolve_path_internal_def keeps_lookups_def)
  ultimately show thesis using that r(2-7) by simp
qed

text \<open>
  C6. Creating a path and looking it up agree: on a well-formed tree \<open>create_at_path\<close>
  returns, keeps the tree well formed, keeps every block of the heap in use with its content and
  the result of every lookup that succeeded before; and when it yields a node, \<open>resolve_path\<close>
  of the same path finds that node, provided no component is longer than the 127 bytes a name holds.
\<close>

theorem create_then_resolve:
  assumes "tree_wf s bs N" and "path \<noteq> []"
    and "\<forall>t \<in> set (path_tokens (Some (take 511 path))). length t \<le> 127"
  shows "\<exists>n s' bs' N'. create_at_path (Some path) dir mode s = Some (n, s') \<and> tree_wf s' bs' N' \<and>
    intact 0 bs (mem s) bs' (mem s') \<and> keeps_lookups N s s' \<and>
    (n \<noteq> 0 \<longrightarrow> resolve_path (Some path) s' = Some n) \<and>
    (\<forall>other k. resolve_path (Some other) s = Some k \<and> k \<noteq> 0 \<longrightarrow> resolve_path (Some other) s' = Some k)"
proof -
  obtain n s' bs' N' where r: "create_at_path (Some path) dir mode s = Some (n, s')" "tree_wf s' bs' N'"
    "keeps_lookups N s s'" "intact 0 bs (mem s) bs' (mem s')"
    "n \<noteq> 0 \<Longrightarrow> resolve_path (Some path) s' = Some n"
    using create_at_path_spec [OF assms(1,2)] assms(3) by metis
  have "resolve_path (Some other) s' = Some k" if k: "resolve_path (Some other) s = Some k" "k \<noteq> 0" for other k
  proof -
    let ?b = "if other \<noteq> [] \<and> hd other = slash then root s else cwd s"
    have b: "?b \<in> N" "cwd s \<noteq> 0" "root s' = root s" "cwd s' = cwd s"
      using assms(1) r(3) by (auto simp: tree_wf_def keeps_lookups_def)
    have "resolve_loop (nodes s) ?b (path_tokens (Some (take 511 other))) = Some k"
      using k(1) b(2) by (simp add: resolve_path_def resolve_path_internal_def)
    from resolve_keeps [OF r(3) assms(1) b(1) this k(2)] show ?thesis
      using b(2) unfolding resolve_path_def resolve_path_internal_def b(3,4) by simp
  qed
  then show ?thesis using r by blast
qed

definition demo_fs_off :: tmpfs where
  "demo_fs_off = heap.extend demo_heap
     \<lparr>root = 0, cwd = 0,
      ftable = replicate 256 \<lparr>f_fd = 0, f_node = 0, f_offset = 0, f_flags = 0, f_mode = 0,
        f_is_dirent = False, f_free = False\<rparr>,
      nodes = (\<lambda>_. new_node 0 [] False 0), console = []\<rparr>"

lemma demo_fs:
  obtains s bs where "fs_initialise demo_fs_off = Some s" "tree_wf s bs {0x200090}"
    "n_first_child (nodes s 0x200090) = 0" "root s = 0x200090" "cwd s = 0x200090" "length (ftable s) = 256"
    "\<forall>i<256. f_free (ftable s ! i) \<and> f_node (ftable s ! i) = 0" "n_is_dir (nodes s 0x200090)"
proof -
  have inv: "heap_inv demo_fs_off demo_blocks"
    using demo_heap_inv by (simp add: demo_fs_off_def heap.defs heap_inv_def)
  have "fst (spec_malloc node_size demo_blocks) = 0x200090"
    by (simp add: spec_malloc_def demo_blocks_def block_size_def node_size_def)
  from initialise_tree [OF inv this] show thesis using that by auto
qed

lemma demo_tokens: "path_tokens (Some (take 511 (cstr ''/a/b''))) = [cstr ''a'', cstr ''b'']"
  by (simp add: path_tokens.simps next_token_def slash_def)

theorem create_then_resolve_witness:
  "\<exists>s n s'. fs_initialise demo_fs_off = Some s \<and>
     create_at_path (Some (cstr ''/a/b'')) True 0x1ED s = Some (n, s') \<and>
     (n \<noteq> 0 \<longrightarrow> resolve_path (Some (cstr ''/a/b'')) s' = Some n)"
proof -
  obtain s bs where d: "fs_initialise demo_fs_off = Some s" "tree_wf s bs {0x200090}" using demo_fs by metis
  have "\<forall>t \<in> set (path_tokens (Some (take 511 (cstr ''/a/b'')))). length t \<le> 127"
    unfolding demo_tokens by simp
  from create_then_resolve [OF d(2) _ this, of True "0x1ED"] d(1) show ?thesis by auto
qed

end
