(* ===== verification/Tmpfs_Files.thy ===== *)
theory Tmpfs_Files
  imports Tmpfs_Tree
begin

text \<open>
  File contents: what \<open>write\<close>, \<open>lseek\<close> and \<open>read\<close> do to the bytes of a file
  on top of the reallocation of its block, and the behaviour of the operations on directories
  and descriptors.
\<close>

section \<open>Memory outside the heap\<close>

definition outside_heap :: "'a heap_scheme \<Rightarrow> u64 \<Rightarrow> bool" where
  "outside_heap s x \<longleftrightarrow> unat x < unat (heap_base s) \<or> unat (heap_base s) + unat (heap_size s) \<le> unat x"

lemma heap_writes_outside:
  assumes "heap_inv s bs" and "heap_writes bs (mem s) m'" and "outside_heap s x"
  shows "m' x = mem s x"
proof (rule heap_writes_kept(2) [OF _ _ assms(2)])
  show "laid (unat (heap_base s)) (unat (heap_base s) + unat (heap_size s)) bs"
    "unat (heap_base s) + unat (heap_size s) < 2 ^ 64"
    using assms(1) by (simp_all add: heap_inv_def)
qed (use assms(3) in \<open>simp add: outside_heap_def\<close>)

lemma block_inside:
  assumes inv: "heap_inv s bs" and b: "(a, l, f) \<in> set bs" and x: "in_region (a + block_size) l x"
  shows "\<not> outside_heap s x"
proof -
  let ?lo = "unat (heap_base s)" and ?hi = "unat (heap_base s) + unat (heap_size s)"
  have ld: "laid ?lo ?hi bs" "?hi < 2 ^ 64" using inv by (auto simp: heap_inv_def)
  then show ?thesis
    using laid_mem [OF ld(1) b] block_nat(2) [OF ld b] x by (auto simp: outside_heap_def)
qed

lemma malloc_outside:
  assumes "heap_inv s bs" and "malloc n s = Some (p, s')" and "outside_heap s x"
  shows "mem s' x = mem s x"
proof -
  obtain m' where m': "malloc n s = Some (fst (spec_malloc n bs), s\<lparr>mem := m'\<rparr>)" "heap_writes bs (mem s) m'"
    using malloc_refines [OF assms(1), of n] by blast
  then have "s' = s\<lparr>mem := m'\<rparr>" using assms(2) by simp
  then show ?thesis using heap_writes_outside [OF assms(1) m'(2) assms(3)] by simp
qed

lemma realloc_outside:
  assumes inv: "heap_inv s bs" and b: "(a, l, False) \<in> set bs" and n: "n \<noteq> 0"
    and r: "realloc (a + block_size) n s = Some (p, s')" and x: "outside_heap s x"
  shows "mem s' x = mem s x"
proof -
  note fnd = find_block_at [OF inv b] and blk = block_of [OF inv b] and ptr = heap_base_ptr(2) [OF inv b]
  show ?thesis
  proof (cases "n \<le> l")
    case True
    have "s' = s\<lparr>mem := set_length a n (mem s)\<rparr>" using r fnd blk ptr n True by (simp add: realloc_def)
    then show ?thesis
      using heap_writes_outside [OF inv header_writes_heap [OF header_length_writes [OF b]] x] by simp
  next
    case False
    obtain q m1 bs1 where m: "malloc n s = Some (q, s\<lparr>mem := m1\<rparr>)" "heap_inv (s\<lparr>mem := m1\<rparr>) bs1"
      "if q = 0 then m1 = mem s \<and> bs1 = bs \<and> (\<forall>b \<in> set bs. \<not> fitting n b) else fresh_block n q bs bs1"
      using malloc_live [OF inv, of n] by blast
    have x1: "m1 x = mem s x" using malloc_outside [OF inv m(1) x] by simp
    show ?thesis
    proof (cases "q = 0")
      case True
      then have "s' = s\<lparr>mem := m1\<rparr>" using r fnd blk ptr n False m(1) by (simp add: realloc_def)
      then show ?thesis using x1 by simp
    next
      case q: False
      obtain c k where c: "q = c + block_size" "n \<le> k" "(c, k, False) \<in> set bs1" "c \<notin> fst ` live bs"
        "live bs1 = insert (c, k) (live bs)" using m(3) q unfolding fresh_block_def by auto
      have ca: "a \<noteq> c" using c(4) b by (force simp: live_def)
      have b1: "(a, l, False) \<in> set bs1" using c(5) b by (simp add: live_mem [symmetric])
      let ?s2 = "s\<lparr>mem := copied m1 q (a + block_size) l\<rparr>"
      have d: "l \<le> q - (a + block_size)" unfolding c(1) by (rule payload_distance [OF m(2) b1 c(3) ca])
      have lk: "l \<le> k" using False c(2) by simp
      have inv2: "heap_inv ?s2 bs1"
        using payload_write_intact(1) [OF m(2) c(3) lk, of "copied m1 q (a + block_size) l"]
        by (simp add: c(1) copied_def)
      obtain m3 where f: "heap_free (a + block_size) ?s2 = Some (?s2\<lparr>mem := m3\<rparr>)" "header_writes bs1 (mem ?s2) m3"
        using heap_free_spec [OF inv2] by blast
      have "realloc (a + block_size) n s = Some (q, s\<lparr>mem := m3\<rparr>)"
        using m(1) ptr fnd blk block_of(1) [OF m(2) b1] n False q f(1) memcpy_copy [OF d, of m1]
        by (simp add: realloc_def)
      then have "s' = s\<lparr>mem := m3\<rparr>" using r by simp
      moreover have "m3 x = mem ?s2 x"
        using heap_writes_outside [OF inv2 header_writes_heap [OF f(2)]] x by (simp add: outside_heap_def)
      moreover have "\<not> in_region q l x"
      proof
        assume "in_region q l x"
        then have "in_region (c + block_size) k x" using in_region_mono [OF lk] c(1) by simp
        from block_inside [OF m(2) c(3) this] x show False by (simp add: outside_heap_def)
      qed
      ultimately show ?thesis using x1 by (simp add: copied_def)
    qed
  qed
qed

section \<open>Reading and writing files\<close>

definition file_bytes :: "'a tmpfs_scheme \<Rightarrow> u64 \<Rightarrow> u8 list" where
  "file_bytes s p = mem_bytes (mem s) (n_content (nodes s p)) (unat (n_size (nodes s p)))"

text \<open>A file without content, or with a block of the heap that holds all of it.\<close>

definition file_ok :: "'a tmpfs_scheme \<Rightarrow> blk list \<Rightarrow> u64 \<Rightarrow> bool" where
  "file_ok s bs p \<longleftrightarrow>
     (if n_content (nodes s p) = 0 then n_size (nodes s p) = 0
      else \<exists>k. (n_content (nodes s p) - block_size, k) \<in> live bs \<and> n_size (nodes s p) \<le> k)"

lemma upd_fd_simps [simp]:
  "mem (upd_fd fd f s) = mem s" "nodes (upd_fd fd f s) = nodes s" "root (upd_fd fd f s) = root s"
  "cwd (upd_fd fd f s) = cwd s" "heap_base (upd_fd fd f s) = heap_base s" "heap_size (upd_fd fd f s) = heap_size s"
  "console (upd_fd fd f s) = console s" "length (ftable (upd_fd fd f s)) = length (ftable s)"
  by (simp_all add: upd_fd_def)

lemma upd_fd_at [simp]:
  assumes "0 \<le> fd" and "nat fd < length (ftable s)"
  shows "ftable (upd_fd fd f s) ! nat fd = f (ftable s ! nat fd)"
  using assms by (simp add: upd_fd_def)

lemma heap_inv_upd_fd [simp]: "heap_inv (upd_fd fd f s) bs = heap_inv s bs"
  by (simp add: heap_inv_def)

text \<open>The block a write goes to: all old bytes of the file are at its start.\<close>

lemma write_block:
  assumes inv: "heap_inv s bs" and ok: "file_ok s bs p" and n: "n_size (nodes s p) \<le> n" "n \<noteq> 0"
    and room: "n_content (nodes s p) = 0 \<Longrightarrow> \<exists>b \<in> set bs. fitting n b"
  obtains tmp m' bs' where
    "(if n_content (nodes s p) = 0 then malloc n s else realloc (n_content (nodes s p)) n s) = Some (tmp, s\<lparr>mem := m'\<rparr>)"
    "heap_inv (s\<lparr>mem := m'\<rparr>) bs'" "\<And>x. outside_heap s x \<Longrightarrow> m' x = mem s x"
    "intact (n_content (nodes s p)) bs (mem s) bs' m'"
    "tmp = 0 \<Longrightarrow> n_content (nodes s p) \<noteq> 0 \<and> m' = mem s \<and> bs' = bs"
    "tmp \<noteq> 0 \<Longrightarrow> \<exists>k. n \<le> k \<and> (tmp - block_size, k, False) \<in> set bs'"
    "tmp \<noteq> 0 \<Longrightarrow> \<forall>i<n_size (nodes s p). m' (tmp + i) = mem s (n_content (nodes s p) + i)"
proof (cases "n_content (nodes s p) = 0")
  case True
  obtain q m1 bs1 where m: "malloc n s = Some (q, s\<lparr>mem := m1\<rparr>)" "heap_inv (s\<lparr>mem := m1\<rparr>) bs1"
    "heap_writes bs (mem s) m1"
    "if q = 0 then m1 = mem s \<and> bs1 = bs \<and> (\<forall>b \<in> set bs. \<not> fitting n b) else fresh_block n q bs bs1"
    using malloc_live [OF inv, of n] by blast
  have q: "q \<noteq> 0" using m(4) room [OF True] by auto
  then have fr: "fresh_block n q bs bs1" using m(4) by simp
  then obtain c k where "q = c + block_size" "n \<le> k" "(c, k, False) \<in> set bs1" unfolding fresh_block_def by blast
  then have "\<exists>k. n \<le> k \<and> (q - block_size, k, False) \<in> set bs1" by auto
  moreover have "n_size (nodes s p) = 0" using ok True by (simp add: file_ok_def)
  ultimately show thesis
    using True m(1,2) q heap_writes_outside [OF inv m(3)] fresh_block_intact [OF inv m(3) fr]
    by (intro that [of q m1 bs1]) (simp_all del: inv_update_mem)
next
  case False
  obtain l where l: "(n_content (nodes s p) - block_size, l, False) \<in> set bs" "n_size (nodes s p) \<le> l"
    using ok False by (auto simp: file_ok_def live_def)
  let ?a = "n_content (nodes s p) - block_size"
  have e: "?a + block_size = n_content (nodes s p)" by simp
  obtain q m1 bs1 where r: "realloc (n_content (nodes s p)) n s = Some (q, s\<lparr>mem := m1\<rparr>)"
    "heap_inv (s\<lparr>mem := m1\<rparr>) bs1" "intact (n_content (nodes s p)) bs (mem s) bs1 m1"
    "if q = 0 then l < n \<and> m1 = mem s \<and> bs1 = bs else (\<exists>k \<ge> n. (q - block_size, k) \<in> live bs1) \<and>
       (\<forall>i<min l n. m1 (q + i) = mem s (n_content (nodes s p) + i))"
    using realloc_content [OF inv l(1) n(2), unfolded e] by blast
  have out: "m1 x = mem s x" if "outside_heap s x" for x
    using realloc_outside [OF inv l(1) n(2), unfolded e, OF r(1) that] by simp
  have "\<forall>i<n_size (nodes s p). m1 (q + i) = mem s (n_content (nodes s p) + i)" if "q \<noteq> 0"
  proof (intro allI impI)
    fix i assume "i < n_size (nodes s p)"
    then have "i < l" "i < n" using l(2) n(1) by (blast intro: less_le_trans)+
    then have "i < min l n" by simp
    then show "m1 (q + i) = mem s (n_content (nodes s p) + i)" using r(4) that by simp
  qed
  moreover have "\<exists>k. n \<le> k \<and> (q - block_size, k, False) \<in> set bs1" if "q \<noteq> 0"
    using r(4) that by (auto simp: live_def)
  ultimately show thesis
    using False r(1-4) out by (intro that [of q m1 bs1]) (simp_all del: inv_update_mem split: if_splits)
qed

lemma sint_small: "unat (w :: u64) < 2 ^ 63 \<Longrightarrow> sint w = int (unat w)"
proof -
  assume a: "unat w < 2 ^ 63"
  have e: "uint w = int (unat w)" by simp
  have "int (unat w) < int (2 ^ 63)" using a by (simp only: of_nat_less_iff)
  then have "uint w < 2 ^ 63" unfolding e by simp
  moreover have "- (2 ^ 63) \<le> uint w" by (rule order_trans [of _ 0]) simp_all
  ultimately have "signed_take_bit 63 (uint w) = uint w" by (intro signed_take_bit_int_eq_self)
  then show ?thesis unfolding e [symmetric] sint_uint by simp
qed
lemma mem_bytes_split:
  assumes "unat off + unat count < 2 ^ 64"
    and "\<forall>i<off. m' (q + i) = m (c + i)" and "\<forall>i<count. m' (q + off + i) = m (b + i)"
  shows "mem_bytes m' q (unat (off + count)) = mem_bytes m c (unat off) @ mem_bytes m b (unat count)"
proof (rule nth_equalityI)
  have u: "unat (off + count) = unat off + unat count" using assms(1) by (rule unat_add_nowrap)
  show "length (mem_bytes m' q (unat (off + count))) = length (mem_bytes m c (unat off) @ mem_bytes m b (unat count))"
    by (simp add: u)
  fix i assume "i < length (mem_bytes m' q (unat (off + count)))"
  then have i: "i < unat off + unat count" by (simp add: u)
  show "mem_bytes m' q (unat (off + count)) ! i = (mem_bytes m c (unat off) @ mem_bytes m b (unat count)) ! i"
  proof (cases "i < unat off")
    case True
    then have "of_nat i < off" using assms(1) by (simp add: word_less_nat_alt unat_of_nat64)
    then show ?thesis using assms(2) True i by (simp add: nth_append u)
  next
    case False
    then obtain j where j: "i = unat off + j" "j < unat count" using i by (metis add_less_cancel_left le_add_diff_inverse not_less)
    have "of_nat j < count" using j(2) assms(1) by (simp add: word_less_nat_alt unat_of_nat64)
    then show ?thesis using assms(3) j by (simp add: nth_append u add.assoc)
  qed
qed

text \<open>Arguments a write is specified for: the source outside the heap, no gap, no wrap-around.\<close>

definition write_args :: "'a tmpfs_scheme \<Rightarrow> blk list \<Rightarrow> int \<Rightarrow> u64 \<Rightarrow> u64 \<Rightarrow> bool" where
  "write_args s bs fd buf count \<longleftrightarrow>
     0 \<le> fd \<and> fd < 256 \<and> length (ftable s) = 256 \<and> \<not> not_a_file fd s \<and> 0 < count \<and>
     (let f = fd_of s fd; n = nodes s (f_node f) in
      unat (f_offset f) + unat count < 2 ^ 63 \<and> f_offset f \<le> n_size n \<and> n_size n \<le> f_offset f + count \<and>
      file_ok s bs (f_node f) \<and> (n_content n = 0 \<longrightarrow> (\<exists>b \<in> set bs. fitting (f_offset f + count) b))) \<and>
     (\<forall>i<count. outside_heap s (buf + i))"

lemma write_extends:
  assumes inv: "heap_inv s bs" and args: "write_args s bs fd buf count"
  defines "p \<equiv> f_node (fd_of s fd)" and "off \<equiv> f_offset (fd_of s fd)"
  shows "\<exists>r s' bs'. fs_write fd buf count s = Some (r, s') \<and> heap_inv s' bs' \<and> f_node (fd_of s' fd) = p \<and>
    length (ftable s') = 256 \<and> file_ok s' bs' p \<and> (\<forall>x. outside_heap s x \<longrightarrow> mem s' x = mem s x) \<and>
    heap_base s' = heap_base s \<and> heap_size s' = heap_size s \<and> \<not> not_a_file fd s' \<and>
    (if r = - 1 then file_bytes s' p = file_bytes s p
     else r = sint count \<and> f_offset (fd_of s' fd) = off + count \<and> n_size (nodes s' p) = off + count \<and>
       file_bytes s' p = take (unat off) (file_bytes s p) @ mem_bytes (mem s) buf (unat count))"
proof -
  let ?c = "n_content (nodes s p)" and ?n = "off + count"
  have fd: "0 \<le> fd" "fd < 256" "length (ftable s) = 256" "\<not> not_a_file fd s" "0 < count"
    and ok: "unat off + unat count < 2 ^ 63" "off \<le> n_size (nodes s p)" "n_size (nodes s p) \<le> ?n" "file_ok s bs p"
    and room: "?c = 0 \<longrightarrow> (\<exists>b \<in> set bs. fitting ?n b)" and out: "\<forall>i<count. outside_heap s (buf + i)"
    using args by (simp_all add: write_args_def Let_def p_def off_def)
  have lt: "nat fd < length (ftable s)" using fd(1-3) by simp
  have un: "unat ?n = unat off + unat count" using ok(1) by (intro unat_add_nowrap) simp
  have count_pos: "sint count \<noteq> - 1"
  proof -
    have "unat count < 2 ^ 63" using ok(1) by simp
    then have "sint count = int (unat count)" by (rule sint_small)
    then show ?thesis by linarith
  qed
  have n0: "?n \<noteq> 0" using un fd(5) by (auto simp: word_less_nat_alt)
  have room': "\<exists>b \<in> set bs. fitting ?n b" if "?c = 0" using room that by blast
  obtain tmp m' bs' where b: "(if ?c = 0 then malloc ?n s else realloc ?c ?n s) = Some (tmp, s\<lparr>mem := m'\<rparr>)"
    "heap_inv (s\<lparr>mem := m'\<rparr>) bs'" "\<And>x. outside_heap s x \<Longrightarrow> m' x = mem s x"
    "intact ?c bs (mem s) bs' m'"
    "tmp = 0 \<Longrightarrow> ?c \<noteq> 0 \<and> m' = mem s \<and> bs' = bs"
    "tmp \<noteq> 0 \<Longrightarrow> \<exists>k. ?n \<le> k \<and> (tmp - block_size, k, False) \<in> set bs'"
    "tmp \<noteq> 0 \<Longrightarrow> \<forall>i<n_size (nodes s p). m' (tmp + i) = mem s (?c + i)"
    by (rule write_block [OF inv ok(4,3) n0 room']) (assumption | rule that)+
  show ?thesis
  proof (cases "tmp = 0")
    case True
    have "fs_write fd buf count s = Some (- 1, s)"
      unfolding fs_write_def Let_def p_def [symmetric] off_def [symmetric] b(1) using fd b(5) True by simp
    then show ?thesis using inv ok(4) fd p_def by (intro exI [of _ "- 1"] exI [of _ s] exI [of _ bs]) simp
  next
    case False
    obtain k where k: "?n \<le> k" "(tmp - block_size, k, False) \<in> set bs'" using b(6) [OF False] by blast
    let ?d = "tmp + off" and ?m2 = "copied m' (tmp + off) buf count"
    have inb_lt: "off + i < k" if "i < count" for i
    proof -
      have "unat (off + i) = unat off + unat i"
        using that ok(1) by (intro unat_add_nowrap) (simp add: word_less_nat_alt)
      then show ?thesis using that k(1) un by (simp add: word_less_nat_alt word_le_nat_alt)
    qed
    have inb: "\<not> outside_heap s (?d + i)" if "i < count" for i
    proof -
      have "off + i < k" by (rule inb_lt [OF that])
      then have "in_region (tmp - block_size + block_size) k (?d + i)" by (simp add: in_region_def add.assoc)
      from block_inside [OF b(2) k(2) this] show ?thesis by (simp add: outside_heap_def)
    qed
    have "count \<le> ?d - buf"
    proof (rule ccontr)
      assume "\<not> count \<le> ?d - buf"
      then have "?d - buf < count" by (simp add: not_le)
      with out have "outside_heap s (buf + (?d - buf))" by blast
      then show False using inb [OF fd(5)] by simp
    qed
    note cp = memcpy_copy [OF this, of m']
    let ?s2 = "upd_node p (\<lambda>x. x\<lparr>n_content := tmp\<rparr>) (s\<lparr>mem := m'\<rparr>)"
    let ?s3 = "upd_fd fd (\<lambda>f. f\<lparr>f_offset := f_offset f + count\<rparr>) (?s2\<lparr>mem := ?m2\<rparr>)"
    let ?s4 = "if n_size (nodes s p) < ?n then upd_node p (\<lambda>x. x\<lparr>n_size := ?n\<rparr>) ?s3 else ?s3"
    let ?s5 = "if fd = 1 \<or> fd = 2 then ?s4\<lparr>console := console ?s4 @ mem_bytes ?m2 buf (unat count)\<rparr> else ?s4"
    have w: "fs_write fd buf count s = Some (sint count, ?s5)"
    proof -
      have "fs_write fd buf count s = Some (sint count, finish_write fd buf count tmp (s\<lparr>mem := m'\<rparr>))"
        unfolding fs_write_def Let_def p_def [symmetric] off_def [symmetric] b(1) using fd False by simp
      also have "finish_write fd buf count tmp (s\<lparr>mem := m'\<rparr>) = ?s5"
        using fd(1) lt cp by (simp add: finish_write_def Let_def p_def off_def)
      finally show ?thesis .
    qed
    have f: "mem ?s5 = ?m2" "heap_base ?s5 = heap_base s" "heap_size ?s5 = heap_size s"
      "ftable ?s5 = (ftable s)[nat fd := (fd_of s fd)\<lparr>f_offset := ?n\<rparr>]" "n_content (nodes ?s5 p) = tmp"
      "n_is_dir (nodes ?s5 p) = n_is_dir (nodes s p)" "n_is_symlink (nodes ?s5 p) = n_is_symlink (nodes s p)"
      using fd(1) by (simp_all add: upd_fd_def off_def)
    have sz: "n_size (nodes ?s5 p) = ?n" using ok(3) by auto
    have kt: "in_region (tmp - block_size + block_size) k x" if "in_region ?d count x" for x
    proof -
      have "x - ?d < count" using that by (simp add: in_region_def)
      from inb_lt [OF this] have "off + (x - ?d) < k" .
      then show ?thesis by (simp add: in_region_def algebra_simps)
    qed
    have inv5: "heap_inv (s\<lparr>mem := ?m2\<rparr>) bs'"
    proof -
      have "?m2 x = mem (s\<lparr>mem := m'\<rparr>) x" if "\<not> in_region (tmp - block_size + block_size) k x" for x
        using kt that by (auto simp: copied_def)
      from payload_write(1) [OF b(2) k(2) this] show ?thesis by simp
    qed
    have old: "?m2 (tmp + i) = mem s (?c + i)" if i: "i < off" for i
    proof -
      have "\<not> in_region ?d count (tmp + i)"
        using i ok(1) by (auto simp: in_region_def word_less_nat_alt unat_sub_if' unat_word_ariths)
      moreover have "i < n_size (nodes s p)" using i ok(2) by (rule less_le_trans)
      ultimately show ?thesis using b(7) [OF False] by (simp add: copied_def)
    qed
    have new: "?m2 (tmp + off + i) = mem s (buf + i)" if "i < count" for i
      using that b(3) out by (simp add: copied_def)
    have "mem_bytes ?m2 tmp (unat ?n) = mem_bytes (mem s) ?c (unat off) @ mem_bytes (mem s) buf (unat count)"
      using ok(1) old new by (intro mem_bytes_split) simp_all
    moreover have "mem_bytes (mem s) ?c (unat off) = take (unat off) (file_bytes s p)"
      using ok(2) by (simp add: file_bytes_def mem_bytes_take word_le_nat_alt)
    ultimately have bytes: "file_bytes ?s5 p = take (unat off) (file_bytes s p) @ mem_bytes (mem s) buf (unat count)"
      unfolding file_bytes_def [of ?s5] f(1,5) sz by simp
    have fdn: "fd_of ?s5 fd = (fd_of s fd)\<lparr>f_offset := ?n\<rparr>" unfolding f(4) using lt by simp
    have out5: "\<forall>x. outside_heap s x \<longrightarrow> mem ?s5 x = mem s x"
    proof (intro allI impI)
      fix x assume x: "outside_heap s x"
      have "\<not> in_region ?d count x"
      proof
        assume "in_region ?d count x"
        from block_inside [OF b(2) k(2) kt [OF this]] x show False by (simp add: outside_heap_def)
      qed
      then show "mem ?s5 x = mem s x" unfolding f(1) using b(3) [OF x] by (simp add: copied_def)
    qed
    have "heap_inv ?s5 bs'" using inv5 unfolding heap_inv_def f(1-3) by simp
    moreover have "file_ok ?s5 bs' p"
      unfolding file_ok_def f(5) sz using False k by (auto simp: live_def)
    moreover have "\<not> not_a_file fd ?s5"
      using fd(4) unfolding not_a_file_def fdn f(6,7) by (simp add: p_def [symmetric] f(6,7) del: upd_node_simps)
    moreover have "length (ftable ?s5) = 256" unfolding f(4) using fd(3) by simp
    moreover have "sint count \<noteq> - 1" using count_pos .
    ultimately show ?thesis
      using w bytes sz fdn f(2,3) out5
      by (intro exI [of _ "sint count"] exI [of _ ?s5] exI [of _ bs']) (simp add: p_def [symmetric])
  qed
qed

lemma read_spec:
  assumes fd: "0 \<le> fd" "fd < 256" "length (ftable s) = 256" "\<not> not_a_file fd s"
  defines "f \<equiv> fd_of s fd"
  defines "n \<equiv> nodes s (f_node f)"
  assumes off: "f_offset f \<le> n_size n" and count: "count \<le> n_size n - f_offset f" "0 < count"
    and apart: "count \<le> buf - (n_content n + f_offset f)" and buf: "buf \<noteq> 0"
  shows "\<exists>s'. fs_read fd buf count s = (sint count, s') \<and>
    mem_bytes (mem s') buf (unat count) = take (unat count) (drop (unat (f_offset f)) (file_bytes s (f_node f))) \<and>
    mem s' (buf + count) = 0 \<and> f_offset (fd_of s' fd) = f_offset f + count"
proof -
  let ?src = "n_content n + f_offset f"
  let ?m = "(copied (mem s) buf ?src count)(buf + count := 0)"
  let ?s' = "upd_fd fd (\<lambda>f. f\<lparr>f_offset := f_offset f + count\<rparr>) (s\<lparr>mem := ?m\<rparr>)"
  have lt: "nat fd < length (ftable s)" using fd(1-3) by simp
  have e: "(if count < n_size n - f_offset f then count else n_size n - f_offset f) = count"
    using count(1) by (auto simp: not_less)
  have r: "fs_read fd buf count s = (sint count, ?s')"
    unfolding fs_read_def Let_def f_def [symmetric] n_def [symmetric] e
    using fd count(2) buf memcpy_copy [OF apart, of "mem s"] by simp
  have u: "unat count + unat (f_offset f) \<le> unat (n_size n)"
    using off count(1) by (simp add: word_le_nat_alt unat_sub)
  have "mem_bytes ?m buf (unat count) = take (unat count) (drop (unat (f_offset f)) (file_bytes s (f_node f)))"
  proof (rule nth_equalityI)
    show "length (mem_bytes ?m buf (unat count)) =
        length (take (unat count) (drop (unat (f_offset f)) (file_bytes s (f_node f))))"
      using u by (simp add: file_bytes_def n_def)
    fix i assume "i < length (mem_bytes ?m buf (unat count))"
    then have i: "i < unat count" by simp
    then have c: "of_nat i < count" by (simp add: word_less_nat_alt unat_of_nat64 less_trans [OF _ unat_lt64])
    have "?m (buf + of_nat i) = mem s (?src + of_nat i)" using c less_imp_neq [OF c] by (simp add: copied_def)
    then show "mem_bytes ?m buf (unat count) ! i =
        take (unat count) (drop (unat (f_offset f)) (file_bytes s (f_node f))) ! i"
      using i u by (simp add: file_bytes_def n_def add.assoc)
  qed
  then show ?thesis using r lt fd(1) by (intro exI [of _ ?s']) (simp add: f_def)
qed

lemma write_seek_read:
  assumes inv: "heap_inv s bs" and args: "write_args s bs fd buf count"
    and wr: "fs_write fd buf count s = Some (r, s1)" "r \<noteq> - 1"
    and sk: "fs_lseek fd (f_offset (fd_of s fd)) SEEK_SET s1 = (r2, s2)"
    and rd: "fs_read fd buf2 count s2 = (r3, s3)" and buf2: "\<forall>i<count. outside_heap s (buf2 + i)" "buf2 \<noteq> 0"
  shows "r3 = sint count \<and> mem_bytes (mem s3) buf2 (unat count) = mem_bytes (mem s) buf (unat count) \<and>
    mem s3 (buf2 + count) = 0"
proof -
  let ?off = "f_offset (fd_of s fd)" and ?p = "f_node (fd_of s fd)"
  have fd: "0 \<le> fd" "fd < 256" "length (ftable s) = 256" "0 < count"
    and lim: "unat ?off + unat count < 2 ^ 63"
    using args by (simp_all add: write_args_def Let_def)
  obtain bs' where w: "heap_inv s1 bs'" "f_node (fd_of s1 fd) = ?p" "length (ftable s1) = 256" "file_ok s1 bs' ?p"
    "heap_base s1 = heap_base s" "heap_size s1 = heap_size s" "\<not> not_a_file fd s1"
    "n_size (nodes s1 ?p) = ?off + count"
    "file_bytes s1 ?p = take (unat ?off) (file_bytes s ?p) @ mem_bytes (mem s) buf (unat count)"
    using write_extends [OF inv args] wr by auto
  have p0: "?p \<noteq> 0" using w(2,7) by (auto simp: not_a_file_def)
  have "sint ?off = int (unat ?off)" using lim by (intro sint_small) simp
  then have "0 \<le> sint ?off" by linarith
  then have s2: "s2 = upd_fd fd (\<lambda>f. f\<lparr>f_offset := ?off\<rparr>) s1"
    using sk fd w(2) p0 by (auto simp: fs_lseek_def SEEK_SET_def Let_def)
  have lt: "nat fd < length (ftable s1)" using fd w(3) by simp
  have fd2: "fd_of s2 fd = (fd_of s1 fd)\<lparr>f_offset := ?off\<rparr>" using s2 fd(1) lt by simp
  have s2': "nodes s2 = nodes s1" "mem s2 = mem s1" "length (ftable s2) = 256" using s2 w(3) by simp_all
  have nf: "\<not> not_a_file fd s2" using w(7) by (simp add: not_a_file_def fd2 s2')
  have un: "unat (?off + count) = unat ?off + unat count" using lim by (intro unat_add_nowrap) simp
  let ?c = "n_content (nodes s1 ?p)"
  have "0 < unat count" using fd(4) by (simp add: word_less_nat_alt)
  then have "?off + count \<noteq> 0" using un by auto
  then have "?c \<noteq> 0" using w(4,8) by (auto simp: file_ok_def)
  then obtain k where k: "(?c - block_size, k, False) \<in> set bs'" "?off + count \<le> k"
    using w(4,8) by (auto simp: file_ok_def live_def)
  have apart: "count \<le> buf2 - (?c + ?off)"
  proof (rule ccontr)
    assume "\<not> count \<le> buf2 - (?c + ?off)"
    then have lt: "buf2 - (?c + ?off) < count" by (simp add: not_le)
    then have "unat (?off + (buf2 - (?c + ?off))) = unat ?off + unat (buf2 - (?c + ?off))"
      using lim by (intro unat_add_nowrap) (simp add: word_less_nat_alt)
    then have "?off + (buf2 - (?c + ?off)) < k" using lt k(2) un by (simp add: word_less_nat_alt word_le_nat_alt)
    then have "in_region (?c - block_size + block_size) k buf2" by (simp add: in_region_def algebra_simps)
    from block_inside [OF w(1) k(1) this] buf2(1) [rule_format, OF fd(4)] w(5,6)
    show False by (simp add: outside_heap_def)
  qed
  have "take (unat count) (drop (unat ?off) (file_bytes s1 ?p)) = mem_bytes (mem s) buf (unat count)"
  proof -
    have "unat ?off \<le> length (file_bytes s ?p)"
      using args by (simp add: write_args_def Let_def file_bytes_def word_le_nat_alt)
    then show ?thesis unfolding w(9) by simp
  qed
  moreover have "file_bytes s2 ?p = file_bytes s1 ?p" by (simp add: file_bytes_def s2')
  moreover have "?off \<le> ?off + count" "count \<le> ?off + count - ?off" using un by (simp_all add: word_le_nat_alt)
  ultimately show ?thesis
    using read_spec [OF fd(1,2) s2'(3) nf, of count buf2] rd fd2 w(2,8) s2' fd(4) apart buf2(2) by auto
qed

text \<open>
  C7. What is written is what is read: after a \<open>write\<close> that extends a file (or
  replaces its tail), seeking back and reading the same number of bytes returns the bytes
  written, whatever reallocation the write caused. Both buffers lie outside the heap. The byte
  behind the read buffer is set to zero, one past what the caller asked for.
\<close>

theorem write_read_round_trip:
  assumes inv: "heap_inv s bs" and args: "write_args s bs fd buf count"
    and wr: "fs_write fd buf count s = Some (r, s1)" "r \<noteq> - 1"
    and sk: "fs_lseek fd (f_offset (fd_of s fd)) SEEK_SET s1 = (r2, s2)"
    and rd: "fs_read fd buf2 count s2 = (r3, s3)" and buf2: "\<forall>i<count. outside_heap s (buf2 + i)" "buf2 \<noteq> 0"
  shows "r3 = sint count \<and> mem_bytes (mem s3) buf2 (unat count) = mem_bytes (mem s) buf (unat count) \<and>
    mem s3 (buf2 + count) = 0"
  using assms by (rule write_seek_read)

definition demo_file_fs :: tmpfs where
  "demo_file_fs = demo_fs_off\<lparr>ftable := (ftable demo_fs_off)
     [3 := \<lparr>f_fd = 3, f_node = 0x5000, f_offset = 0, f_flags = 0, f_mode = 0, f_is_dirent = False, f_free = False\<rparr>]\<rparr>"

lemma demo_file:
  "heap_inv demo_file_fs demo_blocks" "write_args demo_file_fs demo_blocks 3 0x1000 5"
  "f_offset (fd_of demo_file_fs 3) = 0" "\<forall>i<5. outside_heap demo_file_fs (0x3000 + i)"
proof -
  show inv: "heap_inv demo_file_fs demo_blocks"
    using demo_heap_inv by (simp add: demo_file_fs_def demo_fs_off_def heap.defs heap_inv_def)
  have out: "outside_heap demo_file_fs (b + i)" if "i < 5" "b = 0x1000 \<or> b = 0x3000" for i b :: u64
  proof -
    have "unat (b + i) = unat b + unat i"
      using that by (intro unat_add_nowrap) (auto simp: word_less_nat_alt)
    then show ?thesis
      using that
      by (auto simp: outside_heap_def demo_file_fs_def demo_fs_off_def demo_heap_def heap.defs word_less_nat_alt)
  qed
  then show "\<forall>i<5. outside_heap demo_file_fs (0x3000 + i)" by blast
  show "f_offset (fd_of demo_file_fs 3) = 0" by (simp add: demo_file_fs_def demo_fs_off_def heap.defs)
  show "write_args demo_file_fs demo_blocks 3 0x1000 5"
    using out
    by (simp add: write_args_def Let_def not_a_file_def file_ok_def fitting_def new_node_def demo_blocks_def)
      (simp add: demo_file_fs_def demo_fs_off_def heap.defs new_node_def)
qed

theorem write_read_round_trip_witness:
  "case fs_write 3 0x1000 5 demo_file_fs of
     None \<Rightarrow> False
   | Some (r, s1) \<Rightarrow> r = - 1 \<or>
       mem_bytes (mem (snd (fs_read 3 0x3000 5 (snd (fs_lseek 3 0 SEEK_SET s1))))) 0x3000 5 =
       mem_bytes (mem demo_file_fs) 0x1000 5"
proof -
  obtain r s1 where w: "fs_write 3 0x1000 5 demo_file_fs = Some (r, s1)"
    using write_extends [OF demo_file(1,2)] by blast
  obtain r2 s2 where k: "fs_lseek 3 (f_offset (fd_of demo_file_fs 3)) SEEK_SET s1 = (r2, s2)" by fastforce
  obtain r3 s3 where d: "fs_read 3 0x3000 5 s2 = (r3, s3)" by fastforce
  have "r = - 1 \<or> mem_bytes (mem s3) 0x3000 5 = mem_bytes (mem demo_file_fs) 0x1000 5"
    using write_read_round_trip [OF demo_file(1,2) w _ k d demo_file(4)] by auto
  then show ?thesis using w k d demo_file(3) by simp
qed

lemma create_existing:
  "resolve_loop (nodes s) cur toks = Some n \<Longrightarrow> n \<noteq> 0 \<Longrightarrow> create_loop dir mode cur toks s = Some (n, s)"
proof (induction toks arbitrary: cur)
  case (Cons t toks)
  then show ?case by (auto split: if_splits bind_splits)
qed simp

text \<open>
  C33. \<open>mkdir\<close> of a directory that exists succeeds and forgets its entries: the node
  is found, and then its list of children and its place among its siblings are cleared. Loading
  the ram disk calls \<open>mkdir\<close> for every directory of every file it unpacks.
\<close>

theorem mkdir_forgets_entries:
  assumes "resolve_path (Some path) s = Some n" and "n \<noteq> 0" and "path \<noteq> []"
  shows "\<exists>s'. fs_mkdir (Some path) mode s = Some (0, s') \<and> n_first_child (nodes s' n) = 0 \<and>
    n_next_sibling (nodes s' n) = 0 \<and> find_child (nodes s') token (n_first_child (nodes s' n)) = Some 0"
proof -
  have hd: "hd (take 511 path) = hd path" using assms(3) by (cases path) simp_all
  have c: "cwd s \<noteq> 0" using assms(1,2) by (auto simp: resolve_path_def resolve_path_internal_def)
  then have "resolve_loop (nodes s) (if hd path = slash then root s else cwd s) (path_tokens (Some (take 511 path))) = Some n"
    using assms(1,3) by (simp add: resolve_path_def resolve_path_internal_def)
  from create_existing [OF this assms(2)] have "create_at_path (Some path) True mode s = Some (n, s)"
    using c assms(3) hd by (simp add: create_at_path_def create_at_path_internal_def Let_def)
  then show ?thesis using assms(2) by (simp add: fs_mkdir_def find_child.simps)
qed

theorem mkdir_forgets_entries_witness:
  "\<exists>s s'. fs_initialise demo_fs_off = Some s \<and> fs_mkdir (Some (cstr ''/'')) 0x1ED s = Some (0, s') \<and>
     n_first_child (nodes s' (root s)) = 0"
proof -
  obtain s bs where d: "fs_initialise demo_fs_off = Some s" "root s = 0x200090" "cwd s = 0x200090"
    using demo_fs by metis
  have "resolve_path (Some (cstr ''/'')) s = Some 0x200090"
    using d(2,3) by (simp add: resolve_path_def resolve_path_internal_def path_tokens.simps next_token_def slash_def)
  from mkdir_forgets_entries [OF this, of "0x1ED"] d show ?thesis by auto
qed

text \<open>
  C38. \<open>rename\<close> frees the node it renames: \<open>name\<close> is an array inside the
  node, so \<open>free(n->name)\<close> releases the block of the node, which stays linked in the
  directory. The next allocation may hand the same memory out again.
\<close>

theorem rename_frees_node:
  assumes wf: "tree_wf s bs N" and old: "resolve_path old s = Some n" "n \<noteq> 0" "n \<in> N"
    and new: "resolve_path (Some new) s = Some 0"
  shows "\<exists>s' bs'. fs_rename old new s = Some (0, s') \<and> heap_inv s' bs' \<and>
    n - block_size \<in> fst ` live bs \<and> n - block_size \<notin> fst ` live bs' \<and>
    (\<forall>d. n_first_child (nodes s' d) = n_first_child (nodes s d) \<and> n_next_sibling (nodes s' d) = n_next_sibling (nodes s d))"
proof -
  have inv: "heap_inv s bs" using wf by (simp add: tree_wf_def)
  obtain k where k: "(n - block_size, k) \<in> live bs" using wf old(3) by (auto simp: tree_wf_def)
  obtain m' bs' where f: "heap_free n s = Some (s\<lparr>mem := m'\<rparr>)" "heap_inv (s\<lparr>mem := m'\<rparr>) bs'"
    "live bs' = {(a, l) \<in> live bs. a + block_size \<noteq> n}"
    using free_live [OF inv old(2)] by blast
  have "fs_rename old new s = Some (0, upd_node n (\<lambda>x. x\<lparr>n_name := take 127 (base_name new)\<rparr>) (s\<lparr>mem := m'\<rparr>))"
    using old(1,2) new f(1) by (simp add: fs_rename_def fs_unlink_def)
  moreover have "n - block_size \<notin> fst ` live bs'" by (auto simp: f(3))
  moreover have "n - block_size \<in> fst ` live bs" using k by force
  ultimately show ?thesis
    using f(2) by (intro exI [of _ "upd_node n (\<lambda>x. x\<lparr>n_name := take 127 (base_name new)\<rparr>) (s\<lparr>mem := m'\<rparr>)"] exI [of _ bs'])
      (simp del: inv_update_mem)
qed

theorem rename_frees_node_witness:
  "\<exists>s s' bs'. fs_initialise demo_fs_off = Some s \<and>
     fs_rename (Some (cstr ''/'')) (cstr ''/b'') s = Some (0, s') \<and> heap_inv s' bs' \<and> 0x200068 \<notin> fst ` live bs'"
proof -
  obtain s bs where d: "fs_initialise demo_fs_off = Some s" "tree_wf s bs {0x200090}"
    "n_first_child (nodes s 0x200090) = 0" "root s = 0x200090" "cwd s = 0x200090"
    using demo_fs by metis
  have r: "resolve_path (Some (cstr ''/'')) s = Some 0x200090" "resolve_path (Some (cstr ''/b'')) s = Some 0"
    using d(3-5) by (simp_all add: resolve_path_def resolve_path_internal_def path_tokens.simps next_token_def
        slash_def dot_def find_child.simps)
  from rename_frees_node [OF d(2) r(1) _ _ r(2)] d(1) show ?thesis by (auto simp: block_size_def)
qed

text \<open>
  The path cleaning of the ram disk loader is idempotent: cleaning a cleaned path
  changes nothing, so it yields a normal form.
\<close>

lemma clean_path_idempotent: "clean_path prev (clean_path prev xs) = clean_path prev xs"
proof (induction prev xs rule: clean_path.induct)
  case (2 prev c cs)
  consider "c = slash" | "c = dot \<and> (prev = slash \<or> prev = 0) \<and> (cs = [] \<or> hd cs = slash)" "c \<noteq> slash"
    | "\<not> (c = dot \<and> (prev = slash \<or> prev = 0) \<and> (cs = [] \<or> hd cs = slash))" "c \<noteq> slash" by blast
  then show ?case
  proof cases
    case 3
    then have IH: "clean_path c (clean_path c cs) = clean_path c cs" using 2 by blast
    have "clean_path c cs \<noteq> [] \<and> hd (clean_path c cs) \<noteq> slash" if "c = dot" "prev = slash \<or> prev = 0"
    proof (cases cs)
      case (Cons d ds)
      then have "d \<noteq> slash" using 3 that by simp
      then show ?thesis using that(1) Cons by (simp add: dot_def slash_def)
    qed (use 3 that in simp)
    then show ?thesis using 3 IH by auto
  qed (use 2 in auto)
qed simp

lemma alloc_fd_from_spec:
  assumes "length (ftable s) = 256" and "i + n = 256" and "\<forall>j<i. \<not> f_free (ftable s ! j)"
  shows "case alloc_fd_from n i s of (fd, s') \<Rightarrow>
    if fd = - 1 then s' = s \<and> (\<forall>j<256. \<not> f_free (ftable s ! j))
    else 0 \<le> fd \<and> fd < 256 \<and> f_free (ftable s ! nat fd) \<and> (\<forall>j<nat fd. \<not> f_free (ftable s ! j)) \<and>
      \<not> f_free (ftable s' ! nat fd) \<and> f_fd (ftable s' ! nat fd) = fd \<and>
      (\<forall>j. j \<noteq> nat fd \<longrightarrow> ftable s' ! j = ftable s ! j)"
  using assms
proof (induction n i s rule: alloc_fd_from.induct)
  case (2 n i s)
  show ?case
  proof (cases "f_free (ftable s ! i)")
    case True
    then show ?thesis using 2(2-4) by (simp add: upd_fd_def)
  next
    case False
    have "\<forall>j<Suc i. \<not> f_free (ftable s ! j)" using False 2(4) by (auto simp: less_Suc_eq)
    then show ?thesis using 2(1) [OF False] 2(2,3) False by simp
  qed
qed simp

text \<open>
  \<open>alloc_fd\<close> returns the lowest free descriptor, marks it used and leaves all
  others alone; it fails exactly when all 256 are in use, and then changes nothing.
\<close>

lemma alloc_fd_lowest:
  assumes "length (ftable s) = 256"
  shows "case alloc_fd s of (fd, s') \<Rightarrow>
    if fd = - 1 then s' = s \<and> (\<forall>j<256. \<not> f_free (ftable s ! j))
    else 0 \<le> fd \<and> fd < 256 \<and> f_free (ftable s ! nat fd) \<and> (\<forall>j<nat fd. \<not> f_free (ftable s ! j)) \<and>
      \<not> f_free (ftable s' ! nat fd) \<and> f_fd (ftable s' ! nat fd) = fd \<and>
      (\<forall>j. j \<noteq> nat fd \<longrightarrow> ftable s' ! j = ftable s ! j)"
  using alloc_fd_from_spec [of s 0 256] assms by (simp add: alloc_fd_def)

lemma alloc_fd_lowest_example:
  "case alloc_fd demo_fs_off of (fd, s') \<Rightarrow> fd = - 1 \<and> s' = demo_fs_off"
proof -
  have l: "length (ftable demo_fs_off) = 256" by (simp add: demo_fs_off_def heap.defs)
  have "\<not> f_free (ftable demo_fs_off ! j)" if "j < 256" for j
    using that by (simp add: demo_fs_off_def heap.defs)
  then show ?thesis using alloc_fd_lowest [OF l] by (auto split: prod.splits if_splits)
qed

end
