(* ===== verification/Gdt.thy ===== *)
theory Gdt
  imports Ports
begin

unbundle bit_operations_syntax

text \<open>
  The global descriptor table and the task state segment,
  \<open>kernel/src/arch/x86_64/cpu/gdt.cpp\<close> and \<open>gdt.hpp\<close>. The addresses of the static
  objects are arguments; \<open>lgdt\<close> and \<open>ltr\<close> record the value they load.
\<close>

record gdtr_t =
  gdtr_limit :: u16
  gdtr_base :: u64

record gdt_entry_t =
  limit_low :: u16
  base_low :: u16
  base_middle :: u8
  access :: u8
  granularity :: u8
  base_high :: u8

record tss_entry_t =
  tss_limit_low :: u16
  tss_base_low :: u16
  tss_base_middle1 :: u8
  tss_access :: u8
  tss_granularity :: u8
  tss_base_middle2 :: u8
  tss_base_high :: u32
  tss_reserved :: u32

record gdt_t =
  gdt_null :: gdt_entry_t
  kernel_code :: gdt_entry_t
  kernel_data :: gdt_entry_t
  user_data :: gdt_entry_t
  user_code :: gdt_entry_t
  gdt_tss :: tss_entry_t

record tss_t =
  rsp0 :: u64
  rsp1 :: u64
  rsp2 :: u64
  ist1 :: u64
  ist2 :: u64
  ist3 :: u64
  ist4 :: u64
  ist5 :: u64
  ist6 :: u64
  ist7 :: u64
  iopb_offset :: u16

record gdt_state =
  gdt :: gdt_t
  gdtr :: gdtr_t
  tss :: tss_t
  tss_rsp :: u64
  tss_rbp :: u64
  loaded_gdtr :: "gdtr_t option"
  loaded_tr :: "u16 option"

definition descriptor :: "u8 \<Rightarrow> u8 \<Rightarrow> gdt_entry_t" where
  "descriptor acc gran = \<lparr>limit_low = 0, base_low = 0, base_middle = 0, access = acc,
     granularity = gran, base_high = 0\<rparr>"

definition default_gdt :: gdt_t where
  "default_gdt = \<lparr>gdt_null = descriptor 0 0, kernel_code = descriptor 0x9A 0xA0,
     kernel_data = descriptor 0x92 0xA0, user_data = descriptor 0xF2 0xA0,
     user_code = descriptor 0xFA 0xA0,
     gdt_tss = \<lparr>tss_limit_low = 0, tss_base_low = 0, tss_base_middle1 = 0, tss_access = 0x89,
       tss_granularity = 0, tss_base_middle2 = 0, tss_base_high = 0, tss_reserved = 0\<rparr>\<rparr>"

text \<open>The sizes of the packed structures.\<close>

definition sizeof_gdt :: u16 where "sizeof_gdt = 5 * 8 + 16"
definition sizeof_tss :: u16 where "sizeof_tss = 104"

definition load_gdt :: "gdt_state \<Rightarrow> gdt_state" where
  "load_gdt g = g\<lparr>loaded_gdtr := Some (gdtr g)\<rparr>"

text \<open>The selector \<open>tss_load\<close> loads (in the assembly file) is an argument.\<close>

definition load_tss :: "u16 \<Rightarrow> gdt_state \<Rightarrow> gdt_state" where
  "load_tss sel g = g\<lparr>loaded_tr := Some sel\<rparr>"

definition tss_descriptor :: "u64 \<Rightarrow> u16 \<Rightarrow> tss_entry_t" where
  "tss_descriptor base limit =
     \<lparr>tss_limit_low = limit AND 0xFFFF, tss_base_low = ucast (base AND 0xFFFF),
      tss_base_middle1 = ucast (drop_bit 16 base AND 0xFF), tss_access = 0x89, tss_granularity = 0,
      tss_base_middle2 = ucast (drop_bit 24 base AND 0xFF),
      tss_base_high = ucast (drop_bit 32 base AND 0xFFFFFFFF), tss_reserved = 0\<rparr>"

definition gdt_initialise :: "u64 \<Rightarrow> u64 \<Rightarrow> u64 \<Rightarrow> u16 \<Rightarrow> gdt_state \<Rightarrow> gdt_state" where
  "gdt_initialise gdt_addr tss_addr kernel_stack tss_sel g =
     (let g1 = g\<lparr>gdt := default_gdt,
                 tss := (tss g)\<lparr>rsp0 := kernel_stack + 4096, ist1 := kernel_stack + 4096,
                                iopb_offset := sizeof_tss\<rparr>\<rparr>;
          g2 = g1\<lparr>gdt := (gdt g1)\<lparr>gdt_tss := tss_descriptor tss_addr (sizeof_tss - 1)\<rparr>,
                  gdtr := \<lparr>gdtr_limit = sizeof_gdt - 1, gdtr_base = gdt_addr\<rparr>\<rparr>;
          g3 = load_tss tss_sel (load_gdt g2)
      in g3\<lparr>tss_rsp := rsp0 (tss g3), tss_rbp := rsp0 (tss g3)\<rparr>)"

text \<open>The base address a task segment descriptor encodes.\<close>

definition tss_base :: "tss_entry_t \<Rightarrow> u64" where
  "tss_base e = ucast (tss_base_low e) OR push_bit 16 (ucast (tss_base_middle1 e)) OR
     push_bit 24 (ucast (tss_base_middle2 e)) OR push_bit 32 (ucast (tss_base_high e))"

lemma tss_base_descriptor: "tss_base (tss_descriptor base limit) = base"
proof (rule bit_word_eqI)
  have m: "(0xFFFF :: u64) = mask 16" "(0xFFFFFFFF :: u64) = mask 32" "(0xFF :: u64) = mask 8"
    by (simp_all add: mask_eq_exp_minus_1)
  fix n assume "n < LENGTH(64)"
  then show "bit (tss_base (tss_descriptor base limit)) n = bit base n"
    by (cases "n < 16"; cases "n < 24"; cases "n < 32")
      (auto simp: tss_base_def tss_descriptor_def m bit_simps)
qed

text \<open>Initialisation: the task segment descriptor leads to the task state segment, whose
  stack for interrupts is the end of the kernel stack.\<close>

lemma gdt_initialise_tss:
  assumes "g' = gdt_initialise gdt_addr tss_addr kernel_stack sel g"
  shows "tss_base (gdt_tss (gdt g')) = tss_addr" and "tss_limit_low (gdt_tss (gdt g')) = 103"
    and "rsp0 (tss g') = kernel_stack + 4096" and "ist1 (tss g') = kernel_stack + 4096"
    and "loaded_gdtr g' = Some \<lparr>gdtr_limit = 55, gdtr_base = gdt_addr\<rparr>"
  by (simp_all add: assms gdt_initialise_def Let_def load_gdt_def load_tss_def tss_base_descriptor
      sizeof_tss_def sizeof_gdt_def) (simp add: tss_descriptor_def)

end
