(* ===== verification/Syscall.thy ===== *)
theory Syscall
  imports Tmpfs_Files Gdt
begin

unbundle bit_operations_syntax

text \<open>
  System calls, \<open>kernel/src/arch/x86_64/syscall/syscall.cpp\<close> and the wrappers of
  \<open>syscalls/io.cpp\<close> around the file system. A handler pointer is the name of the wrapper. The
  arguments are register values; a wrapper takes an \<open>int\<close> from the low half of its register
  and a path from the string its register points to. The model specific registers are a
  function of their number. The debug output of the handler is left out.
\<close>

section \<open>Data\<close>

datatype sys_func =
    Sys_open | Sys_close | Sys_read | Sys_write | Sys_pread | Sys_pwrite | Sys_lseek | Sys_stat
  | Sys_chmod | Sys_chown | Sys_truncate | Sys_sync | Sys_datasync | Sys_mkdir | Sys_chdir | Sys_link
  | Sys_unlink | Sys_rename | Sys_symlink | Sys_readlink | Sys_rmdir | Sys_getdents

record syscall_entry =
  sc_num :: int
  sc_func :: sys_func

text \<open>The first \<open>num_syscalls\<close> entries of the array, and the model specific registers.\<close>

record syscall_state =
  syscalls :: "syscall_entry list"
  msr :: "u32 \<Rightarrow> u64"

definition IA32_EFER :: u32 where "IA32_EFER = 0xC0000080"
definition IA32_STAR :: u32 where "IA32_STAR = 0xC0000081"
definition IA32_LSTAR :: u32 where "IA32_LSTAR = 0xC0000082"
definition IA32_FMASK :: u32 where "IA32_FMASK = 0xC0000084"

section \<open>The wrappers\<close>

definition int_arg :: "u64 \<Rightarrow> int" where "int_arg r = sint (ucast r :: u32)"

definition path_arg :: "u64 \<Rightarrow> 'a tmpfs_scheme \<Rightarrow> u8 list option" where
  "path_arg p s = map_option (\<lambda>n. mem_bytes (mem s) p (unat n)) (strlen (mem s) p)"

text \<open>A path that may be a null pointer.\<close>

definition opt_path_arg :: "u64 \<Rightarrow> 'a tmpfs_scheme \<Rightarrow> u8 list option option" where
  "opt_path_arg p s = (if p = 0 then Some None else map_option Some (path_arg p s))"

text \<open>
  The wrappers; \<open>created\<close> is the uninitialised variable of \<open>link\<close>, see theory
  \<open>Tmpfs\<close>. A result is the signed result of the operation converted to 64 bits.
\<close>

fun sys_run :: "bool \<Rightarrow> sys_func \<Rightarrow> u64 \<Rightarrow> u64 \<Rightarrow> u64 \<Rightarrow> u64 \<Rightarrow> 'a tmpfs_scheme \<Rightarrow> (int \<times> 'a tmpfs_scheme) option" where
  "sys_run created Sys_open a b c d s =
     do { path \<leftarrow> opt_path_arg a s; fs_open path (ucast b) (ucast c) [] s }"
| "sys_run created Sys_close a b c d s = fs_close (int_arg a) s"
| "sys_run created Sys_read a b c d s = Some (fs_read (int_arg a) b c s)"
| "sys_run created Sys_write a b c d s = fs_write (int_arg a) b c s"
| "sys_run created Sys_pread a b c d s = Some (fs_pread (int_arg a) b c d s)"
| "sys_run created Sys_pwrite a b c d s = fs_pwrite (int_arg a) b c d s"
| "sys_run created Sys_lseek a b c d s = Some (fs_lseek (int_arg a) b (int_arg c) s)"
| "sys_run created Sys_stat a b c d s = Some (fs_fstat (int_arg a) b s)"
| "sys_run created Sys_chmod a b c d s = Some (fs_fchmod (int_arg a) (ucast b) s)"
| "sys_run created Sys_chown a b c d s = Some (fs_fchown (int_arg a) (ucast b) (ucast c) s)"
| "sys_run created Sys_truncate a b c d s = fs_ftruncate (int_arg a) b s"
| "sys_run created Sys_sync a b c d s = Some (fs_fsync (int_arg a), s)"
| "sys_run created Sys_datasync a b c d s = Some (fs_fdatasync (int_arg a), s)"
| "sys_run created Sys_mkdir a b c d s = do { path \<leftarrow> opt_path_arg a s; fs_mkdir path (ucast b) s }"
| "sys_run created Sys_chdir a b c d s = do { path \<leftarrow> path_arg a s; fs_chdir path s }"
| "sys_run created Sys_link a b c d s =
     do { old \<leftarrow> opt_path_arg a s; new \<leftarrow> opt_path_arg b s; fs_link created old new s }"
| "sys_run created Sys_unlink a b c d s = do { path \<leftarrow> opt_path_arg a s; fs_unlink path s }"
| "sys_run created Sys_rename a b c d s =
     do { old \<leftarrow> opt_path_arg a s; new \<leftarrow> path_arg b s; fs_rename old new s }"
| "sys_run created Sys_symlink a b c d s =
     do { target \<leftarrow> opt_path_arg a s; linkpath \<leftarrow> path_arg b s; fs_symlink target linkpath s }"
| "sys_run created Sys_readlink a b c d s = do { path \<leftarrow> opt_path_arg a s; fs_readlink path b c s }"
| "sys_run created Sys_rmdir a b c d s = do { path \<leftarrow> opt_path_arg a s; fs_rmdir path s }"
| "sys_run created Sys_getdents a b c d s = fs_getdents (int_arg a) b c s"

section \<open>Dispatch\<close>

definition add_syscall :: "int \<Rightarrow> sys_func \<Rightarrow> syscall_state \<Rightarrow> syscall_state" where
  "add_syscall num handler st =
     (if 512 \<le> length (syscalls st) then st
      else st\<lparr>syscalls := syscalls st @ [\<lparr>sc_num = num, sc_func = handler\<rparr>]\<rparr>)"

fun find_syscall :: "syscall_entry list \<Rightarrow> u64 \<Rightarrow> sys_func option" where
  "find_syscall [] rax = None"
| "find_syscall (e # es) rax = (if of_int (sc_num e) = rax then Some (sc_func e) else find_syscall es rax)"

definition syscall_handler ::
  "bool \<Rightarrow> syscall_state \<Rightarrow> u64 \<Rightarrow> u64 \<Rightarrow> u64 \<Rightarrow> u64 \<Rightarrow> u64 \<Rightarrow> 'a tmpfs_scheme \<Rightarrow> (u64 \<times> 'a tmpfs_scheme) option" where
  "syscall_handler created st rax rdi rsi rdx r10 s =
     (case find_syscall (syscalls st) rax of
        None \<Rightarrow> Some (- 1, s)
      | Some f \<Rightarrow> map_option (\<lambda>(r, s1). (of_int r, s1)) (sys_run created f rdi rsi rdx r10 s))"

text \<open>\<open>rdmsr\<close> and \<open>wrmsr\<close> move a register in two halves.\<close>

definition rdmsr :: "u32 \<Rightarrow> syscall_state \<Rightarrow> u64" where
  "rdmsr r st =
     (let lo = (ucast (msr st r) :: u32); hi = (ucast (drop_bit 32 (msr st r)) :: u32)
      in push_bit 32 (ucast hi) OR ucast lo)"

definition wrmsr :: "u32 \<Rightarrow> u64 \<Rightarrow> syscall_state \<Rightarrow> syscall_state" where
  "wrmsr r value st =
     (let lo = (ucast (value AND 0xFFFFFFFF) :: u32); hi = (ucast (drop_bit 32 value) :: u32)
      in st\<lparr>msr := (msr st)(r := push_bit 32 (ucast hi) OR ucast lo)\<rparr>)"

definition star_value :: u64 where
  "star_value = push_bit 32 0x08 OR push_bit 48 0x10 OR push_bit 0 0x23 OR push_bit 16 0x1B"

definition syscall_table :: "(int \<times> sys_func) list" where
  "syscall_table =
     [(2, Sys_open), (3, Sys_close), (0, Sys_read), (1, Sys_write), (17, Sys_pread), (18, Sys_pwrite),
      (8, Sys_lseek), (5, Sys_stat), (90, Sys_chmod), (92, Sys_chown), (77, Sys_truncate), (74, Sys_sync),
      (75, Sys_datasync), (83, Sys_mkdir), (80, Sys_chdir), (86, Sys_link), (87, Sys_unlink),
      (82, Sys_rename), (88, Sys_symlink), (89, Sys_readlink), (84, Sys_rmdir), (78, Sys_getdents)]"

definition sys_initialise :: "u64 \<Rightarrow> syscall_state \<Rightarrow> syscall_state" where
  "sys_initialise syscall_func st =
     (let efer = rdmsr IA32_EFER st OR 1;
          st = wrmsr IA32_EFER efer st;
          st = wrmsr IA32_STAR star_value st;
          st = wrmsr IA32_LSTAR syscall_func st;
          st = wrmsr IA32_FMASK 0 st
      in fold (\<lambda>(n, f). add_syscall n f) syscall_table st)"

section \<open>Properties\<close>

lemma fold_add_syscall:
  "length (syscalls st) + length es \<le> 512 \<Longrightarrow>
     syscalls (fold (\<lambda>(n, f). add_syscall n f) es st) =
     syscalls st @ map (\<lambda>(n, f). \<lparr>sc_num = n, sc_func = f\<rparr>) es"
  by (induction es arbitrary: st) (auto simp: add_syscall_def)

lemma msr_fold_add: "msr (fold (\<lambda>(n, f). add_syscall n f) es st) = msr st"
  by (induction es arbitrary: st) (auto simp: add_syscall_def)

lemma syscalls_wrmsr [simp]: "syscalls (wrmsr r v st) = syscalls st"
  by (simp add: wrmsr_def Let_def)

lemma halves: "push_bit 32 (ucast (ucast (drop_bit 32 v) :: u32)) OR ucast (ucast v :: u32) = (v :: u64)"
  by (rule bit_word_eqI) (auto simp: bit_simps)

lemma msr_wrmsr [simp]: "msr (wrmsr r v st) = (msr st)(r := v)"
proof -
  have m: "(0xFFFFFFFF :: u64) = mask 32" by (simp add: mask_eq_exp_minus_1)
  have "ucast (v AND 0xFFFFFFFF) = (ucast v :: u32)"
    unfolding m by (rule bit_word_eqI) (auto simp: bit_simps)
  then show ?thesis by (simp add: wrmsr_def Let_def halves)
qed

lemma rdmsr_msr [simp]: "rdmsr r st = msr st r"
  by (simp add: rdmsr_def Let_def halves)

text \<open>The table after initialisation.\<close>

lemma sys_initialise_table:
  assumes "syscalls st0 = []"
  shows "find_syscall (syscalls (sys_initialise f st0)) 0 = Some Sys_read"
    "find_syscall (syscalls (sys_initialise f st0)) 1 = Some Sys_write"
    "find_syscall (syscalls (sys_initialise f st0)) 8 = Some Sys_lseek"
proof -
  have "length syscall_table = 22" by (simp add: syscall_table_def)
  then have "syscalls (sys_initialise f st0) = map (\<lambda>(n, f). \<lparr>sc_num = n, sc_func = f\<rparr>) syscall_table"
    using assms by (simp add: sys_initialise_def Let_def fold_add_syscall)
  then show "find_syscall (syscalls (sys_initialise f st0)) 0 = Some Sys_read"
    "find_syscall (syscalls (sys_initialise f st0)) 1 = Some Sys_write"
    "find_syscall (syscalls (sys_initialise f st0)) 8 = Some Sys_lseek"
    by (simp_all add: syscall_table_def)
qed

lemma sys_initialise_msr:
  "msr (sys_initialise f st0) = (msr st0)(IA32_EFER := msr st0 IA32_EFER OR 1, IA32_STAR := star_value,
     IA32_LSTAR := f, IA32_FMASK := 0)"
  by (simp add: sys_initialise_def Let_def msr_fold_add)



end
