(* ===== verification/Spec2Isabelle.thy ===== *)
theory Spec2Isabelle
  imports Ps2m Pcie Syscall
begin

text \<open>
  A verification library of the Terrakernel kernel (\<open>kernel/src/\<close> of the repository), a small
  x86-64 kernel in C and C++ booted by Limine.

  \<^bold>\<open>The program.\<close> At boot \<open>main.cpp\<close> sets up the segment and interrupt descriptors, the
  physical memory manager (a bitmap of 4 KiB frames over the usable segments of the boot
  loader's memory map), the virtual memory manager (four-level page tables), the kernel heap
  (a doubly linked list of blocks in one reserved run of frames), the timer, the ACPI
  interpreter through its kernel interface, the temporary file system with the ram disk, PCI,
  system calls, the PS/2 keyboard and mouse, and the line discipline that turns key events into
  lines. File system and drivers allocate from the heap, the heap and the page tables from the
  physical memory manager; the keyboard's interrupt handler calls the line discipline through a
  callback.

  \<^bold>\<open>Theories.\<close> Every theory models one part, in the order of the code, and proves its
  properties; file names are relative to \<open>kernel/src/\<close>.

  \<^item> \<open>Prelude\<close>: machine integers as words, the flat byte memory, regions and their
    separation, little-endian loads and stores, counting loops.
  \<^item> \<open>Mem_Ops\<close> (\<open>mem/other.cpp\<close>): \<open>memset\<close>, \<open>memcpy\<close>, \<open>memmove\<close>, \<open>memcmp\<close>.
  \<^item> \<open>Direct_Map\<close>, \<open>Pmm\<close>, \<open>Pmm_Boot\<close> (\<open>mem/pmm.cpp\<close>, the address
    conversions of \<open>mem/vmm.cpp\<close>): segments, bitmap, boot, \<open>palloc\<close>,
    \<open>reserve_heap\<close>, \<open>free\<close> and the counters. Allocations from boot on are disjoint runs
    of managed frames, allocation is first fit, and \<open>free\<close> releases nothing. The locale
    \<open>frame_source\<close> is what a client of the frame allocator relies on.
  \<^item> \<open>Vmm\<close> (\<open>mem/vmm.cpp\<close>): page tables in memory, \<open>mmap\<close>, \<open>munmap\<close>, new
    page tables; a mapping translates as asked and keeps all other translations.
  \<^item> \<open>Heap\<close>, \<open>Heap_Chain\<close>, \<open>Heap_Props\<close>, \<open>Heap_Calls\<close>
    (\<open>mem/heap.cpp\<close>): block headers in memory, every allocation and release operation,
    merging. The chain of headers refines a list of blocks; any sequence of calls keeps the
    blocks in use and their bytes (locale \<open>block_store\<close>, interpreted on the heap).
  \<^item> \<open>Cstring\<close> (\<open>libcxx/cstring.cpp\<close>): the string routines on terminated strings.
  \<^item> \<open>Tmpfs\<close>, \<open>Tmpfs_Tree\<close>, \<open>Tmpfs_Files\<close> (\<open>tmpfs/tmpfs.cpp\<close>): nodes,
    descriptors, paths, all operations and the ram disk loader; creating and resolving paths,
    writing and reading files.
  \<^item> \<open>Ports\<close> (\<open>arch/x86_64/io/io.cpp\<close>), \<open>Idt\<close> and \<open>Gdt\<close>
    (\<open>arch/x86_64/cpu/\<close>), \<open>Pit\<close> (\<open>drivers/timers/pit.cpp\<close>): port accesses on an
    abstract device, descriptors, interrupt masks, the tick counter and waiting.
  \<^item> \<open>Keycodes\<close>, \<open>Ps2k\<close> (\<open>drivers/input/ps2k/\<close>): key codes, scan code tables,
    event buffer, interrupt handler. The ring buffer refines a bounded queue (locale
    \<open>bounded_fifo\<close>), scan codes are decoded to key events, and every state the driver reaches
    is well formed (rule induction over the step relation \<open>ps2k_step\<close>).
  \<^item> \<open>Ldisc\<close> (\<open>drivers/tty/ldisc/\<close>): modifier keys, characters, line editing; the
    blocking read returns the line typed.
  \<^item> \<open>Syscall\<close> (\<open>arch/x86_64/syscall/\<close>): the table of system calls, dispatch, and the
    wrappers of the file system operations; writing and reading a file by system calls.
  \<^item> \<open>Kernel_Api\<close> (\<open>arch/x86_64/acpi/kernel_api.cpp\<close>): the services for the ACPI
    interpreter.

  \<^bold>\<open>State.\<close> Global variables are record fields. The memory managers and the file system
  form one chain of extensible records (\<open>pmm\<close>, \<open>vmm\<close>, \<open>heap\<close>, \<open>tmpfs\<close>) on
  one byte memory, the drivers another (\<open>cpu\<close>, \<open>idt\<close>, \<open>pit\<close>, \<open>ps2k\<close>,
  \<open>ldisc\<close>) on the state of the devices. An operation takes the state it works on and
  returns the new one; operations that use both chains take both. Structures the code keeps in
  memory and computes addresses of (bitmap, page tables, block headers, strings, file contents,
  small handles) are bytes of the memory; file system nodes are records indexed by the address
  \<open>malloc\<close> returned.

  \<^bold>\<open>Loops.\<close> Loops with a word counter are total functions with a measure on the counter.
  Loops along pointers, scans for a terminator and waits for a device, a lock or an interrupt
  are partial functions into \<open>option\<close>: a result is \<open>Some\<close>, and that the loops of the
  heap, the file system, the string routines, the timer and the line discipline return under the
  invariants is part of the theorems. No fuel is used.

  \<^bold>\<open>Arguments of the model.\<close> The boot loader's answers, the generated build
  configuration, the addresses the linker chooses, the devices behind the ports (record
  \<open>device\<close>), and what interrupts do while the code waits are arguments of the definitions.
  Theorems that need a device to behave say so by a named hypothesis (\<open>masks_latched\<close>,
  \<open>delivers\<close>, \<open>config_registers\<close>), and their witnesses give a concrete device.

  \<^bold>\<open>Not modelled.\<close>
  \<^item> \<open>lib/uACPI\<close> and \<open>uacpi/\<close> (the ACPI interpreter) and \<open>lib/Flanterm\<close>
    (the terminal) are third-party libraries vendored into the tree; only the kernel's side of
    their interfaces is modelled. The SATA driver \<open>drivers/blockio/ahci.cpp\<close> programs a
    controller through memory-mapped registers and direct memory access.
  \<^item> Output: the formatting of \<open>printf\<close> beyond the one conversion the line discipline
    uses, the log functions, debug output, and the printing of trees and tables.
  \<^item> Assembly: interrupt entry stubs, the system call entry, switching to user mode.
  \<^item> Effects outside the memory model: two virtual addresses for one frame (the memory is
    indexed by the pointer the code dereferences, and page tables are data), caches and the
    translation buffer beyond the list of invalidated pages, concurrency of interrupt handlers
    with the code they interrupt except at the waits, descriptor numbers outside the table.
\<close>

section \<open>System calls and segment descriptors\<close>

text \<open>The descriptor a selector names.\<close>

definition gdt_at :: "gdt_t \<Rightarrow> u16 \<Rightarrow> gdt_entry_t" where
  "gdt_at g sel = [gdt_null g, kernel_code g, kernel_data g, user_data g, user_code g] ! unat (sel div 8)"

text \<open>
  C30. The segments of system calls: with the register values that system call initialisation
  writes and the table that descriptor initialisation builds, entering the kernel by
  \<open>syscall\<close> selects the kernel code and data descriptors, returning by \<open>sysret\<close> (which
  adds 16 and 8 to the upper selector) selects the user code and data descriptors, the entry
  point is the one given, and the instruction is enabled.
\<close>

theorem syscall_selectors_match_gdt:
  "access (gdt_at (gdt (gdt_initialise ga ta ks sel g)) (ucast (drop_bit 32 (msr (sys_initialise f st) IA32_STAR)))) = 0x9A \<and>
   access (gdt_at (gdt (gdt_initialise ga ta ks sel g)) (ucast (drop_bit 32 (msr (sys_initialise f st) IA32_STAR)) + 8)) = 0x92 \<and>
   access (gdt_at (gdt (gdt_initialise ga ta ks sel g)) (ucast (drop_bit 48 (msr (sys_initialise f st) IA32_STAR)) + 16)) = 0xFA \<and>
   access (gdt_at (gdt (gdt_initialise ga ta ks sel g)) (ucast (drop_bit 48 (msr (sys_initialise f st) IA32_STAR)) + 8)) = 0xF2 \<and>
   msr (sys_initialise f st) IA32_LSTAR = f \<and> bit (msr (sys_initialise f st) IA32_EFER) 0"
proof -
  have "msr (sys_initialise f st) IA32_STAR = star_value" "msr (sys_initialise f st) IA32_LSTAR = f"
    "msr (sys_initialise f st) IA32_EFER = msr st IA32_EFER OR 1"
    by (simp_all add: sys_initialise_msr IA32_STAR_def IA32_LSTAR_def IA32_EFER_def IA32_FMASK_def)
  moreover have "ucast (drop_bit 32 star_value) = (8 :: u16)" "ucast (drop_bit 48 star_value) = (16 :: u16)"
    by (simp_all add: star_value_def)
  ultimately show ?thesis
    by (simp add: gdt_at_def gdt_initialise_def load_gdt_def load_tss_def Let_def default_gdt_def descriptor_def
        bit_or_iff)
qed

end
